(* ===== verification/Prelude.thy ===== *)
theory Prelude
  imports Main "HOL-Library.Char_ord" "HOL-Library.List_Lexorder"
begin

text \<open>
  The vocabulary every component of the development shares: the bytes and strings of C++
  (\<open>std::string\<close> is a list of \<open>char\<close>, the 256 byte values, ordered
  lexicographically by unsigned byte value as \<open>std::less<std::string>\<close> orders it), the
  exceptions the code throws, the decimal printing of \<open>std::to_string\<close>, and a few
  list facts. The collections \<open>db_simps\<close>, \<open>lex_simps\<close> and \<open>svc_simps\<close>
  gather the unfolding rules of the components.
\<close>

named_theorems db_simps \<open>definitions of the database operations\<close>
named_theorems lex_simps \<open>unfolding rules of the JSON lexer\<close>
named_theorems svc_simps \<open>unfolding rules of the request handlers\<close>

section \<open>Exceptions\<close>

text \<open>
  The exception classes the sources throw or catch. The classes of the JSON library carry
  their id; a parse error also carries the byte position. \<open>Logic_Error\<close> is a
  \<open>std::logic_error\<close> that is not a \<open>std::invalid_argument\<close>; \<open>Std_Exception\<close>
  is any other \<open>std::exception\<close>; \<open>Bson_Error\<close> is the MongoDB driver's error
  value, \<open>Uint32_Exn\<close> a thrown \<open>uint32_t\<close> and \<open>Other_Exn\<close> any other thrown value that is not a \<open>std::exception\<close>.
\<close>

datatype exn =
    Json_Parse_Error nat nat string
  | Json_Out_Of_Range nat string
  | Json_Type_Error nat string
  | Invalid_Argument string
  | Logic_Error string
  | Std_Exception string
  | Bson_Error nat string
  | Uint32_Exn nat
  | Other_Exn

fun what :: "exn \<Rightarrow> string" where
  "what (Json_Parse_Error i b w) = w"
| "what (Json_Out_Of_Range i w) = w"
| "what (Json_Type_Error i w) = w"
| "what (Invalid_Argument w) = w"
| "what (Logic_Error w) = w"
| "what (Std_Exception w) = w"
| "what (Bson_Error c w) = w"
| "what (Uint32_Exn n) = []"
| "what Other_Exn = []"

type_synonym 'a result = "exn + 'a"

text \<open>Code that may call \<open>exit\<close>.\<close>

datatype 'a process = Exits int | Runs 'a

section \<open>Strings\<close>

text \<open>The single and the double quote, which the messages of the sources use.\<close>

abbreviation sq :: string where "sq \<equiv> [CHR 0x27]"
abbreviation dq :: string where "dq \<equiv> [CHR 0x22]"

text \<open>\<open>s.c_str()\<close> passed where a \<open>std::string\<close> is expected: the bytes before the
  first NUL.\<close>

definition c_str :: "string \<Rightarrow> string" where
  "c_str s = takeWhile (\<lambda>c. c \<noteq> CHR 0x00) s"

text \<open>\<open>s.resize(n, 0)\<close>: cut to \<open>n\<close> bytes or fill up with NUL bytes.\<close>

definition string_resize :: "nat \<Rightarrow> string \<Rightarrow> string" where
  "string_resize n s = take n s @ replicate (n - length s) (CHR 0x00)"

text \<open>Decimal digits, most significant first, and \<open>std::to_string\<close>.\<close>

definition digit_char :: "nat \<Rightarrow> char" where
  "digit_char d = char_of (48 + d)"

fun to_string_nat :: "nat \<Rightarrow> string" where
  "to_string_nat n = (if n < 10 then [digit_char n] else to_string_nat (n div 10) @ [digit_char (n mod 10)])"

declare to_string_nat.simps [simp del]

definition to_string_int :: "int \<Rightarrow> string" where
  "to_string_int i = (if i < 0 then CHR ''-'' # to_string_nat (nat (- i)) else to_string_nat (nat i))"

lemma length_string_resize [simp]: "length (string_resize n s) = n"
  by (simp add: string_resize_def)

lemma string_resize_id [simp]: "length s = n \<Longrightarrow> string_resize n s = s"
  by (simp add: string_resize_def)

lemma c_str_id: "CHR 0x00 \<notin> set s \<Longrightarrow> c_str s = s"
  unfolding c_str_def by (induction s) auto

lemma c_str_no_nul: "CHR 0x00 \<notin> set (c_str s)"
  unfolding c_str_def by (auto dest: set_takeWhileD)

lemma to_string_nat_nonempty [simp]: "to_string_nat n \<noteq> []"
  by (subst to_string_nat.simps) simp

lemma of_char_digit_char: "d < 10 \<Longrightarrow> of_char (digit_char d) = (48 + d :: nat)"
  by (simp add: digit_char_def)

lemma to_string_nat_digits: "c \<in> set (to_string_nat n) \<Longrightarrow> \<exists>d<10. c = digit_char d"
proof (induction n rule: to_string_nat.induct)
  case (1 n)
  show ?case
  proof (cases "n < 10")
    case True
    with "1.prems" show ?thesis by (auto simp: to_string_nat.simps [of n])
  next
    case False
    with "1.prems" have "c \<in> set (to_string_nat (n div 10)) \<or> c = digit_char (n mod 10)"
      by (auto simp: to_string_nat.simps [of n])
    moreover have "n mod 10 < 10" by simp
    ultimately show ?thesis using "1.IH" [OF False] by blast
  qed
qed

section \<open>Lists\<close>

lemma sorted_strict_distinct: "sorted_wrt (<) xs \<Longrightarrow> distinct (xs :: 'a :: linorder list)"
  by (simp add: strict_sorted_iff)

lemma concat_map_replicate_length:
  "(\<And>x. x \<in> set xs \<Longrightarrow> length (f x) = n) \<Longrightarrow> length (concat (map f xs)) = n * length xs"
  by (induction xs) auto

end
