(* ===== verification/Std_Containers.thy ===== *)
theory Std_Containers
  imports Prelude
begin

text \<open>
  \<open>std::map\<close> and \<open>std::set\<close> as the sources use them. Both iterate in key order, and
  the order is observable (the JSON serializer prints object members in it, the key array
  of a group and the indexed envelope follow it), so a map is the list of its entries with
  strictly ascending keys and a set the strictly ascending list of its elements.
\<close>

section \<open>Operations\<close>

type_synonym ('k, 'v) std_map = "('k \<times> 'v) list"
type_synonym 'a std_set = "'a list"

text \<open>\<open>find\<close>: \<open>None\<close> is \<open>end()\<close>.\<close>

fun map_find :: "('k, 'v) std_map \<Rightarrow> 'k \<Rightarrow> 'v option" where
  "map_find [] k = None"
| "map_find (kv # m) k = (if fst kv = k then Some (snd kv) else map_find m k)"

text \<open>\<open>m[k] = v\<close>: overwrite the entry, or insert it at its place in the order.\<close>

fun map_assign :: "('k :: linorder, 'v) std_map \<Rightarrow> 'k \<Rightarrow> 'v \<Rightarrow> ('k, 'v) std_map" where
  "map_assign [] k v = [(k, v)]"
| "map_assign (kv # m) k v =
     (if fst kv < k then kv # map_assign m k v
      else if fst kv = k then (k, v) # m
      else (k, v) # kv # m)"

text \<open>\<open>m[k]\<close> read where the key is present (the default value is what \<open>operator[]\<close>
  would insert).\<close>

definition map_index :: "'v \<Rightarrow> ('k, 'v) std_map \<Rightarrow> 'k \<Rightarrow> 'v" where
  "map_index d m k = (case map_find m k of None \<Rightarrow> d | Some v \<Rightarrow> v)"

text \<open>\<open>m.erase(k)\<close>.\<close>

definition map_erase :: "('k, 'v) std_map \<Rightarrow> 'k \<Rightarrow> ('k, 'v) std_map" where
  "map_erase m k = filter (\<lambda>kv. fst kv \<noteq> k) m"

text \<open>\<open>s.find(x) != end()\<close>, \<open>s.insert(x)\<close> with its \<open>second\<close> component (whether
  the element is new) and \<open>s.erase(x)\<close> with the number of erased elements.\<close>

definition set_find :: "'a std_set \<Rightarrow> 'a \<Rightarrow> bool" where
  "set_find s x = List.member s x"

fun set_add :: "'a :: linorder std_set \<Rightarrow> 'a \<Rightarrow> 'a std_set" where
  "set_add [] x = [x]"
| "set_add (y # s) x = (if y < x then y # set_add s x else if y = x then y # s else x # y # s)"

definition set_insert :: "'a :: linorder std_set \<Rightarrow> 'a \<Rightarrow> 'a std_set \<times> bool" where
  "set_insert s x = (set_add s x, \<not> set_find s x)"

definition set_erase :: "'a std_set \<Rightarrow> 'a \<Rightarrow> 'a std_set \<times> nat" where
  "set_erase s x = (removeAll x s, length s - length (removeAll x s))"

text \<open>The representation invariants.\<close>

definition map_ok :: "('k :: linorder, 'v) std_map \<Rightarrow> bool" where
  "map_ok m \<longleftrightarrow> sorted_wrt (<) (map fst m)"

definition set_ok :: "'a :: linorder std_set \<Rightarrow> bool" where
  "set_ok s \<longleftrightarrow> sorted_wrt (<) s"

section \<open>Maps\<close>

lemma map_find_map_of: "map_find m k = map_of m k"
  by (induction m) auto

lemma map_find_assign [simp]: "map_find (map_assign m k v) k' = (if k' = k then Some v else map_find m k')"
  by (induction m) auto

lemma map_find_erase [simp]: "map_find (map_erase m k) k' = (if k' = k then None else map_find m k')"
  unfolding map_erase_def by (induction m) auto

lemma map_find_None_iff: "map_find m k = None \<longleftrightarrow> k \<notin> fst ` set m"
  by (simp add: map_find_map_of map_of_eq_None_iff)

lemma keys_map_assign [simp]: "fst ` set (map_assign m k v) = insert k (fst ` set m)"
  by (induction m) auto

lemma set_map_assign_subset: "set (map_assign m k v) \<subseteq> insert (k, v) (set m)"
  by (induction m) auto

lemma map_ok_Nil [simp]: "map_ok []"
  by (simp add: map_ok_def)

lemma map_ok_Cons: "map_ok (kv # m) \<longleftrightarrow> (\<forall>k \<in> fst ` set m. fst kv < k) \<and> map_ok m"
  by (auto simp: map_ok_def)

lemma map_ok_assign [simp]: "map_ok m \<Longrightarrow> map_ok (map_assign m k v)"
  by (induction m) (auto simp: map_ok_Cons)

lemma map_ok_erase [simp]: "map_ok m \<Longrightarrow> map_ok (map_erase m k)"
  unfolding map_erase_def by (induction m) (auto simp: map_ok_Cons)

lemma map_find_in_set: "map_ok m \<Longrightarrow> map_find m k = Some v \<longleftrightarrow> (k, v) \<in> set m"
proof -
  assume "map_ok m"
  then have "distinct (map fst m)"
    by (simp add: map_ok_def sorted_strict_distinct)
  then show ?thesis
    by (simp add: map_find_map_of)
qed

lemma map_ok_map_values [simp]: "map_ok (map (\<lambda>kv. (fst kv, f (snd kv))) m) = map_ok m"
  by (simp add: map_ok_def comp_def)

lemma map_find_map_values:
  "map_find (map (\<lambda>kv. (fst kv, f (snd kv))) m) k = map_option f (map_find m k)"
  by (induction m) auto

text \<open>Two ordered maps with the same lookups are the same list of entries.\<close>

lemma map_ok_ext:
  assumes "map_ok m" and "map_ok m'" and "\<And>k. map_find m k = map_find m' k"
  shows "m = m'"
proof -
  have set_eq: "set m = set m'"
    using assms(3) map_find_in_set [OF assms(1)] map_find_in_set [OF assms(2)]
    by (auto simp: set_eq_iff)
  have "sorted (map fst m)" "distinct (map fst m)" "sorted (map fst m')" "distinct (map fst m')"
    using assms(1,2) by (auto simp: map_ok_def strict_sorted_iff)
  moreover from this have "inj_on fst (set m \<union> set m')"
    using set_eq by (simp add: distinct_map)
  ultimately show ?thesis
    using set_eq by (intro map_sorted_distinct_set_unique [of fst m m'])
qed

section \<open>Sets\<close>

lemma set_find_iff [simp]: "set_find s x \<longleftrightarrow> x \<in> set s"
  by (simp add: set_find_def)

lemma set_set_add [simp]: "set (set_add s x) = insert x (set s)"
  by (induction s) auto

lemma set_ok_Nil [simp]: "set_ok []"
  by (simp add: set_ok_def)

lemma set_ok_single [simp]: "set_ok [x]"
  by (simp add: set_ok_def)

lemma set_ok_add [simp]: "set_ok s \<Longrightarrow> set_ok (set_add s x)"
  unfolding set_ok_def by (induction s) auto

lemma set_ok_removeAll [simp]: "set_ok s \<Longrightarrow> set_ok (removeAll x s)"
  unfolding set_ok_def by (induction s) auto

lemma set_ok_distinct: "set_ok s \<Longrightarrow> distinct s"
  by (simp add: set_ok_def sorted_strict_distinct)

lemma set_add_mem: "set_ok s \<Longrightarrow> x \<in> set s \<Longrightarrow> set_add s x = s"
  unfolding set_ok_def by (induction s) auto

lemma set_erase_count: "x \<in> set s \<Longrightarrow> snd (set_erase s x) \<noteq> 0"
  using length_removeAll_less [of x s] by (simp add: set_erase_def not_le)

end
