(* ===== verification/Json_Value.thy ===== *)
theory Json_Value
  imports Std_Containers "HOL-Library.Word"
begin

text \<open>
  The JSON value type of the library copy the repository ships (\<open>json/json.hpp\<close>,
  \<open>nlohmann::basic_json\<close> with its default parameters), the exceptions of that library
  and the accessors the services use: \<open>at\<close>, \<open>get<std::string>\<close>,
  \<open>operator[]\<close> and the macro \<open>json_str\<close>. An object is an ordered map
  (\<open>std::map\<close>), an array a list; integers are 64-bit words and numbers with a
  fraction or an exponent are IEEE doubles, as the lexer reads them with \<open>strtod\<close>.
\<close>

section \<open>Values\<close>

text \<open>An IEEE-754 double: sign, significand and binary exponent, or an infinity.\<close>

datatype double = Dbl bool nat int | Dbl_Inf bool

datatype json =
    Json_Null
  | Json_Object "(string \<times> json) list"
  | Json_Array "json list"
  | Json_String string
  | Json_Boolean bool
  | Json_Integer "64 word"
  | Json_Unsigned "64 word"
  | Json_Float double
  | Json_Discarded

fun type_name :: "json \<Rightarrow> string" where
  "type_name Json_Null = ''null''"
| "type_name (Json_Object m) = ''object''"
| "type_name (Json_Array xs) = ''array''"
| "type_name (Json_String s) = ''string''"
| "type_name (Json_Boolean b) = ''boolean''"
| "type_name Json_Discarded = ''discarded''"
| "type_name _ = ''number''"

section \<open>Exceptions of the library\<close>

text \<open>\<open>exception::name\<close> and the three \<open>create\<close> functions. The explanation reaches the
  exception through \<open>c_str\<close>, so it ends at the first NUL byte.\<close>

definition exception_name :: "string \<Rightarrow> nat \<Rightarrow> string" where
  "exception_name ename i = ''[json.exception.'' @ ename @ ''.'' @ to_string_nat i @ ''] ''"

definition parse_error_create :: "nat \<Rightarrow> nat \<Rightarrow> string \<Rightarrow> exn" where
  "parse_error_create i byte what_arg =
     Json_Parse_Error i byte (c_str (exception_name ''parse_error'' i @ ''parse error'' @
       (if byte \<noteq> 0 then '' at '' @ to_string_nat byte else []) @ '': '' @ what_arg))"

definition type_error_create :: "nat \<Rightarrow> string \<Rightarrow> exn" where
  "type_error_create i what_arg = Json_Type_Error i (c_str (exception_name ''type_error'' i @ what_arg))"

definition out_of_range_create :: "nat \<Rightarrow> string \<Rightarrow> exn" where
  "out_of_range_create i what_arg =
     Json_Out_Of_Range i (c_str (exception_name ''out_of_range'' i @ what_arg))"

section \<open>Accessors\<close>

definition json_at :: "json \<Rightarrow> string \<Rightarrow> json result" where
  "json_at j key =
     (case j of
        Json_Object m \<Rightarrow>
          (case map_find m key of
             Some v \<Rightarrow> Inr v
           | None \<Rightarrow> Inl (out_of_range_create 403 (''key '' @ sq @ key @ sq @ '' not found'')))
      | _ \<Rightarrow> Inl (type_error_create 304 (''cannot use at() with '' @ type_name j)))"

definition json_get_string :: "json \<Rightarrow> string result" where
  "json_get_string j =
     (case j of
        Json_String s \<Rightarrow> Inr s
      | _ \<Rightarrow> Inl (type_error_create 302 (''type must be string, but is '' @ type_name j)))"

text \<open>The macro \<open>json_str(var, field)\<close>.\<close>

definition json_str :: "json \<Rightarrow> string \<Rightarrow> string result" where
  "json_str j field = (case json_at j field of Inl e \<Rightarrow> Inl e | Inr v \<Rightarrow> json_get_string v)"

text \<open>\<open>j[key] = v\<close> on a non-const value: null becomes an object first.\<close>

definition json_index_assign :: "json \<Rightarrow> string \<Rightarrow> json \<Rightarrow> json result" where
  "json_index_assign j key v =
     (case j of
        Json_Null \<Rightarrow> Inr (Json_Object (map_assign [] key v))
      | Json_Object m \<Rightarrow> Inr (Json_Object (map_assign m key v))
      | _ \<Rightarrow> Inl (type_error_create 305 (''cannot use operator[] with '' @ type_name j)))"

section \<open>Numbers\<close>

definition is_digit_char :: "char \<Rightarrow> bool" where
  "is_digit_char c \<longleftrightarrow> 48 \<le> (of_char c :: nat) \<and> (of_char c :: nat) \<le> 57"

definition digits_value :: "string \<Rightarrow> nat" where
  "digits_value s = foldl (\<lambda>n c. 10 * n + (of_char c - 48)) 0 s"

fun bit_length :: "nat \<Rightarrow> nat" where
  "bit_length n = (if n = 0 then 0 else Suc (bit_length (n div 2)))"

declare bit_length.simps [simp del]

text \<open>Round the quotient to the nearest integer, ties to even.\<close>

definition round_half_even :: "nat \<Rightarrow> nat \<Rightarrow> nat" where
  "round_half_even p q =
     (let n = p div q; r = p mod q
      in if 2 * r < q \<or> (2 * r = q \<and> even n) then n else n + 1)"

text \<open>The double nearest to \<open>p / q\<close>: 53 bits of significand, exponent at least -1074
  (subnormal numbers below), infinity from 2 to the power 1024 on.\<close>

definition nearest_double :: "bool \<Rightarrow> nat \<Rightarrow> nat \<Rightarrow> double" where
  "nearest_double neg p q =
     (if p = 0 then Dbl neg 0 0
      else
        let e0 = int (bit_length p) - int (bit_length q) - 53;
            scaled = (\<lambda>e. if e < 0 then (p * 2 ^ nat (- e), q) else (p, q * 2 ^ nat e));
            e1 = (let (a, b) = scaled e0 in if a \<ge> 2 ^ 53 * b then e0 + 1 else e0);
            e2 = max (- 1074) e1;
            n = (let (a, b) = scaled e2 in round_half_even a b);
            (n', e3) = (if n = 2 ^ 53 then (2 ^ 52, e2 + 1) else (n, e2))
        in if n' = 0 then Dbl neg 0 0 else if e3 > 971 then Dbl_Inf neg else Dbl neg n' e3)"

text \<open>\<open>strtod\<close> on the text of a JSON number, whose decimal point is the locale's.\<close>

definition strtod :: "char \<Rightarrow> string \<Rightarrow> double" where
  "strtod point s =
     (let (neg, s1) = (case s of c # r \<Rightarrow> if c = CHR ''-'' then (True, r) else (False, s) | [] \<Rightarrow> (False, []));
          whole = takeWhile is_digit_char s1;
          s2 = dropWhile is_digit_char s1;
          frac = (case s2 of c # r \<Rightarrow> if c = point then takeWhile is_digit_char r else [] | [] \<Rightarrow> []);
          s3 = (case s2 of c # r \<Rightarrow> if c = point then dropWhile is_digit_char r else s2 | [] \<Rightarrow> []);
          ex = (case s3 of
                  c # r \<Rightarrow>
                    (case r of
                       d # r' \<Rightarrow> if d = CHR ''-'' then - int (digits_value r')
                                else if d = CHR ''+'' then int (digits_value r')
                                else int (digits_value r)
                     | [] \<Rightarrow> 0)
                | [] \<Rightarrow> 0) - int (length frac);
          m = digits_value (whole @ frac)
      in if 0 \<le> ex then nearest_double neg (m * 10 ^ nat ex) 1 else nearest_double neg m (10 ^ nat (- ex)))"

fun isfinite :: "double \<Rightarrow> bool" where
  "isfinite (Dbl s m e) = True"
| "isfinite (Dbl_Inf s) = False"

section \<open>Well-formed values\<close>

text \<open>The significand and exponent of a finite double that is not zero, and the doubles that
  exist.\<close>

definition canonical :: "nat \<Rightarrow> int \<Rightarrow> bool" where
  "canonical m e \<longleftrightarrow> 0 < m \<and> m < 2 ^ 53 \<and> - 1074 \<le> e \<and> e \<le> 971 \<and> (2 ^ 52 \<le> m \<or> e = - 1074)"

fun double_ok :: "double \<Rightarrow> bool" where
  "double_ok (Dbl neg m e) \<longleftrightarrow> canonical m e \<or> m = 0 \<and> e = 0"
| "double_ok (Dbl_Inf neg) \<longleftrightarrow> True"

text \<open>Every object inside a value keeps its members in strictly ascending key order, every
  number with a fraction is a finite double, and no value was discarded.\<close>

fun json_ok :: "json \<Rightarrow> bool" where
  "json_ok (Json_Object m) = (map_ok m \<and> list_all (\<lambda>kv. json_ok (snd kv)) m)"
| "json_ok (Json_Array xs) = list_all json_ok xs"
| "json_ok (Json_Float x) = (double_ok x \<and> isfinite x)"
| "json_ok Json_Discarded = False"
| "json_ok _ = True"

lemma json_str_eq:
  "json_str j field = Inr s \<longleftrightarrow> (\<exists>m. j = Json_Object m \<and> map_find m field = Some (Json_String s))"
  by (cases j) (auto simp: json_str_def json_at_def json_get_string_def
      split: option.splits json.splits)

lemma digits_value_snoc: "digits_value (s @ [c]) = 10 * digits_value s + (of_char c - 48)"
  by (simp add: digits_value_def)

lemma digits_value_to_string: "digits_value (to_string_nat n) = n"
proof (induction n rule: to_string_nat.induct)
  case (1 n)
  show ?case
  proof (cases "n < 10")
    case True
    then show ?thesis
      by (simp add: to_string_nat.simps [of n] digits_value_def of_char_digit_char)
  next
    case False
    with "1.IH" show ?thesis
      by (simp add: to_string_nat.simps [of n] digits_value_snoc of_char_digit_char)
  qed
qed

lemma is_digit_digit_char: "d < 10 \<Longrightarrow> is_digit_char (digit_char d)"
  by (simp add: is_digit_char_def of_char_digit_char)

lemma to_string_nat_is_digit: "list_all is_digit_char (to_string_nat n)"
  using to_string_nat_digits is_digit_digit_char by (fastforce simp: list_all_iff)

end
