(* ===== verification/Json_Lexer.thy ===== *)
theory Json_Lexer
  imports Json_Value
begin

unbundle bit_operations_syntax

text \<open>
  The lexer of \<open>json/json.hpp\<close> (class \<open>lexer\<close> and \<open>input_buffer_adapter\<close>). Its
  state is a record with one field per member; \<open>current\<close> is an \<open>int\<close>, a byte
  value or -1 for the end of the input. Each member function is one definition; the state
  machine of \<open>scan_number\<close> has one definition per label of the source. A function that
  returns a token returns the pair of the token and the new state. The loops end because
  every character read that is not the end of the input shortens what is left
  (\<open>lx_left\<close>).
\<close>

section \<open>State and input\<close>

datatype token_type =
    Tok_uninitialized
  | Tok_literal_true
  | Tok_literal_false
  | Tok_literal_null
  | Tok_value_string
  | Tok_value_unsigned
  | Tok_value_integer
  | Tok_value_float
  | Tok_begin_array
  | Tok_begin_object
  | Tok_end_array
  | Tok_end_object
  | Tok_name_separator
  | Tok_value_separator
  | Tok_parse_error
  | Tok_end_of_input
  | Tok_literal_or_value

fun token_type_name :: "token_type \<Rightarrow> string" where
  "token_type_name Tok_uninitialized = ''<uninitialized>''"
| "token_type_name Tok_literal_true = ''true literal''"
| "token_type_name Tok_literal_false = ''false literal''"
| "token_type_name Tok_literal_null = ''null literal''"
| "token_type_name Tok_value_string = ''string literal''"
| "token_type_name Tok_value_unsigned = ''number literal''"
| "token_type_name Tok_value_integer = ''number literal''"
| "token_type_name Tok_value_float = ''number literal''"
| "token_type_name Tok_begin_array = sq @ ''['' @ sq"
| "token_type_name Tok_begin_object = sq @ ''{'' @ sq"
| "token_type_name Tok_end_array = sq @ '']'' @ sq"
| "token_type_name Tok_end_object = sq @ ''}'' @ sq"
| "token_type_name Tok_name_separator = sq @ '':'' @ sq"
| "token_type_name Tok_value_separator = sq @ '','' @ sq"
| "token_type_name Tok_parse_error = ''<parse error>''"
| "token_type_name Tok_end_of_input = ''end of input''"
| "token_type_name Tok_literal_or_value = sq @ ''['' @ sq @ '', '' @ sq @ ''{'' @ sq @ '', or a literal''"

text \<open>\<open>lx_ia\<close> is what the input adapter has not handed out yet (the bytes from its
  cursor to its limit).\<close>

record lexer =
  lx_ia :: string
  lx_current :: int
  lx_next_unget :: bool
  lx_chars_read :: nat
  lx_token_string :: string
  lx_token_buffer :: string
  lx_error_message :: string
  lx_value_integer :: "64 word"
  lx_value_unsigned :: "64 word"
  lx_value_float :: double
  lx_decimal_point :: char

definition eof :: int where
  "eof = - 1"

text \<open>The constructor; the decimal point is the one of the locale.\<close>

definition lexer_new :: "char \<Rightarrow> string \<Rightarrow> lexer" where
  "lexer_new point input =
     \<lparr>lx_ia = input, lx_current = eof, lx_next_unget = False, lx_chars_read = 0,
      lx_token_string = [], lx_token_buffer = [], lx_error_message = [],
      lx_value_integer = 0, lx_value_unsigned = 0, lx_value_float = Dbl False 0 0,
      lx_decimal_point = point\<rparr>"

text \<open>\<open>input_buffer_adapter::get_character\<close>.\<close>

definition get_character :: "string \<Rightarrow> int \<times> string" where
  "get_character ia = (case ia of [] \<Rightarrow> (eof, []) | c # cs \<Rightarrow> (of_char c, cs))"

definition lx_get :: "lexer \<Rightarrow> lexer" where
  "lx_get l =
     (let l1 = l\<lparr>lx_chars_read := lx_chars_read l + 1\<rparr>;
          l2 = (if lx_next_unget l1 then l1\<lparr>lx_next_unget := False\<rparr>
                else let (c, rest) = get_character (lx_ia l1) in l1\<lparr>lx_current := c, lx_ia := rest\<rparr>)
      in if lx_current l2 \<noteq> eof
         then l2\<lparr>lx_token_string := lx_token_string l2 @ [char_of (lx_current l2)]\<rparr>
         else l2)"

definition lx_unget :: "lexer \<Rightarrow> lexer" where
  "lx_unget l =
     (let l1 = l\<lparr>lx_next_unget := True, lx_chars_read := lx_chars_read l - 1\<rparr>
      in if lx_current l1 \<noteq> eof then l1\<lparr>lx_token_string := butlast (lx_token_string l1)\<rparr> else l1)"

definition lx_add :: "int \<Rightarrow> lexer \<Rightarrow> lexer" where
  "lx_add c l = l\<lparr>lx_token_buffer := lx_token_buffer l @ [char_of c]\<rparr>"

definition lx_reset :: "lexer \<Rightarrow> lexer" where
  "lx_reset l = l\<lparr>lx_token_buffer := [], lx_token_string := [char_of (lx_current l)]\<rparr>"

text \<open>Set the error message and return \<open>token_type::parse_error\<close>.\<close>

definition lx_fail :: "string \<Rightarrow> lexer \<Rightarrow> token_type \<times> lexer" where
  "lx_fail msg l = (Tok_parse_error, l\<lparr>lx_error_message := msg\<rparr>)"

text \<open>\<open>get_token_string\<close>: control characters become \<open><U+>\<close>.\<close>

definition get_token_string :: "lexer \<Rightarrow> string" where
  "get_token_string l =
     concat (map (\<lambda>c. if (of_char c :: nat) \<le> 0x1F then ''<U+>'' else [c]) (lx_token_string l))"

section \<open>Strings\<close>

text \<open>\<open>get_codepoint\<close>: four hex digits after a backslash and a \<open>u\<close>.\<close>

fun get_codepoint_loop :: "nat list \<Rightarrow> int \<Rightarrow> lexer \<Rightarrow> int \<times> lexer" where
  "get_codepoint_loop [] codepoint l = (codepoint, l)"
| "get_codepoint_loop (factor # factors) codepoint l =
     (let l1 = lx_get l; c = lx_current l1
      in if 0x30 \<le> c \<and> c \<le> 0x39
         then get_codepoint_loop factors (codepoint + push_bit factor (c - 0x30)) l1
         else if 0x41 \<le> c \<and> c \<le> 0x46
         then get_codepoint_loop factors (codepoint + push_bit factor (c - 0x37)) l1
         else if 0x61 \<le> c \<and> c \<le> 0x66
         then get_codepoint_loop factors (codepoint + push_bit factor (c - 0x57)) l1
         else (- 1, l1))"

definition get_codepoint :: "lexer \<Rightarrow> int \<times> lexer" where
  "get_codepoint l = get_codepoint_loop [12, 8, 4, 0] 0 l"

definition ill_formed :: string where
  "ill_formed = ''invalid string: ill-formed UTF-8 byte''"

text \<open>\<open>next_byte_in_range\<close>: the ranges as pairs.\<close>

fun next_bytes_loop :: "(int \<times> int) list \<Rightarrow> lexer \<Rightarrow> bool \<times> lexer" where
  "next_bytes_loop [] l = (True, l)"
| "next_bytes_loop (r # rs) l =
     (let l1 = lx_get l
      in if fst r \<le> lx_current l1 \<and> lx_current l1 \<le> snd r
         then next_bytes_loop rs (lx_add (lx_current l1) l1)
         else (False, l1\<lparr>lx_error_message := ill_formed\<rparr>))"

definition next_byte_in_range :: "(int \<times> int) list \<Rightarrow> lexer \<Rightarrow> bool \<times> lexer" where
  "next_byte_in_range ranges l = next_bytes_loop ranges (lx_add (lx_current l) l)"

text \<open>The UTF-8 bytes of a code point, as \<open>scan_string\<close> adds them.\<close>

definition add_codepoint :: "int \<Rightarrow> lexer \<Rightarrow> lexer" where
  "add_codepoint cp l =
     (if cp < 0x80 then lx_add cp l
      else if cp \<le> 0x7FF then
        lx_add (0x80 OR (cp AND 0x3F)) (lx_add (0xC0 OR drop_bit 6 cp) l)
      else if cp \<le> 0xFFFF then
        lx_add (0x80 OR (cp AND 0x3F))
         (lx_add (0x80 OR (drop_bit 6 cp AND 0x3F)) (lx_add (0xE0 OR drop_bit 12 cp) l))
      else
        lx_add (0x80 OR (cp AND 0x3F))
         (lx_add (0x80 OR (drop_bit 6 cp AND 0x3F))
           (lx_add (0x80 OR (drop_bit 12 cp AND 0x3F)) (lx_add (0xF0 OR drop_bit 18 cp) l))))"

definition hex_message :: string where
  "hex_message = ''invalid string: '' @ sq @ [CHR 0x5C] @ ''u'' @ sq @ '' must be followed by 4 hex digits''"

definition surrogate_message :: string where
  "surrogate_message =
     ''invalid string: surrogate U+DC00..U+DFFF must be followed by U+DC00..U+DFFF''"

definition lone_low_message :: string where
  "lone_low_message = ''invalid string: surrogate U+DC00..U+DFFF must follow U+D800..U+DBFF''"

text \<open>
  One turn of the loop of \<open>scan_string\<close> either goes on with a new state (\<open>Inl\<close>, the
  \<open>break\<close> of the switch) or returns (\<open>Inr\<close>). First the unicode escape, after
  \<open>current\<close> is \<open>u\<close>.
\<close>

type_synonym scan_step = "lexer + token_type \<times> lexer"

definition scan_unicode_escape :: "lexer \<Rightarrow> scan_step" where
  "scan_unicode_escape l =
     (let (codepoint1, l1) = get_codepoint l
      in if codepoint1 = - 1 then Inr (lx_fail hex_message l1)
         else if 0xD800 \<le> codepoint1 \<and> codepoint1 \<le> 0xDBFF then
           let l2 = lx_get l1
           in if lx_current l2 \<noteq> 0x5C then Inr (lx_fail surrogate_message l2)
              else
                let l3 = lx_get l2
                in if lx_current l3 \<noteq> 0x75 then Inr (lx_fail surrogate_message l3)
                   else
                     let (codepoint2, l4) = get_codepoint l3
                     in if codepoint2 = - 1 then Inr (lx_fail hex_message l4)
                        else if 0xDC00 \<le> codepoint2 \<and> codepoint2 \<le> 0xDFFF then
                          Inl (add_codepoint (push_bit 10 codepoint1 + codepoint2 - 0x35FDC00) l4)
                        else Inr (lx_fail surrogate_message l4)
         else if 0xDC00 \<le> codepoint1 \<and> codepoint1 \<le> 0xDFFF then Inr (lx_fail lone_low_message l1)
         else Inl (add_codepoint codepoint1 l1))"

text \<open>The switch after a backslash.\<close>

definition scan_escape :: "lexer \<Rightarrow> scan_step" where
  "scan_escape l =
     (let l1 = lx_get l; c = lx_current l1
      in if c = 0x22 then Inl (lx_add 0x22 l1)
         else if c = 0x5C then Inl (lx_add 0x5C l1)
         else if c = 0x2F then Inl (lx_add 0x2F l1)
         else if c = 0x62 then Inl (lx_add 0x08 l1)
         else if c = 0x66 then Inl (lx_add 0x0C l1)
         else if c = 0x6E then Inl (lx_add 0x0A l1)
         else if c = 0x72 then Inl (lx_add 0x0D l1)
         else if c = 0x74 then Inl (lx_add 0x09 l1)
         else if c = 0x75 then scan_unicode_escape l1
         else Inr (lx_fail ''invalid string: forbidden character after backslash'' l1))"

text \<open>The cases of a byte from 0x80 on: the ranges its continuation bytes must fall in
  (\<open>None\<close> is the default case, an ill-formed first byte).\<close>

definition utf8_ranges :: "int \<Rightarrow> (int \<times> int) list option" where
  "utf8_ranges c =
     (if 0xC2 \<le> c \<and> c \<le> 0xDF then Some [(0x80, 0xBF)]
      else if c = 0xE0 then Some [(0xA0, 0xBF), (0x80, 0xBF)]
      else if (0xE1 \<le> c \<and> c \<le> 0xEC) \<or> c = 0xEE \<or> c = 0xEF then Some [(0x80, 0xBF), (0x80, 0xBF)]
      else if c = 0xED then Some [(0x80, 0x9F), (0x80, 0xBF)]
      else if c = 0xF0 then Some [(0x90, 0xBF), (0x80, 0xBF), (0x80, 0xBF)]
      else if 0xF1 \<le> c \<and> c \<le> 0xF3 then Some [(0x80, 0xBF), (0x80, 0xBF), (0x80, 0xBF)]
      else if c = 0xF4 then Some [(0x80, 0x8F), (0x80, 0xBF), (0x80, 0xBF)]
      else None)"

definition scan_utf8 :: "lexer \<Rightarrow> scan_step" where
  "scan_utf8 l =
     (case utf8_ranges (lx_current l) of
        Some ranges \<Rightarrow>
          (let (ok, l1) = next_byte_in_range ranges l
           in if ok then Inl l1 else Inr (Tok_parse_error, l1))
      | None \<Rightarrow> Inr (lx_fail ill_formed l))"

definition scan_string_step :: "lexer \<Rightarrow> scan_step" where
  "scan_string_step l =
     (let l1 = lx_get l; c = lx_current l1
      in if c = eof then Inr (lx_fail ''invalid string: missing closing quote'' l1)
         else if c = 0x22 then Inr (Tok_value_string, l1)
         else if c = 0x5C then scan_escape l1
         else if c \<le> 0x1F then Inr (lx_fail ''invalid string: control character must be escaped'' l1)
         else if c \<le> 0x7F then Inl (lx_add c l1)
         else scan_utf8 l1)"

section \<open>Input left\<close>

text \<open>The bytes a lexer can still read, a byte put back included.\<close>

definition lx_remaining :: "lexer \<Rightarrow> string" where
  "lx_remaining l =
     (if lx_next_unget l \<and> lx_current l \<noteq> eof then [char_of (lx_current l)] else []) @ lx_ia l"

definition lx_left :: "lexer \<Rightarrow> nat" where
  "lx_left l = length (lx_remaining l)"

lemma lx_left_alt:
  "lx_left l = length (lx_ia l) + (if lx_next_unget l \<and> lx_current l \<noteq> eof then 1 else 0)"
  by (simp add: lx_left_def lx_remaining_def)

lemma lx_get_left: "lx_left (lx_get l) \<le> lx_left l"
  by (auto simp: lx_left_alt lx_get_def get_character_def Let_def split: list.splits)

lemma lx_get_left_less: "lx_current (lx_get l) \<noteq> eof \<Longrightarrow> lx_left (lx_get l) < lx_left l"
  by (auto simp: lx_left_alt lx_get_def get_character_def Let_def split: list.splits if_splits)

lemma lx_get_unget_flag [simp]: "\<not> lx_next_unget (lx_get l)"
  by (auto simp: lx_get_def get_character_def Let_def split: list.splits)

lemma lx_unget_left:
  assumes "\<not> lx_next_unget l"
  shows "lx_left (lx_unget l) = (if lx_current l \<noteq> eof then lx_left l + 1 else lx_left l)"
  using assms by (simp add: lx_left_alt lx_unget_def Let_def)

lemma lx_get_unget_left: "lx_left (lx_unget (lx_get l)) \<le> lx_left l"
  using lx_get_left [of l] lx_get_left_less [of l] by (simp add: lx_unget_left) linarith

lemma lx_left_simps [simp]:
  "lx_left (lx_add c l) = lx_left l"
  "lx_left (l\<lparr>lx_error_message := m\<rparr>) = lx_left l"
  "lx_left (lx_reset l) = lx_left l"
  "lx_left (snd (lx_fail m l)) = lx_left l"
  by (simp_all add: lx_left_alt lx_add_def lx_reset_def lx_fail_def)

lemma get_codepoint_loop_left: "lx_left (snd (get_codepoint_loop fs cp l)) \<le> lx_left l"
proof (induction fs arbitrary: cp l)
  case (Cons f fs)
  then show ?case
    using lx_get_left [of l] by (auto simp: Let_def intro: le_trans [OF Cons.IH])
qed simp

lemma get_codepoint_left: "lx_left (snd (get_codepoint l)) \<le> lx_left l"
  unfolding get_codepoint_def by (rule get_codepoint_loop_left)

lemma next_bytes_loop_left: "lx_left (snd (next_bytes_loop rs l)) \<le> lx_left l"
proof (induction rs arbitrary: l)
  case (Cons r rs)
  then show ?case
    using lx_get_left [of l] by (auto simp: Let_def intro: le_trans [OF Cons.IH])
qed simp

lemma add_codepoint_left [simp]: "lx_left (add_codepoint cp l) = lx_left l"
  by (simp add: add_codepoint_def)

text \<open>What a turn of the loop leaves, whichever way it ends.\<close>

definition step_lexer :: "scan_step \<Rightarrow> lexer" where
  "step_lexer r = (case r of Inl l \<Rightarrow> l | Inr r2 \<Rightarrow> snd r2)"

lemma step_lexer_simps [simp]:
  "step_lexer (Inl l) = l" "step_lexer (Inr r2) = snd r2"
  by (simp_all add: step_lexer_def)

lemma scan_unicode_escape_left: "lx_left (step_lexer (scan_unicode_escape l)) \<le> lx_left l"
proof -
  define l1 where "l1 = snd (get_codepoint l)"
  define l3 where "l3 = lx_get (lx_get l1)"
  define l4 where "l4 = snd (get_codepoint l3)"
  have le: "lx_left l1 \<le> lx_left l" "lx_left (lx_get l1) \<le> lx_left l1"
    "lx_left l3 \<le> lx_left (lx_get l1)" "lx_left l4 \<le> lx_left l3"
    by (simp_all add: l1_def l3_def l4_def get_codepoint_left lx_get_left)
  show ?thesis
    using le unfolding scan_unicode_escape_def
    by (auto simp: Let_def case_prod_beta l1_def [symmetric] l3_def [symmetric] l4_def [symmetric])
qed

lemma scan_escape_left: "lx_left (step_lexer (scan_escape l)) \<le> lx_left l"
  using lx_get_left [of l] scan_unicode_escape_left [of "lx_get l"]
  by (auto simp: scan_escape_def Let_def)

lemma scan_utf8_left: "lx_left (step_lexer (scan_utf8 l)) \<le> lx_left l"
  using next_bytes_loop_left [of _ "lx_add (lx_current l) l"]
  by (auto simp: scan_utf8_def next_byte_in_range_def case_prod_beta split: option.splits)

lemma scan_string_step_left:
  "lx_left (step_lexer (scan_string_step l)) \<le> lx_left l"
  "scan_string_step l = Inl l' \<Longrightarrow> lx_left l' < lx_left l"
proof -
  let ?l1 = "lx_get l"
  show "lx_left (step_lexer (scan_string_step l)) \<le> lx_left l"
    using lx_get_left [of l] scan_escape_left [of ?l1] scan_utf8_left [of ?l1]
    by (auto simp: scan_string_step_def Let_def)
  assume step: "scan_string_step l = Inl l'"
  then have "lx_current ?l1 \<noteq> eof"
    by (auto simp: scan_string_step_def Let_def split: if_splits)
  then have "lx_left ?l1 < lx_left l"
    by (rule lx_get_left_less)
  moreover have "lx_left l' \<le> lx_left ?l1"
    using step scan_escape_left [of ?l1] scan_utf8_left [of ?l1]
    by (auto simp: scan_string_step_def Let_def split: if_splits)
  ultimately show "lx_left l' < lx_left l" by simp
qed

section \<open>The scan functions\<close>

function scan_string_loop :: "lexer \<Rightarrow> token_type \<times> lexer" where
  "scan_string_loop l = (case scan_string_step l of Inl l' \<Rightarrow> scan_string_loop l' | Inr r \<Rightarrow> r)"
  by pat_completeness auto
termination
  by (relation "measure lx_left") (auto simp: scan_string_step_left(2))

declare scan_string_loop.simps [simp del]

definition scan_string :: "lexer \<Rightarrow> token_type \<times> lexer" where
  "scan_string l = scan_string_loop (lx_reset l)"

definition is_digit :: "int \<Rightarrow> bool" where
  "is_digit c \<longleftrightarrow> 0x30 \<le> c \<and> c \<le> 0x39"

text \<open>\<open>strtoull\<close> and \<open>strtoll\<close> on the text of an integer: \<open>None\<close> is
  \<open>errno = ERANGE\<close>.\<close>

definition strtoull :: "string \<Rightarrow> 64 word option" where
  "strtoull s = (let n = digits_value s in if n < 2 ^ 64 then Some (word_of_nat n) else None)"

definition strtoll :: "string \<Rightarrow> 64 word option" where
  "strtoll s =
     (let i = (case s of
                 c # r \<Rightarrow> if c = CHR ''-'' then - int (digits_value r) else int (digits_value s)
               | [] \<Rightarrow> 0)
      in if - (2 ^ 63) \<le> i \<and> i < 2 ^ 63 then Some (word_of_int i) else None)"

text \<open>The label \<open>scan_number_done\<close>.\<close>

definition scan_number_done :: "token_type \<Rightarrow> lexer \<Rightarrow> token_type \<times> lexer" where
  "scan_number_done number_type l =
     (let l1 = lx_unget l;
          as_float = (Tok_value_float,
            l1\<lparr>lx_value_float := strtod (lx_decimal_point l1) (lx_token_buffer l1)\<rparr>)
      in if number_type = Tok_value_unsigned then
           (case strtoull (lx_token_buffer l1) of
              Some x \<Rightarrow> (Tok_value_unsigned, l1\<lparr>lx_value_unsigned := x\<rparr>)
            | None \<Rightarrow> as_float)
         else if number_type = Tok_value_integer then
           (case strtoll (lx_token_buffer l1) of
              Some x \<Rightarrow> (Tok_value_integer, l1\<lparr>lx_value_integer := x\<rparr>)
            | None \<Rightarrow> as_float)
         else as_float)"

text \<open>The labels of the state machine, last state first; \<open>t\<close> is \<open>number_type\<close>.\<close>

function scan_number_any2 :: "token_type \<Rightarrow> lexer \<Rightarrow> token_type \<times> lexer" where
  "scan_number_any2 t l =
     (let l1 = lx_get l
      in if is_digit (lx_current l1) then scan_number_any2 t (lx_add (lx_current l1) l1)
         else scan_number_done t l1)"
  by pat_completeness auto
termination
  by (relation "measure (\<lambda>(t, l). lx_left l)")
    (auto simp: is_digit_def eof_def intro!: lx_get_left_less)

definition scan_number_sign :: "token_type \<Rightarrow> lexer \<Rightarrow> token_type \<times> lexer" where
  "scan_number_sign t l =
     (let l1 = lx_get l
      in if is_digit (lx_current l1) then scan_number_any2 t (lx_add (lx_current l1) l1)
         else lx_fail ''invalid number; expected digit after exponent sign'' l1)"

definition scan_number_exponent :: "lexer \<Rightarrow> token_type \<times> lexer" where
  "scan_number_exponent l =
     (let l1 = lx_get l; c = lx_current l1; t = Tok_value_float
      in if c = 0x2B \<or> c = 0x2D then scan_number_sign t (lx_add c l1)
         else if is_digit c then scan_number_any2 t (lx_add c l1)
         else lx_fail (''invalid number; expected '' @ sq @ ''+'' @ sq @ '', '' @ sq @ ''-'' @ sq @
                '', or digit after exponent'') l1)"

function scan_number_decimal2 :: "token_type \<Rightarrow> lexer \<Rightarrow> token_type \<times> lexer" where
  "scan_number_decimal2 t l =
     (let l1 = lx_get l; c = lx_current l1
      in if is_digit c then scan_number_decimal2 t (lx_add c l1)
         else if c = 0x65 \<or> c = 0x45 then scan_number_exponent (lx_add c l1)
         else scan_number_done t l1)"
  by pat_completeness auto
termination
  by (relation "measure (\<lambda>(t, l). lx_left l)")
    (auto simp: is_digit_def eof_def intro!: lx_get_left_less)

definition scan_number_decimal1 :: "lexer \<Rightarrow> token_type \<times> lexer" where
  "scan_number_decimal1 l =
     (let l1 = lx_get l; c = lx_current l1; t = Tok_value_float
      in if is_digit c then scan_number_decimal2 t (lx_add c l1)
         else lx_fail (''invalid number; expected digit after '' @ sq @ ''.'' @ sq) l1)"

function scan_number_any1 :: "token_type \<Rightarrow> lexer \<Rightarrow> token_type \<times> lexer" where
  "scan_number_any1 t l =
     (let l1 = lx_get l; c = lx_current l1
      in if is_digit c then scan_number_any1 t (lx_add c l1)
         else if c = 0x2E then scan_number_decimal1 (lx_add (of_char (lx_decimal_point l1)) l1)
         else if c = 0x65 \<or> c = 0x45 then scan_number_exponent (lx_add c l1)
         else scan_number_done t l1)"
  by pat_completeness auto
termination
  by (relation "measure (\<lambda>(t, l). lx_left l)")
    (auto simp: is_digit_def eof_def intro!: lx_get_left_less)

declare scan_number_any2.simps [simp del] scan_number_decimal2.simps [simp del]
  scan_number_any1.simps [simp del]

definition scan_number_zero :: "token_type \<Rightarrow> lexer \<Rightarrow> token_type \<times> lexer" where
  "scan_number_zero t l =
     (let l1 = lx_get l; c = lx_current l1
      in if c = 0x2E then scan_number_decimal1 (lx_add (of_char (lx_decimal_point l1)) l1)
         else if c = 0x65 \<or> c = 0x45 then scan_number_exponent (lx_add c l1)
         else scan_number_done t l1)"

definition scan_number_minus :: "lexer \<Rightarrow> token_type \<times> lexer" where
  "scan_number_minus l =
     (let l1 = lx_get l; c = lx_current l1; t = Tok_value_integer
      in if c = 0x30 then scan_number_zero t (lx_add c l1)
         else if 0x31 \<le> c \<and> c \<le> 0x39 then scan_number_any1 t (lx_add c l1)
         else lx_fail (''invalid number; expected digit after '' @ sq @ ''-'' @ sq) l1)"

text \<open>The callers pass only a minus sign or a digit as the current character.\<close>

definition scan_number :: "lexer \<Rightarrow> token_type \<times> lexer" where
  "scan_number l =
     (let l1 = lx_reset l; c = lx_current l1; t = Tok_value_unsigned
      in if c = 0x2D then scan_number_minus (lx_add c l1)
         else if c = 0x30 then scan_number_zero t (lx_add c l1)
         else scan_number_any1 t (lx_add c l1))"

fun scan_literal_loop :: "string \<Rightarrow> token_type \<Rightarrow> lexer \<Rightarrow> token_type \<times> lexer" where
  "scan_literal_loop [] return_type l = (return_type, l)"
| "scan_literal_loop (x # xs) return_type l =
     (let l1 = lx_get l
      in if lx_current l1 \<noteq> of_char x then lx_fail ''invalid literal'' l1
         else scan_literal_loop xs return_type l1)"

text \<open>\<open>scan_literal\<close>: the first character has been read by the caller.\<close>

definition scan_literal :: "string \<Rightarrow> token_type \<Rightarrow> lexer \<Rightarrow> token_type \<times> lexer" where
  "scan_literal literal_text return_type l = scan_literal_loop (tl literal_text) return_type l"

definition skip_bom :: "lexer \<Rightarrow> bool \<times> lexer" where
  "skip_bom l =
     (let l1 = lx_get l
      in if lx_current l1 = 0xEF then
           let l2 = lx_get l1
           in if lx_current l2 = 0xBB then
                let l3 = lx_get l2 in (lx_current l3 = 0xBF, l3)
              else (False, l2)
         else (True, lx_unget l1))"

function skip_whitespace :: "lexer \<Rightarrow> lexer" where
  "skip_whitespace l =
     (let l1 = lx_get l; c = lx_current l1
      in if c = 0x20 \<or> c = 0x09 \<or> c = 0x0A \<or> c = 0x0D then skip_whitespace l1 else l1)"
  by pat_completeness auto
termination
  by (relation "measure lx_left") (auto simp: eof_def intro!: lx_get_left_less)

declare skip_whitespace.simps [simp del]

text \<open>The switch of \<open>scan\<close> on the first character of a token.\<close>

definition scan_token :: "lexer \<Rightarrow> token_type \<times> lexer" where
  "scan_token l =
     (let c = lx_current l
      in if c = 0x5B then (Tok_begin_array, l)
         else if c = 0x5D then (Tok_end_array, l)
         else if c = 0x7B then (Tok_begin_object, l)
         else if c = 0x7D then (Tok_end_object, l)
         else if c = 0x3A then (Tok_name_separator, l)
         else if c = 0x2C then (Tok_value_separator, l)
         else if c = 0x74 then scan_literal ''true'' Tok_literal_true l
         else if c = 0x66 then scan_literal ''false'' Tok_literal_false l
         else if c = 0x6E then scan_literal ''null'' Tok_literal_null l
         else if c = 0x22 then scan_string l
         else if c = 0x2D \<or> is_digit c then scan_number l
         else if c = 0 \<or> c = eof then (Tok_end_of_input, l)
         else lx_fail ''invalid literal'' l)"

definition scan :: "lexer \<Rightarrow> token_type \<times> lexer" where
  "scan l =
     (let (bom_ok, l1) = (if lx_chars_read l = 0 then skip_bom l else (True, l))
      in if \<not> bom_ok then lx_fail ''invalid BOM; must be 0xEF 0xBB 0xBF if given'' l1
         else scan_token (skip_whitespace l1))"

section \<open>Scanning consumes input\<close>

lemma scan_string_loop_left: "lx_left (snd (scan_string_loop l)) \<le> lx_left l"
proof (induction l rule: scan_string_loop.induct)
  case (1 l)
  show ?case
  proof (cases "scan_string_step l")
    case (Inl l')
    with "1.IH" have "lx_left (snd (scan_string_loop l')) \<le> lx_left l'"
      by simp
    with Inl scan_string_step_left(2) [OF Inl] show ?thesis
      by (simp add: scan_string_loop.simps [of l])
  next
    case (Inr r)
    with scan_string_step_left(1) [of l] show ?thesis
      by (simp add: scan_string_loop.simps [of l])
  qed
qed

lemma scan_string_left: "lx_left (snd (scan_string l)) \<le> lx_left l"
  using scan_string_loop_left [of "lx_reset l"] by (simp add: scan_string_def)

text \<open>Every state of the number machine gets a character first; what follows leaves at most
  what was there before that.\<close>

lemma scan_number_done_left: "lx_left (snd (scan_number_done t (lx_get l))) \<le> lx_left l"
  using lx_get_unget_left [of l]
  by (auto simp: scan_number_done_def Let_def lx_left_alt split: option.splits)

lemma scan_number_any2_left: "lx_left (snd (scan_number_any2 t l)) \<le> lx_left l"
proof (induction t l rule: scan_number_any2.induct)
  case (1 t l)
  then show ?case
    using lx_get_left [of l] scan_number_done_left [of t l]
    by (subst scan_number_any2.simps) (auto simp: Let_def intro: le_trans)
qed

lemma scan_number_sign_left: "lx_left (snd (scan_number_sign t l)) \<le> lx_left l"
  using lx_get_left [of l] scan_number_any2_left [of t "lx_add (lx_current (lx_get l)) (lx_get l)"]
  by (auto simp: scan_number_sign_def Let_def)

lemma scan_number_exponent_left: "lx_left (snd (scan_number_exponent l)) \<le> lx_left l"
  using lx_get_left [of l]
    scan_number_any2_left [of Tok_value_float "lx_add (lx_current (lx_get l)) (lx_get l)"]
    scan_number_sign_left [of Tok_value_float "lx_add (lx_current (lx_get l)) (lx_get l)"]
  by (auto simp: scan_number_exponent_def Let_def)

lemma scan_number_decimal2_left: "lx_left (snd (scan_number_decimal2 t l)) \<le> lx_left l"
proof (induction t l rule: scan_number_decimal2.induct)
  case (1 t l)
  let ?l1 = "lx_get l"
  let ?l2 = "lx_add (lx_current ?l1) ?l1"
  have "is_digit (lx_current ?l1) \<Longrightarrow> lx_left (snd (scan_number_decimal2 t ?l2)) \<le> lx_left l"
    using "1.IH" [OF refl refl] lx_get_left [of l] by simp
  then show ?case
    using lx_get_left [of l] scan_number_done_left [of t l] scan_number_exponent_left [of ?l2]
    by (auto simp: scan_number_decimal2.simps [of t l] Let_def)
qed

lemma scan_number_decimal1_left: "lx_left (snd (scan_number_decimal1 l)) \<le> lx_left l"
  using lx_get_left [of l]
    scan_number_decimal2_left [of Tok_value_float "lx_add (lx_current (lx_get l)) (lx_get l)"]
  by (auto simp: scan_number_decimal1_def Let_def)

lemma scan_number_any1_left: "lx_left (snd (scan_number_any1 t l)) \<le> lx_left l"
proof (induction t l rule: scan_number_any1.induct)
  case (1 t l)
  let ?l1 = "lx_get l"
  have "lx_left (snd (scan_number_decimal1 (lx_add d ?l1))) \<le> lx_left l"
    and "lx_left (snd (scan_number_exponent (lx_add d ?l1))) \<le> lx_left l" for d
    using scan_number_decimal1_left [of "lx_add d ?l1"] scan_number_exponent_left [of "lx_add d ?l1"]
      lx_get_left [of l] by auto
  moreover have "is_digit (lx_current ?l1) \<Longrightarrow>
      lx_left (snd (scan_number_any1 t (lx_add (lx_current ?l1) ?l1))) \<le> lx_left l"
    using "1.IH" [OF refl refl] lx_get_left [of l] by simp
  ultimately show ?case
    using scan_number_done_left [of t l] by (auto simp: scan_number_any1.simps [of t l] Let_def)
qed

lemma scan_number_zero_left: "lx_left (snd (scan_number_zero t l)) \<le> lx_left l"
proof -
  let ?l1 = "lx_get l"
  have "lx_left (snd (scan_number_decimal1 (lx_add d ?l1))) \<le> lx_left l"
    and "lx_left (snd (scan_number_exponent (lx_add d ?l1))) \<le> lx_left l" for d
    using scan_number_decimal1_left [of "lx_add d ?l1"] scan_number_exponent_left [of "lx_add d ?l1"]
      lx_get_left [of l] by auto
  then show ?thesis
    using scan_number_done_left [of t l] by (auto simp: scan_number_zero_def Let_def)
qed

lemma lx_current_reset [simp]: "lx_current (lx_reset l) = lx_current l"
  by (simp add: lx_reset_def)

lemma scan_number_left: "lx_left (snd (scan_number l)) \<le> lx_left l"
proof -
  have minus: "lx_left (snd (scan_number_minus k)) \<le> lx_left k" for k
    using scan_number_zero_left [of Tok_value_integer "lx_add (lx_current (lx_get k)) (lx_get k)"]
      scan_number_any1_left [of Tok_value_integer "lx_add (lx_current (lx_get k)) (lx_get k)"]
      lx_get_left [of k]
    by (auto simp: scan_number_minus_def Let_def)
  show ?thesis
    using minus [of "lx_add 0x2D (lx_reset l)"]
      scan_number_zero_left [of Tok_value_unsigned "lx_add 0x30 (lx_reset l)"]
      scan_number_any1_left [of Tok_value_unsigned "lx_add (lx_current l) (lx_reset l)"]
    by (auto simp: scan_number_def Let_def)
qed

lemma scan_literal_loop_left: "lx_left (snd (scan_literal_loop xs t l)) \<le> lx_left l"
proof (induction xs arbitrary: l)
  case (Cons x xs)
  then show ?case
    using lx_get_left [of l] by (auto simp: Let_def intro: le_trans [OF Cons.IH])
qed simp

lemma skip_bom_left: "lx_left (snd (skip_bom l)) \<le> lx_left l"
  using lx_get_left [of l] lx_get_left [of "lx_get l"] lx_get_left [of "lx_get (lx_get l)"]
    lx_get_unget_left [of l]
  by (auto simp: skip_bom_def Let_def)

lemma skip_whitespace_left:
  "lx_left (skip_whitespace l) \<le> lx_left l \<and>
   (lx_current (skip_whitespace l) \<noteq> eof \<longrightarrow> lx_left (skip_whitespace l) < lx_left l)"
proof (induction l rule: skip_whitespace.induct)
  case (1 l)
  let ?c = "lx_current (lx_get l)"
  show ?case
  proof (cases "?c = 0x20 \<or> ?c = 0x09 \<or> ?c = 0x0A \<or> ?c = 0x0D")
    case True
    then have "skip_whitespace l = skip_whitespace (lx_get l)" and "?c \<noteq> eof"
      by (auto simp: skip_whitespace.simps [of l] Let_def eof_def)
    then show ?thesis
      using "1.IH" [OF refl refl True] lx_get_left_less [of l] by auto
  next
    case False
    then have "skip_whitespace l = lx_get l"
      by (simp add: skip_whitespace.simps [of l] Let_def)
    then show ?thesis
      using lx_get_left [of l] lx_get_left_less [of l] by simp
  qed
qed

lemma scan_literal_left: "lx_left (snd (scan_literal s t l)) \<le> lx_left l"
  unfolding scan_literal_def by (rule scan_literal_loop_left)

lemma scan_token_left: "lx_left (snd (scan_token l)) \<le> lx_left l"
  unfolding scan_token_def Let_def
  by (simp add: scan_literal_left scan_string_left scan_number_left)

text \<open>The tokens that end a parse.\<close>

definition stop_token :: "token_type \<Rightarrow> bool" where
  "stop_token t \<longleftrightarrow> t = Tok_parse_error \<or> t = Tok_end_of_input"

lemma scan_left:
  "lx_left (snd (scan l)) \<le> lx_left l"
  "\<not> stop_token (fst (scan l)) \<Longrightarrow> lx_left (snd (scan l)) < lx_left l"
proof -
  let ?l1 = "if lx_chars_read l = 0 then snd (skip_bom l) else l"
  let ?l2 = "skip_whitespace ?l1"
  have le1: "lx_left ?l1 \<le> lx_left l"
    using skip_bom_left [of l] by simp
  have le2: "lx_left (snd (scan_token ?l2)) \<le> lx_left ?l2" "lx_left ?l2 \<le> lx_left ?l1"
    using scan_token_left skip_whitespace_left by auto
  have cases: "scan l = scan_token ?l2 \<or> fst (scan l) = Tok_parse_error \<and> lx_left (snd (scan l)) = lx_left ?l1"
    by (auto simp: scan_def Let_def case_prod_beta lx_fail_def)
  with le1 le2 show "lx_left (snd (scan l)) \<le> lx_left l"
    by auto
  assume go: "\<not> stop_token (fst (scan l))"
  with cases have sc: "scan l = scan_token ?l2"
    by (auto simp: stop_token_def)
  with go have "lx_current ?l2 \<noteq> eof"
    by (auto simp: scan_token_def stop_token_def eof_def is_digit_def)
  then have "lx_left ?l2 < lx_left ?l1"
    using skip_whitespace_left by blast
  with le1 le2 sc show "lx_left (snd (scan l)) < lx_left l"
    by simp
qed

end
