(* ===== verification/Json_Parser.thy ===== *)
theory Json_Parser
  imports Json_Lexer
begin

text \<open>
  The parser of \<open>json/json.hpp\<close>: \<open>json_sax_dom_parser\<close>, which builds the value
  from the events, and \<open>parser::sax_parse_internal\<close>, the loop over tokens with its
  stack of open arrays and objects. A pointer into the value under construction
  (\<open>ref_stack\<close>, \<open>object_element\<close>) is a path from the root; writing through it
  updates the value at that path. The services call \<open>json::parse\<close> with exceptions
  on and no callback, so the handler's events always return true except
  \<open>parse_error\<close>, which throws.
\<close>

section \<open>Paths\<close>

datatype step = Idx nat | Key string

type_synonym path = "step list"

fun get_at :: "json \<Rightarrow> path \<Rightarrow> json option" where
  "get_at j [] = Some j"
| "get_at (Json_Array xs) (Idx i # p) = (if i < length xs then get_at (xs ! i) p else None)"
| "get_at (Json_Object m) (Key k # p) =
     (case map_find m k of Some v \<Rightarrow> get_at v p | None \<Rightarrow> None)"
| "get_at _ _ = None"

fun update_at :: "(json \<Rightarrow> json) \<Rightarrow> json \<Rightarrow> path \<Rightarrow> json" where
  "update_at f j [] = f j"
| "update_at f (Json_Array xs) (Idx i # p) =
     (if i < length xs then Json_Array (xs[i := update_at f (xs ! i) p]) else Json_Array xs)"
| "update_at f (Json_Object m) (Key k # p) =
     (case map_find m k of
        Some v \<Rightarrow> Json_Object (map_assign m k (update_at f v p))
      | None \<Rightarrow> Json_Object m)"
| "update_at f j _ = j"

section \<open>The DOM handler\<close>

text \<open>\<open>dom_refs\<close> is \<open>ref_stack\<close> with its back first.\<close>

record dom =
  dom_root :: json
  dom_refs :: "path list"
  dom_element :: "path option"

definition dom_new :: "json \<Rightarrow> dom" where
  "dom_new r = \<lparr>dom_root = r, dom_refs = [], dom_element = None\<rparr>"

text \<open>\<open>handle_value\<close> returns the place of the new value. With an object on top of the
  stack the value goes to \<open>object_element\<close>, which the code asserts to be set.\<close>

definition handle_value :: "json \<Rightarrow> dom \<Rightarrow> path \<times> dom" where
  "handle_value v d =
     (case dom_refs d of
        [] \<Rightarrow> ([], d\<lparr>dom_root := v\<rparr>)
      | r # _ \<Rightarrow>
          (case get_at (dom_root d) r of
             Some (Json_Array xs) \<Rightarrow>
               (r @ [Idx (length xs)],
                d\<lparr>dom_root := update_at (\<lambda>_. Json_Array (xs @ [v])) (dom_root d) r\<rparr>)
           | _ \<Rightarrow>
               (case dom_element d of
                  Some e \<Rightarrow> (e, d\<lparr>dom_root := update_at (\<lambda>_. v) (dom_root d) e\<rparr>)
                | None \<Rightarrow> (r, d))))"

definition dom_value :: "json \<Rightarrow> dom \<Rightarrow> dom" where
  "dom_value v d = snd (handle_value v d)"

definition dom_start_object :: "dom \<Rightarrow> dom" where
  "dom_start_object d = (let (p, d1) = handle_value (Json_Object []) d in d1\<lparr>dom_refs := p # dom_refs d1\<rparr>)"

definition dom_start_array :: "dom \<Rightarrow> dom" where
  "dom_start_array d = (let (p, d1) = handle_value (Json_Array []) d in d1\<lparr>dom_refs := p # dom_refs d1\<rparr>)"

text \<open>\<open>key\<close>: \<open>operator[]\<close> inserts a null for a new key; the pointer is kept.\<close>

definition insert_null :: "string \<Rightarrow> json \<Rightarrow> json" where
  "insert_null k j =
     (case j of
        Json_Object m \<Rightarrow>
          (case map_find m k of
             None \<Rightarrow> Json_Object (map_assign m k Json_Null)
           | Some v \<Rightarrow> Json_Object m)
      | _ \<Rightarrow> j)"

definition dom_key :: "string \<Rightarrow> dom \<Rightarrow> dom" where
  "dom_key k d =
     (case dom_refs d of
        [] \<Rightarrow> d
      | r # _ \<Rightarrow> d\<lparr>dom_root := update_at (insert_null k) (dom_root d) r, dom_element := Some (r @ [Key k])\<rparr>)"

definition dom_end :: "dom \<Rightarrow> dom" where
  "dom_end d = d\<lparr>dom_refs := tl (dom_refs d)\<rparr>"

section \<open>The parser\<close>

record parser =
  ps_last_token :: token_type
  ps_lexer :: lexer

definition get_token :: "parser \<Rightarrow> parser" where
  "get_token p = (let (t, l) = scan (ps_lexer p) in \<lparr>ps_last_token = t, ps_lexer = l\<rparr>)"

text \<open>The constructor reads the first token.\<close>

definition parser_new :: "char \<Rightarrow> string \<Rightarrow> parser" where
  "parser_new point input = get_token \<lparr>ps_last_token = Tok_uninitialized, ps_lexer = lexer_new point input\<rparr>"

definition exception_message :: "token_type \<Rightarrow> parser \<Rightarrow> string" where
  "exception_message expected p =
     ''syntax error - '' @
     (if ps_last_token p = Tok_parse_error
      then lx_error_message (ps_lexer p) @ ''; last read: '' @ sq @ get_token_string (ps_lexer p) @ sq
      else ''unexpected '' @ token_type_name (ps_last_token p)) @
     (if expected \<noteq> Tok_uninitialized then ''; expected '' @ token_type_name expected else [])"

definition syntax_error :: "token_type \<Rightarrow> parser \<Rightarrow> exn" where
  "syntax_error expected p =
     parse_error_create 101 (lx_chars_read (ps_lexer p)) (exception_message expected p)"

text \<open>
  A turn of the loop throws, returns, or goes on (\<open>Continue\<close> carries
  \<open>skip_to_state_evaluation\<close>). The stack \<open>states\<close> holds true for an open array and
  false for an open object, its back first.
\<close>

datatype loop_next =
    Throw exn
  | Continue bool "bool list" parser dom
  | Return parser dom

text \<open>The switch on the last token; \<open>Inr\<close> is its \<open>break\<close>: a value has been read.\<close>

definition parse_object_start :: "bool list \<Rightarrow> parser \<Rightarrow> dom \<Rightarrow> loop_next + parser \<times> dom" where
  "parse_object_start states p d =
     (let d1 = dom_start_object d; p1 = get_token p
      in if ps_last_token p1 = Tok_end_object then Inr (p1, dom_end d1)
         else if ps_last_token p1 \<noteq> Tok_value_string then Inl (Throw (syntax_error Tok_value_string p1))
         else
           let d2 = dom_key (lx_token_buffer (ps_lexer p1)) d1; p2 = get_token p1
           in if ps_last_token p2 \<noteq> Tok_name_separator
              then Inl (Throw (syntax_error Tok_name_separator p2))
              else Inl (Continue False (False # states) (get_token p2) d2))"

definition parse_array_start :: "bool list \<Rightarrow> parser \<Rightarrow> dom \<Rightarrow> loop_next + parser \<times> dom" where
  "parse_array_start states p d =
     (let d1 = dom_start_array d; p1 = get_token p
      in if ps_last_token p1 = Tok_end_array then Inr (p1, dom_end d1)
         else Inl (Continue False (True # states) p1 d1))"

definition parse_value :: "bool list \<Rightarrow> parser \<Rightarrow> dom \<Rightarrow> loop_next + parser \<times> dom" where
  "parse_value states p d =
     (let l = ps_lexer p
      in case ps_last_token p of
           Tok_begin_object \<Rightarrow> parse_object_start states p d
         | Tok_begin_array \<Rightarrow> parse_array_start states p d
         | Tok_value_float \<Rightarrow>
             if \<not> isfinite (lx_value_float l)
             then Inl (Throw (out_of_range_create 406
                    (''number overflow parsing '' @ sq @ get_token_string l @ sq)))
             else Inr (p, dom_value (Json_Float (lx_value_float l)) d)
         | Tok_literal_false \<Rightarrow> Inr (p, dom_value (Json_Boolean False) d)
         | Tok_literal_null \<Rightarrow> Inr (p, dom_value Json_Null d)
         | Tok_literal_true \<Rightarrow> Inr (p, dom_value (Json_Boolean True) d)
         | Tok_value_integer \<Rightarrow> Inr (p, dom_value (Json_Integer (lx_value_integer l)) d)
         | Tok_value_string \<Rightarrow> Inr (p, dom_value (Json_String (lx_token_buffer l)) d)
         | Tok_value_unsigned \<Rightarrow> Inr (p, dom_value (Json_Unsigned (lx_value_unsigned l)) d)
         | Tok_parse_error \<Rightarrow> Inl (Throw (syntax_error Tok_uninitialized p))
         | _ \<Rightarrow> Inl (Throw (syntax_error Tok_literal_or_value p)))"

text \<open>The evaluation of the state after a value.\<close>

definition parse_state :: "bool list \<Rightarrow> parser \<Rightarrow> dom \<Rightarrow> loop_next" where
  "parse_state states p d =
     (case states of
        [] \<Rightarrow> Return p d
      | in_array # rest \<Rightarrow>
          (let p1 = get_token p
           in if in_array then
                if ps_last_token p1 = Tok_value_separator then Continue False states (get_token p1) d
                else if ps_last_token p1 = Tok_end_array then Continue True rest p1 (dom_end d)
                else Throw (syntax_error Tok_end_array p1)
              else
                if ps_last_token p1 = Tok_value_separator then
                  let p2 = get_token p1
                  in if ps_last_token p2 \<noteq> Tok_value_string then Throw (syntax_error Tok_value_string p2)
                     else
                       let d2 = dom_key (lx_token_buffer (ps_lexer p2)) d; p3 = get_token p2
                       in if ps_last_token p3 \<noteq> Tok_name_separator
                          then Throw (syntax_error Tok_name_separator p3)
                          else Continue False states (get_token p3) d2
                else if ps_last_token p1 = Tok_end_object then Continue True rest p1 (dom_end d)
                else Throw (syntax_error Tok_end_object p1)))"

definition parse_turn :: "bool \<Rightarrow> bool list \<Rightarrow> parser \<Rightarrow> dom \<Rightarrow> loop_next" where
  "parse_turn skip states p d =
     (if skip then parse_state states p d
      else case parse_value states p d of
             Inl r \<Rightarrow> r
           | Inr pd \<Rightarrow> parse_state states (fst pd) (snd pd))"

text \<open>Every turn that goes on has read a token that is not the last one, or has moved to a
  last one, on which the next turn ends.\<close>

definition parse_measure :: "parser \<Rightarrow> nat" where
  "parse_measure p = 2 * lx_left (ps_lexer p) + (if stop_token (ps_last_token p) then 0 else 1)"

lemma get_token_left:
  "lx_left (ps_lexer (get_token p)) \<le> lx_left (ps_lexer p)"
  "\<not> stop_token (ps_last_token (get_token p)) \<Longrightarrow> lx_left (ps_lexer (get_token p)) < lx_left (ps_lexer p)"
  using scan_left [of "ps_lexer p"] by (simp_all add: get_token_def case_prod_beta)

lemma get_token_measure:
  assumes "\<not> stop_token (ps_last_token p)"
  shows "parse_measure (get_token p) < parse_measure p"
  using assms get_token_left [of p] by (auto simp: parse_measure_def)

lemma get_token_measure_le: "parse_measure (get_token p) \<le> 2 * lx_left (ps_lexer p)"
proof (cases "stop_token (ps_last_token (get_token p))")
  case True
  then show ?thesis
    using get_token_left(1) [of p] by (simp add: parse_measure_def)
next
  case False
  then show ?thesis
    using get_token_left(2) [OF False] by (simp add: parse_measure_def)
qed

lemma parse_state_measure:
  assumes "parse_state states p d = Continue s' st' p' d'"
  shows "parse_measure p' < 2 * lx_left (ps_lexer p)"
proof -
  let ?p1 = "get_token p"
  let ?p2 = "get_token ?p1"
  let ?p3 = "get_token ?p2"
  have go: "\<not> stop_token (ps_last_token ?p1)"
    using assms by (auto simp: parse_state_def stop_token_def Let_def split: list.splits if_splits)
  have l1: "lx_left (ps_lexer ?p1) < lx_left (ps_lexer p)"
    using get_token_left(2) [OF go] .
  have "p' = ?p1 \<or> p' = ?p2 \<or> p' = get_token ?p3"
    using assms by (auto simp: parse_state_def Let_def split: list.splits if_splits)
  moreover have "parse_measure ?p2 \<le> 2 * lx_left (ps_lexer ?p1)"
    "parse_measure (get_token ?p3) \<le> 2 * lx_left (ps_lexer ?p3)"
    "lx_left (ps_lexer ?p3) \<le> lx_left (ps_lexer ?p2)" "lx_left (ps_lexer ?p2) \<le> lx_left (ps_lexer ?p1)"
    by (simp_all add: get_token_measure_le get_token_left(1))
  moreover have "parse_measure ?p1 = 2 * lx_left (ps_lexer ?p1) + 1"
    using go by (simp add: parse_measure_def)
  ultimately show ?thesis
    using l1 by auto
qed

lemma parse_turn_measure:
  assumes "parse_turn skip states p d = Continue s' st' p' d'"
  shows "parse_measure p' < parse_measure p"
proof (cases skip)
  case True
  with assms parse_state_measure show ?thesis
    by (fastforce simp: parse_turn_def parse_measure_def)
next
  case False
  show ?thesis
  proof (cases "parse_value states p d")
    case (Inl r)
    with assms False have r: "parse_value states p d = Inl (Continue s' st' p' d')"
      by (simp add: parse_turn_def)
    then have go: "\<not> stop_token (ps_last_token p)"
      by (auto simp: parse_value_def stop_token_def Let_def split: token_type.splits)
    let ?p1 = "get_token p"
    have "p' = ?p1 \<or> p' = get_token (get_token ?p1)"
      using r by (auto simp: parse_value_def parse_object_start_def parse_array_start_def Let_def
          split: token_type.splits if_splits)
    moreover have "parse_measure (get_token (get_token ?p1)) \<le> parse_measure ?p1"
      using get_token_measure_le [of "get_token ?p1"] get_token_left(1) [of ?p1]
      by (simp add: parse_measure_def)
    ultimately show ?thesis
      using get_token_measure [OF go] by auto
  next
    case (Inr pd)
    then have "lx_left (ps_lexer (fst pd)) \<le> lx_left (ps_lexer p)"
      using get_token_left(1) [of p]
      by (auto simp: parse_value_def parse_object_start_def parse_array_start_def Let_def
          split: token_type.splits if_splits)
    moreover have "parse_state states (fst pd) (snd pd) = Continue s' st' p' d'"
      using assms False Inr by (simp add: parse_turn_def)
    ultimately show ?thesis
      using parse_state_measure by (fastforce simp: parse_measure_def)
  qed
qed

function sax_parse_internal :: "bool \<Rightarrow> bool list \<Rightarrow> parser \<Rightarrow> dom \<Rightarrow> (parser \<times> dom) result" where
  "sax_parse_internal skip states p d =
     (case parse_turn skip states p d of
        Throw e \<Rightarrow> Inl e
      | Return p' d' \<Rightarrow> Inr (p', d')
      | Continue skip' states' p' d' \<Rightarrow> sax_parse_internal skip' states' p' d')"
  by pat_completeness auto
termination
  by (relation "measure (\<lambda>(skip, states, p, d). parse_measure p)") (auto simp: parse_turn_measure)

declare sax_parse_internal.simps [simp del]

text \<open>\<open>parser::parse\<close> in strict mode and \<open>basic_json::parse\<close>.\<close>

definition json_parse :: "char \<Rightarrow> string \<Rightarrow> json result" where
  "json_parse point input =
     (case sax_parse_internal False [] (parser_new point input) (dom_new Json_Null) of
        Inl e \<Rightarrow> Inl e
      | Inr pd \<Rightarrow>
          let p1 = get_token (fst pd)
          in if ps_last_token p1 \<noteq> Tok_end_of_input then Inl (syntax_error Tok_end_of_input p1)
             else Inr (dom_root (snd pd)))"

end
