(* ===== verification/Grisu2.thy ===== *)
theory Grisu2
  imports Json_Value "HOL-Library.Signed_Division"
begin

text \<open>
  How the serializer prints a double (\<open>json/json.hpp\<close>, namespace \<open>dtoa_impl\<close> and
  \<open>to_chars\<close>): the algorithm Grisu2 on 64-bit words. The double is its significand and
  exponent; its boundaries are scaled by a power of ten from a table, and the digits of the
  upper boundary are cut off as soon as they denote a number between the boundaries. The
  theories \<open>Grisu2_Scaling\<close>, \<open>Grisu2_Digits\<close> and \<open>Grisu2_Text\<close> prove that
  the text denotes a number that rounds to the double again.
\<close>

unbundle bit_operations_syntax

section \<open>Binary significands\<close>

text \<open>\<open>struct diyfp\<close>: the number \<open>f * 2 ^ e\<close>.\<close>

record diyfp =
  df_f :: "64 word"
  df_e :: int

definition diyfp_sub :: "diyfp \<Rightarrow> diyfp \<Rightarrow> diyfp" where
  "diyfp_sub x y = \<lparr>df_f = df_f x - df_f y, df_e = df_e x\<rparr>"

text \<open>The upper half of the product, rounded, from four products of 32-bit halves.\<close>

definition diyfp_mul :: "diyfp \<Rightarrow> diyfp \<Rightarrow> diyfp" where
  "diyfp_mul x y =
     (let u_lo = df_f x AND 0xFFFFFFFF; u_hi = drop_bit 32 (df_f x);
          v_lo = df_f y AND 0xFFFFFFFF; v_hi = drop_bit 32 (df_f y);
          p0 = u_lo * v_lo; p1 = u_lo * v_hi; p2 = u_hi * v_lo; p3 = u_hi * v_hi;
          p0_hi = drop_bit 32 p0;
          p1_lo = p1 AND 0xFFFFFFFF; p1_hi = drop_bit 32 p1;
          p2_lo = p2 AND 0xFFFFFFFF; p2_hi = drop_bit 32 p2;
          Q = p0_hi + p1_lo + p2_lo;
          Q' = Q + push_bit (64 - 32 - 1) 1;
          h = p3 + p2_hi + p1_hi + drop_bit 32 Q'
      in \<lparr>df_f = h, df_e = df_e x + df_e y + 64\<rparr>)"

text \<open>The loop of \<open>normalize\<close>, for which the code asserts that the significand is not 0.\<close>

function normalize_loop :: "64 word \<Rightarrow> int \<Rightarrow> 64 word \<times> int" where
  "normalize_loop f e =
     (if drop_bit 63 f = 0 \<and> f \<noteq> 0 then normalize_loop (push_bit 1 f) (e - 1) else (f, e))"
  by pat_completeness auto
termination
proof (relation "measure (\<lambda>(f, e). 2 ^ 64 - unat f)", goal_cases)
  case (2 f e)
  have "unat f < 2 ^ 63"
    using 2 by (metis div_eq_0_iff drop_bit_eq_div unat_drop_bit_eq unat_0 zero_neq_numeral power_not_zero)
  moreover have "0 < unat f" using 2 by (simp add: unat_gt_0)
  moreover have "unat (push_bit 1 f) = 2 * unat f"
    using calculation(1) by (simp add: push_bit_eq_mult unat_mult_lem [THEN iffD1])
  ultimately show ?case by simp
qed simp

declare normalize_loop.simps [simp del]

definition diyfp_normalize :: "diyfp \<Rightarrow> diyfp" where
  "diyfp_normalize x = (let (f, e) = normalize_loop (df_f x) (df_e x) in \<lparr>df_f = f, df_e = e\<rparr>)"

definition diyfp_normalize_to :: "diyfp \<Rightarrow> int \<Rightarrow> diyfp" where
  "diyfp_normalize_to x target_exponent =
     \<lparr>df_f = push_bit (nat (df_e x - target_exponent)) (df_f x), df_e = target_exponent\<rparr>"

record boundaries =
  bd_w :: diyfp
  bd_minus :: diyfp
  bd_plus :: diyfp

text \<open>The bits of a finite double that is not negative: the biased exponent above the
  fraction without the hidden bit; a significand below \<open>2 ^ 52\<close> is subnormal and its
  exponent field is 0.\<close>

definition kPrecision :: nat where "kPrecision = 53"
definition kBias :: int where "kBias = 1024 - 1 + (int kPrecision - 1)"
definition kMinExp :: int where "kMinExp = 1 - kBias"
definition kHiddenBit :: "64 word" where "kHiddenBit = push_bit (kPrecision - 1) 1"

definition reinterpret_bits :: "nat \<Rightarrow> int \<Rightarrow> 64 word" where
  "reinterpret_bits m e =
     (if m < 2 ^ 52 then of_nat m else push_bit 52 (of_int (e + kBias)) + of_nat (m - 2 ^ 52))"

definition compute_boundaries :: "nat \<Rightarrow> int \<Rightarrow> boundaries" where
  "compute_boundaries m e =
     (let bits = reinterpret_bits m e;
          E = drop_bit (kPrecision - 1) bits; F = bits AND (kHiddenBit - 1);
          is_denormal = (E = 0);
          v = (if is_denormal then \<lparr>df_f = F, df_e = kMinExp\<rparr>
               else \<lparr>df_f = F + kHiddenBit, df_e = sint (ucast E :: 32 word) - kBias\<rparr>);
          lower_boundary_is_closer = (F = 0 \<and> E > 1);
          m_plus = \<lparr>df_f = 2 * df_f v + 1, df_e = df_e v - 1\<rparr>;
          m_minus = (if lower_boundary_is_closer then \<lparr>df_f = 4 * df_f v - 1, df_e = df_e v - 2\<rparr>
                     else \<lparr>df_f = 2 * df_f v - 1, df_e = df_e v - 1\<rparr>);
          w_plus = diyfp_normalize m_plus;
          w_minus = diyfp_normalize_to m_minus (df_e w_plus)
      in \<lparr>bd_w = diyfp_normalize v, bd_minus = w_minus, bd_plus = w_plus\<rparr>)"

section \<open>Cached powers\<close>

definition kAlpha :: int where "kAlpha = - 60"
definition kGamma :: int where "kGamma = - 32"

text \<open>\<open>struct cached_power\<close>: \<open>f\<close>, \<open>e\<close> and \<open>k\<close> with \<open>f * 2 ^ e\<close> close to \<open>10 ^ k\<close>.\<close>

type_synonym cached_power = "64 word \<times> int \<times> int"

definition kCachedPowers :: "cached_power list" where
  "kCachedPowers = [
     (0xAB70FE17C79AC6CA, - 1060, - 300),
     (0xFF77B1FCBEBCDC4F, - 1034, - 292),
     (0xBE5691EF416BD60C, - 1007, - 284),
     (0x8DD01FAD907FFC3C, - 980, - 276),
     (0xD3515C2831559A83, - 954, - 268),
     (0x9D71AC8FADA6C9B5, - 927, - 260),
     (0xEA9C227723EE8BCB, - 901, - 252),
     (0xAECC49914078536D, - 874, - 244),
     (0x823C12795DB6CE57, - 847, - 236),
     (0xC21094364DFB5637, - 821, - 228),
     (0x9096EA6F3848984F, - 794, - 220),
     (0xD77485CB25823AC7, - 768, - 212),
     (0xA086CFCD97BF97F4, - 741, - 204),
     (0xEF340A98172AACE5, - 715, - 196),
     (0xB23867FB2A35B28E, - 688, - 188),
     (0x84C8D4DFD2C63F3B, - 661, - 180),
     (0xC5DD44271AD3CDBA, - 635, - 172),
     (0x936B9FCEBB25C996, - 608, - 164),
     (0xDBAC6C247D62A584, - 582, - 156),
     (0xA3AB66580D5FDAF6, - 555, - 148),
     (0xF3E2F893DEC3F126, - 529, - 140),
     (0xB5B5ADA8AAFF80B8, - 502, - 132),
     (0x87625F056C7C4A8B, - 475, - 124),
     (0xC9BCFF6034C13053, - 449, - 116),
     (0x964E858C91BA2655, - 422, - 108),
     (0xDFF9772470297EBD, - 396, - 100),
     (0xA6DFBD9FB8E5B88F, - 369, - 92),
     (0xF8A95FCF88747D94, - 343, - 84),
     (0xB94470938FA89BCF, - 316, - 76),
     (0x8A08F0F8BF0F156B, - 289, - 68),
     (0xCDB02555653131B6, - 263, - 60),
     (0x993FE2C6D07B7FAC, - 236, - 52),
     (0xE45C10C42A2B3B06, - 210, - 44),
     (0xAA242499697392D3, - 183, - 36),
     (0xFD87B5F28300CA0E, - 157, - 28),
     (0xBCE5086492111AEB, - 130, - 20),
     (0x8CBCCC096F5088CC, - 103, - 12),
     (0xD1B71758E219652C, - 77, - 4),
     (0x9C40000000000000, - 50, 4),
     (0xE8D4A51000000000, - 24, 12),
     (0xAD78EBC5AC620000, 3, 20),
     (0x813F3978F8940984, 30, 28),
     (0xC097CE7BC90715B3, 56, 36),
     (0x8F7E32CE7BEA5C70, 83, 44),
     (0xD5D238A4ABE98068, 109, 52),
     (0x9F4F2726179A2245, 136, 60),
     (0xED63A231D4C4FB27, 162, 68),
     (0xB0DE65388CC8ADA8, 189, 76),
     (0x83C7088E1AAB65DB, 216, 84),
     (0xC45D1DF942711D9A, 242, 92),
     (0x924D692CA61BE758, 269, 100),
     (0xDA01EE641A708DEA, 295, 108),
     (0xA26DA3999AEF774A, 322, 116),
     (0xF209787BB47D6B85, 348, 124),
     (0xB454E4A179DD1877, 375, 132),
     (0x865B86925B9BC5C2, 402, 140),
     (0xC83553C5C8965D3D, 428, 148),
     (0x952AB45CFA97A0B3, 455, 156),
     (0xDE469FBD99A05FE3, 481, 164),
     (0xA59BC234DB398C25, 508, 172),
     (0xF6C69A72A3989F5C, 534, 180),
     (0xB7DCBF5354E9BECE, 561, 188),
     (0x88FCF317F22241E2, 588, 196),
     (0xCC20CE9BD35C78A5, 614, 204),
     (0x98165AF37B2153DF, 641, 212),
     (0xE2A0B5DC971F303A, 667, 220),
     (0xA8D9D1535CE3B396, 694, 228),
     (0xFB9B7CD9A4A7443C, 720, 236),
     (0xBB764C4CA7A44410, 747, 244),
     (0x8BAB8EEFB6409C1A, 774, 252),
     (0xD01FEF10A657842C, 800, 260),
     (0x9B10A4E5E9913129, 827, 268),
     (0xE7109BFBA19C0C9D, 853, 276),
     (0xAC2820D9623BF429, 880, 284),
     (0x80444B5E7AA7CF85, 907, 292),
     (0xBF21E44003ACDD2D, 933, 300),
     (0x8E679C2F5E44FF8F, 960, 308),
     (0xD433179D9C8CB841, 986, 316),
     (0x9E19DB92B4E31BA9, 1013, 324)]"

definition kCachedPowersMinDecExp :: int where "kCachedPowersMinDecExp = - 300"
definition kCachedPowersDecStep :: int where "kCachedPowersDecStep = 8"

text \<open>The index into the table; the division is that of C++, which rounds towards zero.\<close>

definition cached_index :: "int \<Rightarrow> int" where
  "cached_index e =
     (let f = kAlpha - e - 1;
          k = (f * 78913) sdiv 2 ^ 18 + (if f > 0 then 1 else 0)
      in (- kCachedPowersMinDecExp + k + (kCachedPowersDecStep - 1)) sdiv kCachedPowersDecStep)"

definition get_cached_power_for_binary_exponent :: "int \<Rightarrow> cached_power" where
  "get_cached_power_for_binary_exponent e = kCachedPowers ! nat (cached_index e)"

section \<open>Digits\<close>

definition find_largest_pow10 :: "32 word \<Rightarrow> nat \<times> 32 word" where
  "find_largest_pow10 n =
     (if n \<ge> 1000000000 then (10, 1000000000)
      else if n \<ge> 100000000 then (9, 100000000)
      else if n \<ge> 10000000 then (8, 10000000)
      else if n \<ge> 1000000 then (7, 1000000)
      else if n \<ge> 100000 then (6, 100000)
      else if n \<ge> 10000 then (5, 10000)
      else if n \<ge> 1000 then (4, 1000)
      else if n \<ge> 100 then (3, 100)
      else if n \<ge> 10 then (2, 10)
      else (1, 1))"

text \<open>\<open>grisu2_round\<close>, for which the code asserts that \<open>ten_k\<close> is not 0.\<close>

definition decrement_last :: "string \<Rightarrow> string" where
  "decrement_last buf = butlast buf @ [char_of ((of_char (last buf) :: nat) - 1)]"

function grisu2_round :: "string \<Rightarrow> 64 word \<Rightarrow> 64 word \<Rightarrow> 64 word \<Rightarrow> 64 word \<Rightarrow> string" where
  "grisu2_round buf dist delta rest ten_k =
     (if ten_k \<noteq> 0 \<and> rest < dist \<and> delta - rest \<ge> ten_k \<and> (rest + ten_k < dist \<or> dist - rest > rest + ten_k - dist)
      then grisu2_round (decrement_last buf) dist delta (rest + ten_k) ten_k
      else buf)"
  by pat_completeness auto
termination
proof (relation "measure (\<lambda>(buf, dist, delta, rest, ten_k). unat (delta - rest))", goal_cases)
  case (2 buf dist delta rest ten_k)
  have "unat (delta - (rest + ten_k)) = unat (delta - rest) - unat ten_k"
    using 2 unat_sub [of ten_k "delta - rest"] by (simp add: diff_diff_eq)
  moreover have "0 < unat ten_k" "unat ten_k \<le> unat (delta - rest)"
    using 2 by (simp_all add: unat_gt_0 word_le_nat_alt)
  ultimately show ?case by simp
qed simp

declare grisu2_round.simps [simp del]

text \<open>The integral digits: the buffer and the decimal exponent if the loop returns, otherwise
  the buffer and what is left of \<open>p1\<close>. \<open>N\<close> is \<open>- one.e\<close>.\<close>

datatype digit_result = Generated string int | Digits_Left string

fun digit_gen_int ::
  "nat \<Rightarrow> 64 word \<Rightarrow> 64 word \<Rightarrow> 64 word \<Rightarrow> int \<Rightarrow> nat \<Rightarrow> 32 word \<Rightarrow> 32 word \<Rightarrow> string \<Rightarrow> digit_result" where
  "digit_gen_int N dist delta p2 decimal_exponent 0 p1 pow10 buffer = Digits_Left buffer"
| "digit_gen_int N dist delta p2 decimal_exponent (Suc n) p1 pow10 buffer =
     (let d = p1 div pow10; r = p1 mod pow10;
          buffer1 = buffer @ [char_of (48 + unat d)];
          rest = push_bit N (ucast r) + p2
      in if rest \<le> delta
         then Generated (grisu2_round buffer1 dist delta rest (push_bit N (ucast pow10))) (decimal_exponent + int n)
         else digit_gen_int N dist delta p2 decimal_exponent n r (pow10 div 10) buffer1)"

text \<open>The fractional digits. Each turn multiplies \<open>p2\<close> by ten and keeps the bits below
  \<open>N\<close>, so at least one more trailing bit is zero: the loop ends on every input.\<close>

definition low_bits :: "64 word \<Rightarrow> nat set" where
  "low_bits p = {j. j < 64 \<and> push_bit j p \<noteq> 0}"

lemma push_bit_zero_iff: "push_bit j (p :: 64 word) = 0 \<longleftrightarrow> (\<forall>i. i + j < 64 \<longrightarrow> \<not> bit p i)"
proof
  assume z: "push_bit j p = 0"
  show "\<forall>i. i + j < 64 \<longrightarrow> \<not> bit p i"
  proof (intro allI impI notI)
    fix i assume "i + j < 64" "bit p i"
    then have "bit (push_bit j p) (i + j)" by (simp add: bit_push_bit_iff)
    then show False using z by simp
  qed
next
  assume a: "\<forall>i. i + j < 64 \<longrightarrow> \<not> bit p i"
  show "push_bit j p = 0"
  proof (rule bit_eqI)
    fix n assume "possible_bit TYPE(64 word) n"
    then show "bit (push_bit j p) n = bit 0 n"
      using a [rule_format, of "n - j"] by (auto simp: bit_push_bit_iff)
  qed
qed

lemma low_bits_step:
  assumes "r = (p * 10) AND c" and "r \<noteq> 0"
  shows "card (low_bits r) < card (low_bits p)"
proof -
  have sub: "Suc j \<in> low_bits p" if "j \<in> low_bits r" for j
  proof (rule ccontr)
    assume "Suc j \<notin> low_bits p"
    moreover have j: "j < 64" "push_bit j r \<noteq> 0" using that by (auto simp: low_bits_def)
    moreover have "push_bit 64 p = 0" by (simp add: push_bit_zero_iff)
    ultimately have "push_bit (Suc j) p = 0" by (cases "j = 63") (auto simp: low_bits_def)
    moreover have "push_bit j (p * 10) = 5 * push_bit (Suc j) p"
    proof -
      have ten: "(10 :: 64 word) = 5 * 2" by simp
      show ?thesis unfolding push_bit_eq_mult power_Suc ten by (simp only: mult_ac)
    qed
    ultimately have "push_bit j (p * 10) = 0" by simp
    then have "push_bit j r = 0" by (simp add: assms(1))
    then show False using j by simp
  qed
  have "Suc ` low_bits r \<subset> low_bits p"
  proof
    show "Suc ` low_bits r \<subseteq> low_bits p" using sub by auto
    have "p \<noteq> 0" using assms by auto
    then have "0 \<in> low_bits p" by (simp add: low_bits_def)
    then show "Suc ` low_bits r \<noteq> low_bits p" by auto
  qed
  moreover have "finite (low_bits p)" by (simp add: low_bits_def)
  ultimately have "card (Suc ` low_bits r) < card (low_bits p)" by (rule psubset_card_mono [rotated])
  then show ?thesis by (simp add: card_image)
qed

function digit_gen_frac ::
  "nat \<Rightarrow> 64 word \<Rightarrow> 64 word \<Rightarrow> 64 word \<Rightarrow> int \<Rightarrow> string \<Rightarrow> string \<times> int" where
  "digit_gen_frac N dist delta p2 decimal_exponent buffer =
     (let p2' = p2 * 10;
          d = drop_bit N p2'; r = p2' AND (push_bit N 1 - 1);
          buffer1 = buffer @ [char_of (48 + unat d)];
          delta1 = delta * 10; dist1 = dist * 10
      in if r \<le> delta1
         then (grisu2_round buffer1 dist1 delta1 r (push_bit N 1), decimal_exponent - 1)
         else digit_gen_frac N dist1 delta1 r (decimal_exponent - 1) buffer1)"
  by pat_completeness auto
termination
proof (relation "measure (\<lambda>(N, dist, delta, p2, decimal_exponent, buffer). card (low_bits p2))", goal_cases)
  case (2 N dist delta p2 decimal_exponent buffer p2' d r buffer1 delta1 dist1)
  then have "r \<noteq> 0" by auto
  then show ?case using 2 by (auto intro: low_bits_step)
qed simp

declare digit_gen_frac.simps [simp del]

definition grisu2_digit_gen :: "int \<Rightarrow> diyfp \<Rightarrow> diyfp \<Rightarrow> diyfp \<Rightarrow> string \<times> int" where
  "grisu2_digit_gen decimal_exponent M_minus w M_plus =
     (let delta = df_f (diyfp_sub M_plus M_minus);
          dist = df_f (diyfp_sub M_plus w);
          N = nat (- df_e M_plus);
          p1 = ucast (drop_bit N (df_f M_plus)) :: 32 word;
          p2 = df_f M_plus AND (push_bit N 1 - 1);
          (k, pow10) = find_largest_pow10 p1
      in case digit_gen_int N dist delta p2 decimal_exponent k p1 pow10 [] of
           Generated buf ex \<Rightarrow> (buf, ex)
         | Digits_Left buf \<Rightarrow> digit_gen_frac N dist delta p2 decimal_exponent buf)"

definition grisu2_scaled :: "diyfp \<Rightarrow> diyfp \<Rightarrow> diyfp \<Rightarrow> string \<times> int" where
  "grisu2_scaled m_minus v m_plus =
     (let (cf, ce, ck) = get_cached_power_for_binary_exponent (df_e m_plus);
          c_minus_k = \<lparr>df_f = cf, df_e = ce\<rparr>;
          w = diyfp_mul v c_minus_k;
          w_minus = diyfp_mul m_minus c_minus_k;
          w_plus = diyfp_mul m_plus c_minus_k;
          M_minus = w_minus\<lparr>df_f := df_f w_minus + 1\<rparr>;
          M_plus = w_plus\<lparr>df_f := df_f w_plus - 1\<rparr>
      in grisu2_digit_gen (- ck) M_minus w M_plus)"

definition grisu2 :: "nat \<Rightarrow> int \<Rightarrow> string \<times> int" where
  "grisu2 m e = (let w = compute_boundaries m e in grisu2_scaled (bd_minus w) (bd_w w) (bd_plus w))"

section \<open>Text\<close>

definition append_exponent :: "int \<Rightarrow> string" where
  "append_exponent e =
     (let (sign, k) = (if e < 0 then (CHR ''-'', nat (- e)) else (CHR ''+'', nat e))
      in sign #
         (if k < 10 then [CHR ''0'', char_of (48 + k)]
          else if k < 100 then [char_of (48 + k div 10), char_of (48 + k mod 10)]
          else [char_of (48 + k div 100), char_of (48 + k mod 100 div 10), char_of (48 + k mod 100 mod 10)]))"

definition format_buffer :: "string \<Rightarrow> int \<Rightarrow> int \<Rightarrow> int \<Rightarrow> string" where
  "format_buffer buf decimal_exponent min_exp max_exp =
     (let k = int (length buf); n = k + decimal_exponent
      in if k \<le> n \<and> n \<le> max_exp then buf @ replicate (nat (n - k)) CHR ''0'' @ ''.0''
         else if 0 < n \<and> n \<le> max_exp then take (nat n) buf @ CHR ''.'' # drop (nat n) buf
         else if min_exp < n \<and> n \<le> 0 then ''0.'' @ replicate (nat (- n)) CHR ''0'' @ buf
         else if k = 1 then buf @ CHR ''e'' # append_exponent (n - 1)
         else take 1 buf @ CHR ''.'' # drop 1 buf @ CHR ''e'' # append_exponent (n - 1))"

text \<open>\<open>to_chars\<close> of a finite double; \<open>kMinExp\<close> is -4 and \<open>kMaxExp\<close> is 15 here.\<close>

definition to_chars :: "bool \<Rightarrow> nat \<Rightarrow> int \<Rightarrow> string" where
  "to_chars neg m e =
     (if neg then ''-'' else []) @
     (if m = 0 then ''0.0''
      else let (buf, ex) = grisu2 m e in format_buffer buf ex (- 4) 15)"

end
