(* ===== verification/Json_Serializer.thy ===== *)
theory Json_Serializer
  imports Json_Lexer Grisu2
begin

unbundle bit_operations_syntax

text \<open>
  The serializer of \<open>json/json.hpp\<close> (class \<open>serializer\<close>, \<open>basic_json::dump\<close>):
  the UTF-8 decoder as the table it is in the source, string escaping through the 512-byte
  buffer with its flush rule, integers through the digit loop, doubles through \<open>to_chars\<close>
  (theory \<open>Grisu2\<close>), and the recursive \<open>dump\<close> with pretty printing, which indents
  from a growing string of blanks. The theories
  \<open>Json_Utf8\<close> and \<open>Json_Text\<close> prove what these definitions compute.
\<close>

section \<open>The UTF-8 decoder\<close>

definition utf8d :: "nat list" where
  "utf8d =
     replicate 128 0 @
     replicate 16 1 @ replicate 16 9 @
     replicate 32 7 @
     replicate 2 8 @ replicate 30 2 @
     [0xA, 0x3, 0x3, 0x3, 0x3, 0x3, 0x3, 0x3, 0x3, 0x3, 0x3, 0x3, 0x3, 0x4, 0x3, 0x3] @
     [0xB, 0x6, 0x6, 0x6, 0x5, 0x8, 0x8, 0x8, 0x8, 0x8, 0x8, 0x8, 0x8, 0x8, 0x8, 0x8] @
     [0x0, 0x1, 0x2, 0x3, 0x5, 0x8, 0x7, 0x1, 0x1, 0x1, 0x4, 0x6, 0x1, 0x1, 0x1, 0x1] @
     [1, 1, 1, 1, 1, 1, 1, 1, 1, 1, 1, 1, 1, 1, 1, 1] @
     [1, 0, 1, 1, 1, 1, 1, 0, 1, 0, 1, 1, 1, 1, 1, 1] @
     [1, 2, 1, 1, 1, 1, 1, 2, 1, 2, 1, 1, 1, 1, 1, 1] @
     [1, 1, 1, 1, 1, 1, 1, 2, 1, 1, 1, 1, 1, 1, 1, 1] @
     [1, 2, 1, 1, 1, 1, 1, 1, 1, 2, 1, 1, 1, 1, 1, 1] @
     [1, 1, 1, 1, 1, 1, 1, 3, 1, 3, 1, 1, 1, 1, 1, 1] @
     [1, 3, 1, 1, 1, 1, 1, 3, 1, 3, 1, 1, 1, 1, 1, 1] @
     [1, 3, 1, 1, 1, 1, 1, 1, 1, 1, 1, 1, 1, 1, 1, 1]"

text \<open>\<open>decode\<close>: the new state and the new code point, a 32-bit value.\<close>

definition decode :: "nat \<Rightarrow> nat \<Rightarrow> nat \<Rightarrow> nat \<times> nat" where
  "decode state codep byte =
     (let type = utf8d ! byte;
          codep' = (if state \<noteq> 0 then (byte AND 0x3F) OR (codep * 2 ^ 6 mod 2 ^ 32)
                    else drop_bit type 0xFF AND byte)
      in (utf8d ! (256 + state * 16 + type), codep'))"

section \<open>Escaping\<close>

definition hex_digit :: "nat \<Rightarrow> nat \<Rightarrow> char" where
  "hex_digit base d = char_of (if d < 10 then 0x30 + d else base + (d - 10))"

text \<open>The formats \<open>%04x\<close> of a 16-bit value and \<open>%02X\<close> of a byte.\<close>

definition hex4 :: "nat \<Rightarrow> string" where
  "hex4 n = map (hex_digit 0x61) [n div 4096 mod 16, n div 256 mod 16, n div 16 mod 16, n mod 16]"

definition hex2 :: "nat \<Rightarrow> string" where
  "hex2 n = map (hex_digit 0x41) [n div 16 mod 16, n mod 16]"

text \<open>What the inner switch writes for a code point whose last byte is \<open>c\<close>.\<close>

definition escape_codepoint :: "bool \<Rightarrow> nat \<Rightarrow> char \<Rightarrow> string" where
  "escape_codepoint ensure_ascii codepoint c =
     (if codepoint = 0x08 then [CHR 0x5C, CHR ''b'']
      else if codepoint = 0x09 then [CHR 0x5C, CHR ''t'']
      else if codepoint = 0x0A then [CHR 0x5C, CHR ''n'']
      else if codepoint = 0x0C then [CHR 0x5C, CHR ''f'']
      else if codepoint = 0x0D then [CHR 0x5C, CHR ''r'']
      else if codepoint = 0x22 then [CHR 0x5C, CHR 0x22]
      else if codepoint = 0x5C then [CHR 0x5C, CHR 0x5C]
      else if codepoint \<le> 0x1F \<or> (ensure_ascii \<and> codepoint \<ge> 0x7F) then
        if codepoint \<le> 0xFFFF then [CHR 0x5C, CHR ''u''] @ hex4 codepoint
        else [CHR 0x5C, CHR ''u''] @ hex4 (0xD7C0 + drop_bit 10 codepoint) @
             [CHR 0x5C, CHR ''u''] @ hex4 (0xDC00 + (codepoint AND 0x3FF))
      else [c])"

text \<open>The loop of \<open>dump_escaped\<close>: decoder state and code point, the bytes in
  \<open>string_buffer\<close> (its size is 512) and the output so far.\<close>

record esc_state =
  es_state :: nat
  es_codepoint :: nat
  es_buffer :: string
  es_out :: string

definition flush_buffer :: "esc_state \<Rightarrow> esc_state" where
  "flush_buffer e =
     (if 512 - length (es_buffer e) < 13 then e\<lparr>es_out := es_out e @ es_buffer e, es_buffer := []\<rparr> else e)"

definition dump_escaped_byte :: "bool \<Rightarrow> nat \<Rightarrow> char \<Rightarrow> esc_state \<Rightarrow> esc_state result" where
  "dump_escaped_byte ensure_ascii i c e =
     (let (st, cp) = decode (es_state e) (es_codepoint e) (of_char c);
          e1 = e\<lparr>es_state := st, es_codepoint := cp\<rparr>
      in if st = 0 then
           Inr (flush_buffer (e1\<lparr>es_buffer := es_buffer e1 @ escape_codepoint ensure_ascii cp c\<rparr>))
         else if st = 1 then
           Inl (type_error_create 316 (''invalid UTF-8 byte at index '' @ to_string_nat i @ '': 0x'' @
             hex2 (of_char c)))
         else Inr (if ensure_ascii then e1 else e1\<lparr>es_buffer := es_buffer e1 @ [c]\<rparr>))"

fun dump_escaped_loop :: "bool \<Rightarrow> nat \<Rightarrow> string \<Rightarrow> esc_state \<Rightarrow> esc_state result" where
  "dump_escaped_loop ensure_ascii i [] e = Inr e"
| "dump_escaped_loop ensure_ascii i (c # cs) e =
     (case dump_escaped_byte ensure_ascii i c e of
        Inl ex \<Rightarrow> Inl ex
      | Inr e' \<Rightarrow> dump_escaped_loop ensure_ascii (i + 1) cs e')"

definition esc_init :: esc_state where
  "esc_init = \<lparr>es_state = 0, es_codepoint = 0, es_buffer = [], es_out = []\<rparr>"

definition dump_escaped :: "string \<Rightarrow> bool \<Rightarrow> string result" where
  "dump_escaped s ensure_ascii =
     (case dump_escaped_loop ensure_ascii 0 s esc_init of
        Inl ex \<Rightarrow> Inl ex
      | Inr e \<Rightarrow>
          if es_state e = 0 then Inr (es_out e @ es_buffer e)
          else Inl (type_error_create 316 (''incomplete UTF-8 string; last byte: 0x'' @ ''XX'')))"

section \<open>Integers\<close>

text \<open>The digit loop: \<open>labs(x % 10)\<close> and \<open>x /= 10\<close> with C's division, lowest digit
  first; the buffer is reversed before it is written.\<close>

function dump_digits :: "int \<Rightarrow> string" where
  "dump_digits x =
     (if x = 0 then [] else digit_char (nat (\<bar>x\<bar> mod 10)) # dump_digits (sgn x * (\<bar>x\<bar> div 10)))"
  by pat_completeness auto
termination
  by (relation "measure (\<lambda>x. nat \<bar>x\<bar>)") (auto simp: abs_mult nat_mult_distrib)

declare dump_digits.simps [simp del]

definition dump_integer :: "int \<Rightarrow> string" where
  "dump_integer x =
     (if x = 0 then ''0''
      else rev (dump_digits x @ (if x \<le> 0 \<and> x \<noteq> 0 then ''-'' else [])))"

section \<open>dump\<close>

text \<open>\<open>indent_string\<close> doubles when it is shorter than the new indentation; the new
  half is blanks.\<close>

definition grow_indent :: "nat \<Rightarrow> string \<Rightarrow> string" where
  "grow_indent new_indent ind =
     (if length ind < new_indent then ind @ replicate (length ind) (CHR '' '') else ind)"

text \<open>The arguments that do not change in the recursion.\<close>

record dump_opts =
  do_pretty :: bool
  do_ascii :: bool
  do_step :: nat

definition nl :: string where
  "nl = [CHR 0x0A]"

definition dump_float :: "double \<Rightarrow> string" where
  "dump_float x = (case x of Dbl neg m e \<Rightarrow> to_chars neg m e | Dbl_Inf neg \<Rightarrow> ''null'')"

text \<open>
  \<open>dump\<close> returns the text it writes and the indentation string it leaves. The loops over
  the members of an object and the elements of an array write a separator after every item
  but the last.
\<close>

function (sequential) dump :: "dump_opts \<Rightarrow> nat \<Rightarrow> string \<Rightarrow> json \<Rightarrow> (string \<times> string) result"
  and dump_elements :: "dump_opts \<Rightarrow> nat \<Rightarrow> string \<Rightarrow> json list \<Rightarrow> (string \<times> string) result"
  and dump_members :: "dump_opts \<Rightarrow> nat \<Rightarrow> string \<Rightarrow> (string \<times> json) list \<Rightarrow> (string \<times> string) result"
where
  "dump opts current_indent ind (Json_Object m) =
     (if m = [] then Inr (''{}'', ind)
      else if do_pretty opts then
        (let new_indent = current_indent + do_step opts
         in case dump_members opts new_indent (grow_indent new_indent ind) m of
              Inl e \<Rightarrow> Inl e
            | Inr (out, ind1) \<Rightarrow> Inr (''{'' @ nl @ out @ nl @ take current_indent ind1 @ ''}'', ind1))
      else
        (case dump_members opts current_indent ind m of
           Inl e \<Rightarrow> Inl e
         | Inr (out, ind1) \<Rightarrow> Inr (''{'' @ out @ ''}'', ind1)))"
| "dump opts current_indent ind (Json_Array xs) =
     (if xs = [] then Inr (''[]'', ind)
      else if do_pretty opts then
        (let new_indent = current_indent + do_step opts
         in case dump_elements opts new_indent (grow_indent new_indent ind) xs of
              Inl e \<Rightarrow> Inl e
            | Inr (out, ind1) \<Rightarrow> Inr (''['' @ nl @ out @ nl @ take current_indent ind1 @ '']'', ind1))
      else
        (case dump_elements opts current_indent ind xs of
           Inl e \<Rightarrow> Inl e
         | Inr (out, ind1) \<Rightarrow> Inr (''['' @ out @ '']'', ind1)))"
| "dump opts current_indent ind (Json_String s) =
     (case dump_escaped s (do_ascii opts) of
        Inl e \<Rightarrow> Inl e
      | Inr out \<Rightarrow> Inr (dq @ out @ dq, ind))"
| "dump opts current_indent ind (Json_Boolean b) = Inr (if b then ''true'' else ''false'', ind)"
| "dump opts current_indent ind (Json_Integer w) = Inr (dump_integer (sint w), ind)"
| "dump opts current_indent ind (Json_Unsigned w) = Inr (dump_integer (uint w), ind)"
| "dump opts current_indent ind (Json_Float x) = Inr (dump_float x, ind)"
| "dump opts current_indent ind Json_Discarded = Inr (''<discarded>'', ind)"
| "dump opts current_indent ind Json_Null = Inr (''null'', ind)"
| "dump_elements opts new_indent ind [] = Inr ([], ind)"
| "dump_elements opts new_indent ind (x # rest) =
     (case dump opts new_indent ind x of
        Inl e \<Rightarrow> Inl e
      | Inr (out, ind1) \<Rightarrow>
          (let item = (if do_pretty opts then take new_indent ind @ out else out)
           in if rest = [] then Inr (item, ind1)
              else case dump_elements opts new_indent ind1 rest of
                     Inl e \<Rightarrow> Inl e
                   | Inr (outs, ind2) \<Rightarrow>
                       Inr (item @ (if do_pretty opts then '','' @ nl else '','') @ outs, ind2)))"
| "dump_members opts new_indent ind [] = Inr ([], ind)"
| "dump_members opts new_indent ind (kv # rest) =
     (case dump_escaped (fst kv) (do_ascii opts) of
        Inl e \<Rightarrow> Inl e
      | Inr key \<Rightarrow>
          (case dump opts new_indent ind (snd kv) of
             Inl e \<Rightarrow> Inl e
           | Inr (out, ind1) \<Rightarrow>
               (let item = (if do_pretty opts then take new_indent ind @ dq @ key @ dq @ '': '' @ out
                            else dq @ key @ dq @ '':'' @ out)
                in if rest = [] then Inr (item, ind1)
                   else case dump_members opts new_indent ind1 rest of
                          Inl e \<Rightarrow> Inl e
                        | Inr (outs, ind2) \<Rightarrow>
                            Inr (item @ (if do_pretty opts then '','' @ nl else '','') @ outs, ind2))))"
  by pat_completeness auto

termination
  by (relation "measure (\<lambda>a. case a of
      Inl (opts, i, ind, j) \<Rightarrow> size j
    | Inr (Inl (opts, i, ind, xs)) \<Rightarrow> size_list size xs
    | Inr (Inr (opts, i, ind, m)) \<Rightarrow> size_list (\<lambda>kv. Suc (size (snd kv))) m)")
    (auto simp: size_prod_simp)

text \<open>\<open>basic_json::dump(indent)\<close> with the default blank and without \<open>ensure_ascii\<close>:
  a negative indent is the compact form.\<close>

definition json_dump :: "int \<Rightarrow> json \<Rightarrow> string result" where
  "json_dump indent j =
     map_sum id fst
       (dump \<lparr>do_pretty = (0 \<le> indent), do_ascii = False,
              do_step = (if 0 \<le> indent then nat indent else 0)\<rparr>
          0 (replicate 512 (CHR '' '')) j)"

end
