(* ===== verification/Json_Utf8.thy ===== *)
theory Json_Utf8
  imports Json_Serializer
begin

unbundle bit_operations_syntax

text \<open>
  What the decoder table of the serializer and the byte ranges of the lexer have in common:
  both recognise exactly well-formed UTF-8 (\<open>utf8_run\<close>). The closed form
  of \<open>dump_escaped\<close> and the bound of its buffer (\<open>Json_Text\<close>) rest on it.
\<close>

section \<open>Well-formed UTF-8\<close>

text \<open>The first argument is the list of ranges the next bytes must fall in.\<close>

fun utf8_run :: "(int \<times> int) list \<Rightarrow> string \<Rightarrow> bool" where
  "utf8_run [] [] = True"
| "utf8_run (r # rs) [] = False"
| "utf8_run [] (c # cs) =
     (if (of_char c :: int) < 0x80 then utf8_run [] cs
      else case utf8_ranges (of_char c) of None \<Rightarrow> False | Some rs \<Rightarrow> utf8_run rs cs)"
| "utf8_run (r # rs) (c # cs) = (fst r \<le> of_char c \<and> of_char c \<le> snd r \<and> utf8_run rs cs)"

definition utf8_valid :: "string \<Rightarrow> bool" where
  "utf8_valid s = utf8_run [] s"

section \<open>The table\<close>

text \<open>The table in closed form: the class of a byte and the transition on a class.\<close>

definition byte_class :: "nat \<Rightarrow> nat" where
  "byte_class b =
     (if b < 0x80 then 0 else if b < 0x90 then 1 else if b < 0xA0 then 9 else if b < 0xC0 then 7
      else if b < 0xC2 then 8 else if b < 0xE0 then 2 else if b = 0xE0 then 0xA
      else if b = 0xED then 4 else if b < 0xF0 then 3 else if b = 0xF0 then 0xB
      else if b < 0xF4 then 6 else if b = 0xF4 then 5 else 8)"

definition transition :: "nat \<Rightarrow> nat \<Rightarrow> nat" where
  "transition st t =
     (if st = 0 then
        (if t = 0 then 0 else if t = 2 then 2 else if t = 3 then 3 else if t = 4 then 5
         else if t = 5 then 8 else if t = 6 then 7 else if t = 0xA then 4 else if t = 0xB then 6 else 1)
      else if st = 2 then (if t = 1 \<or> t = 7 \<or> t = 9 then 0 else 1)
      else if st = 3 then (if t = 1 \<or> t = 7 \<or> t = 9 then 2 else 1)
      else if st = 4 then (if t = 7 then 2 else 1)
      else if st = 5 then (if t = 1 \<or> t = 9 then 2 else 1)
      else if st = 6 then (if t = 7 \<or> t = 9 then 3 else 1)
      else if st = 7 then (if t = 1 \<or> t = 7 \<or> t = 9 then 3 else 1)
      else if st = 8 then (if t = 1 then 3 else 1)
      else 1)"

lemma utf8d_eq: "utf8d = map byte_class [0..<256] @ map (\<lambda>k. transition (k div 16) (k mod 16)) [0..<144]"
  by code_simp

lemma utf8d_class: "b < 256 \<Longrightarrow> utf8d ! b = byte_class b"
  by (simp add: utf8d_eq nth_append)

lemma byte_class_le: "byte_class b < 16"
  by (simp add: byte_class_def)

lemma utf8d_transition:
  assumes "st < 9" and "t < 16"
  shows "utf8d ! (256 + st * 16 + t) = transition st t"
  using assms by (simp add: utf8d_eq nth_append)

text \<open>The ranges that each state of the decoder waits for.\<close>

definition pending :: "nat \<Rightarrow> (int \<times> int) list" where
  "pending st =
     (if st = 2 then [(0x80, 0xBF)]
      else if st = 3 then [(0x80, 0xBF), (0x80, 0xBF)]
      else if st = 4 then [(0xA0, 0xBF), (0x80, 0xBF)]
      else if st = 5 then [(0x80, 0x9F), (0x80, 0xBF)]
      else if st = 6 then [(0x90, 0xBF), (0x80, 0xBF), (0x80, 0xBF)]
      else if st = 7 then [(0x80, 0xBF), (0x80, 0xBF), (0x80, 0xBF)]
      else if st = 8 then [(0x80, 0x8F), (0x80, 0xBF), (0x80, 0xBF)]
      else [])"

definition live :: "nat \<Rightarrow> bool" where
  "live st \<longleftrightarrow> st < 9 \<and> st \<noteq> 1"

lemma live_cases: "live st \<Longrightarrow> st = 0 \<or> st = 2 \<or> st = 3 \<or> st = 4 \<or> st = 5 \<or> st = 6 \<or> st = 7 \<or> st = 8"
  unfolding live_def by presburger

lemma fst_decode:
  assumes "live st" and "b < 256"
  shows "fst (decode st cp b) = transition st (byte_class b)"
  using assms utf8d_transition [of st "byte_class b"] byte_class_le [of b]
  by (simp add: decode_def live_def Let_def utf8d_class)

text \<open>The first byte of a sequence.\<close>

lemma transition_start:
  "transition 0 (byte_class b) = 0 \<longleftrightarrow> b < 0x80"
  "0x80 \<le> b \<Longrightarrow> b < 256 \<Longrightarrow>
     (case utf8_ranges (int b) of
        None \<Rightarrow> transition 0 (byte_class b) = 1
      | Some rs \<Rightarrow> live (transition 0 (byte_class b)) \<and> pending (transition 0 (byte_class b)) = rs)"
   by (auto simp: transition_def byte_class_def utf8_ranges_def pending_def live_def)

text \<open>A continuation byte.\<close>

lemma transition_next:
  assumes "live st" and "st \<noteq> 0" and "b < 256"
  obtains (ok) r rs where "pending st = r # rs" "fst r \<le> int b" "int b \<le> snd r"
      "live (transition st (byte_class b))" "pending (transition st (byte_class b)) = rs"
      "0x80 \<le> b" "transition st (byte_class b) = 0 \<longleftrightarrow> rs = []"
    | (bad) r rs where "pending st = r # rs" "\<not> (fst r \<le> int b \<and> int b \<le> snd r)"
      "transition st (byte_class b) = 1"
proof -
  have "st = 2 \<or> st = 3 \<or> st = 4 \<or> st = 5 \<or> st = 6 \<or> st = 7 \<or> st = 8"
    using live_cases [OF assms(1)] assms(2) by simp
  moreover have "b < 0x80 \<or> 0x80 \<le> b \<and> b < 0x90 \<or> 0x90 \<le> b \<and> b < 0xA0 \<or> 0xA0 \<le> b \<and> b < 0xC0 \<or> 0xC0 \<le> b"
    by arith
  ultimately show thesis
    using ok bad by (elim disjE) (auto simp: transition_def byte_class_def pending_def live_def)
qed

section \<open>The code point\<close>

lemma and63: "(b :: nat) AND 0x3F = b mod 64"
proof -
  have "b AND mask 6 = take_bit 6 b" by (simp add: take_bit_eq_mask)
  then show ?thesis by (simp add: mask_eq_exp_minus_1 take_bit_eq_mod)
qed

lemma low_bits_or: "(b mod 64) OR (c * 64) = b mod 64 + c * (64 :: nat)"
proof -
  have "(take_bit 6 b) + (push_bit 6 c) = take_bit 6 b OR push_bit 6 c"
    by (rule disjunctive_add) (auto simp: bit_simps)
  then show ?thesis by (simp add: take_bit_eq_mod push_bit_eq_mult)
qed

lemma snd_decode_next:
  assumes "st \<noteq> 0" and "cp < 2 ^ 26"
  shows "snd (decode st cp b) = b mod 64 + cp * 64"
  using assms by (simp add: decode_def Let_def and63 low_bits_or)

lemma snd_decode_start:
  assumes "b < 256"
  shows "snd (decode 0 cp b) = drop_bit (byte_class b) 0xFF AND b"
  using assms by (simp add: decode_def Let_def utf8d_class)

lemma snd_decode_ascii: "b < 0x80 \<Longrightarrow> snd (decode 0 cp b) = b"
proof -
  assume "b < 0x80"
  moreover have "0xFF AND b = take_bit 8 b"
    by (simp add: take_bit_eq_mask mask_eq_exp_minus_1 and.commute)
  ultimately show ?thesis
    by (simp add: snd_decode_start byte_class_def take_bit_eq_mod)
qed

text \<open>Bounds that keep the shift from losing bits and a sequence of several bytes from
  being taken for an ASCII character.\<close>

definition cp_ok :: "nat \<Rightarrow> nat \<Rightarrow> bool" where
  "cp_ok st cp \<longleftrightarrow>
     (st = 2 \<longrightarrow> 2 \<le> cp \<and> cp < 2 ^ 15) \<and>
     (st = 3 \<or> st = 5 \<longrightarrow> 1 \<le> cp \<and> cp < 2 ^ 9) \<and>
     (st = 4 \<longrightarrow> cp < 2 ^ 9) \<and>
     (st = 7 \<or> st = 8 \<longrightarrow> 1 \<le> cp \<and> cp < 2 ^ 3) \<and>
     (st = 6 \<longrightarrow> cp < 2 ^ 3)"

lemma and_mask_mod: "(mask n AND b :: nat) = b mod 2 ^ n"
  by (simp add: take_bit_eq_mask [symmetric] take_bit_eq_mod and.commute)

lemma mod_interval: "m * k \<le> (b :: nat) \<Longrightarrow> b < m * k + m \<Longrightarrow> b mod m = b - m * k"
  by (metis le_add_diff_inverse less_diff_conv2 mod_less mod_mult_self2 add.commute nat_add_left_cancel_less)

lemma cp_ok_start:
  assumes "0x80 \<le> b" and "b < 256"
  shows "cp_ok (transition 0 (byte_class b)) (snd (decode 0 cp b))"
proof -
  have m: "0x3F AND b = b mod 64" "0x1F AND b = b mod 32" "0xF AND b = b mod 16" "7 AND b = b mod 8" "3 AND b = b mod 4"
    using and_mask_mod [of 6 b] and_mask_mod [of 5 b] and_mask_mod [of 4 b] and_mask_mod [of 3 b] and_mask_mod [of 2 b]
    by (simp_all add: mask_eq_exp_minus_1)
  show ?thesis
    using assms 
    mod_interval [of 64 3 b] mod_interval [of 32 7 b] mod_interval [of 4 60 b]
    by (simp add: snd_decode_start)
      (auto simp: cp_ok_def transition_def byte_class_def m drop_bit_eq_div)
qed

lemma cp_ok_next:
  assumes "live st" and "st \<noteq> 0" and "b < 256" and "cp_ok st cp"
    and "live (transition st (byte_class b))"
  shows "cp_ok (transition st (byte_class b)) (snd (decode st cp b))"
    and "transition st (byte_class b) = 0 \<Longrightarrow> 0x80 \<le> snd (decode st cp b)"
proof -
  define t x where "t = byte_class b" and "x = b mod 64"
  have st: "st = 2 \<or> st = 3 \<or> st = 4 \<or> st = 5 \<or> st = 6 \<or> st = 7 \<or> st = 8"
    using live_cases [OF assms(1)] assms(2) by simp
  have "cp < 2 ^ 26"
    using st assms(4) by (auto simp: cp_ok_def)
  then have d: "snd (decode st cp b) = x + cp * 64"
    using assms(2) by (simp add: snd_decode_next x_def)
  have x: "x < 64" "t = 7 \<Longrightarrow> 32 \<le> x" "t = 9 \<Longrightarrow> 16 \<le> x"
    using mod_interval [of 64 2 b]
    unfolding t_def x_def byte_class_def by (auto split: if_splits)
  show "cp_ok (transition st (byte_class b)) (snd (decode st cp b))"
    using st x assms(4-5) unfolding d t_def [symmetric]
    by (elim disjE) (auto simp: cp_ok_def transition_def live_def split: if_splits)
  show "transition st (byte_class b) = 0 \<Longrightarrow> 0x80 \<le> snd (decode st cp b)"
    using st x assms(4-5) unfolding d t_def [symmetric]
    by (elim disjE) (auto simp: cp_ok_def transition_def live_def split: if_splits)
qed

end
