(* ===== verification/Json_Text.thy ===== *)
theory Json_Text
  imports Json_Utf8
begin

text \<open>
  Closed forms of the serializer. \<open>dump_escaped\<close> writes the bytes of a string with
  each byte replaced by its escape, or throws error 316 exactly when the string is not
  valid UTF-8; its 512-byte buffer is never overrun; \<open>dump_integer\<close> writes the decimal
  notation; and \<open>dump\<close> writes \<open>json_text\<close>, a definition by plain recursion on the value
  which knows nothing of the indentation string the code grows and reuses.
\<close>


section \<open>Closed form of the escaping\<close>

definition esc_byte :: "char \<Rightarrow> string" where
  "esc_byte c = escape_codepoint False (of_char c) c"

lemma escape_big: "0x80 \<le> cp \<Longrightarrow> escape_codepoint False cp c = [c]"
  by (simp add: escape_codepoint_def)

lemma esc_byte_big: "0x80 \<le> (of_char c :: nat) \<Longrightarrow> esc_byte c = [c]"
  by (simp add: esc_byte_def escape_big)

lemma flush_buffer_simps [simp]:
  "es_state (flush_buffer e) = es_state e"
  "es_codepoint (flush_buffer e) = es_codepoint e"
  "es_out (flush_buffer e) @ es_buffer (flush_buffer e) = es_out e @ es_buffer e"
  by (simp_all add: flush_buffer_def)

definition esc_inv :: "esc_state \<Rightarrow> bool" where
  "esc_inv e \<longleftrightarrow> live (es_state e) \<and> cp_ok (es_state e) (es_codepoint e)"

lemma of_char_int [simp]: "(of_char c :: int) = int (of_char c)"
  by (simp add: of_nat_of_char)

lemma decode_char:
  assumes "live st"
  shows "decode st cp (of_char c) = (transition st (byte_class (of_char c)), snd (decode st cp (of_char c)))"
  using fst_decode [OF assms nat_of_char_less_256 [of c], of cp] by (metis prod.collapse)

lemma esc_step_start:
  fixes c :: char and cp :: nat
  assumes "transition 0 (byte_class (of_char c)) \<noteq> 1"
  defines "st \<equiv> transition 0 (byte_class (of_char c))" and "cp1 \<equiv> snd (decode 0 cp (of_char c))"
  shows "live st" "cp_ok st cp1" "st = 0 \<Longrightarrow> escape_codepoint False cp1 c = esc_byte c"
    "st \<noteq> 0 \<Longrightarrow> esc_byte c = [c]"
proof -
  let ?b = "of_char c :: nat"
  have "live st \<and> cp_ok st cp1 \<and> (st = 0 \<longrightarrow> escape_codepoint False cp1 c = esc_byte c) \<and> (st \<noteq> 0 \<longrightarrow> esc_byte c = [c])"
  proof (cases "?b < 0x80")
    case True
    then have "st = 0" "cp1 = ?b"
      using transition_start(1) [of ?b] snd_decode_ascii [of ?b cp] by (simp_all add: st_def cp1_def)
    then show ?thesis by (simp add: esc_byte_def live_def cp_ok_def)
  next
    case False
    then have "live st" "st \<noteq> 0"
      using transition_start(1) [of ?b] transition_start(2) [of ?b] assms(1)
      by (auto simp: st_def split: option.splits)
    moreover have "cp_ok st cp1"
      unfolding st_def cp1_def by (rule cp_ok_start) (use False in simp_all)
    ultimately show ?thesis using False by (simp add: esc_byte_big)
  qed
  then show "live st" "cp_ok st cp1" "st = 0 \<Longrightarrow> escape_codepoint False cp1 c = esc_byte c"
    "st \<noteq> 0 \<Longrightarrow> esc_byte c = [c]" by auto
qed

lemma esc_step_next:
  fixes c :: char and cp s :: nat
  assumes "live s" "s \<noteq> 0" "cp_ok s cp" "transition s (byte_class (of_char c)) \<noteq> 1"
  defines "st \<equiv> transition s (byte_class (of_char c))" and "cp1 \<equiv> snd (decode s cp (of_char c))"
  shows "live st" "cp_ok st cp1" "st = 0 \<Longrightarrow> escape_codepoint False cp1 c = esc_byte c"
    "st \<noteq> 0 \<Longrightarrow> esc_byte c = [c]"
proof -
  have b: "live st \<and> 0x80 \<le> (of_char c :: nat)"
    using assms(4) by (cases rule: transition_next [OF assms(1-2) nat_of_char_less_256 [of c]]) (auto simp: st_def)
  then show "live st" ..
  show "cp_ok st cp1"
    unfolding st_def cp1_def by (rule cp_ok_next(1) [OF assms(1-2) nat_of_char_less_256 assms(3)]) (use b in \<open>simp add: st_def\<close>)
  show "st = 0 \<Longrightarrow> escape_codepoint False cp1 c = esc_byte c"
    using b cp_ok_next(2) [OF assms(1-2) nat_of_char_less_256 assms(3)]
    by (simp add: st_def cp1_def esc_byte_big escape_big)
  show "st \<noteq> 0 \<Longrightarrow> esc_byte c = [c]"
    using b by (simp add: esc_byte_big)
qed

lemma dump_escaped_byte_ok:
  assumes "esc_inv e" and "transition (es_state e) (byte_class (of_char c)) \<noteq> 1"
  shows "\<exists>e'. dump_escaped_byte False i c e = Inr e' \<and> esc_inv e' \<and>
    es_state e' = transition (es_state e) (byte_class (of_char c)) \<and>
    es_out e' @ es_buffer e' = es_out e @ es_buffer e @ esc_byte c"
proof -
  define st where "st = transition (es_state e) (byte_class (of_char c))"
  define cp where "cp = snd (decode (es_state e) (es_codepoint e) (of_char c))"
  have l: "live (es_state e)" "cp_ok (es_state e) (es_codepoint e)" "st \<noteq> 1"
    using assms by (simp_all add: esc_inv_def st_def)
  have d: "decode (es_state e) (es_codepoint e) (of_char c) = (st, cp)"
    using decode_char [OF l(1)] by (simp add: st_def cp_def)
  have facts: "live st" "cp_ok st cp" "st = 0 \<Longrightarrow> escape_codepoint False cp c = esc_byte c"
      "st \<noteq> 0 \<Longrightarrow> esc_byte c = [c]"
    using esc_step_start [where c = c] esc_step_next [OF l(1) _ l(2)] l(3)
    unfolding st_def cp_def by (cases "es_state e = 0", auto)+
  then show ?thesis
    using l(3) unfolding dump_escaped_byte_def d st_def [symmetric]
    by (cases "st = 0") (simp_all add: esc_inv_def)
qed

lemma dump_escaped_byte_bad:
  assumes "esc_inv e" and "transition (es_state e) (byte_class (of_char c)) = 1"
  shows "\<exists>w. dump_escaped_byte a i c e = Inl (Json_Type_Error 316 w)"
proof -
  have "fst (decode (es_state e) (es_codepoint e) (of_char c)) = 1"
    using fst_decode [of "es_state e" "of_char c" "es_codepoint e"] assms by (simp add: esc_inv_def)
  then show ?thesis
    by (auto simp: dump_escaped_byte_def Let_def type_error_create_def split: prod.splits)
qed

text \<open>One byte of the decoder is one byte of \<open>utf8_run\<close>.\<close>

lemma utf8_run_step:
  assumes "live st"
  shows "utf8_run (pending st) (c # cs) \<longleftrightarrow>
    transition st (byte_class (of_char c)) \<noteq> 1 \<and> utf8_run (pending (transition st (byte_class (of_char c)))) cs"
proof (cases "st = 0")
  case True
  then show ?thesis
    using transition_start(1) [of "of_char c"] transition_start(2) [of "of_char c"]
    by (cases "(of_char c :: nat) < 0x80")
      (auto simp: pending_def live_def split: option.splits)
next
  case False
  show ?thesis
  proof (cases rule: transition_next [OF assms False nat_of_char_less_256 [of c]])
    case (1 r rs)
    then show ?thesis by (auto simp: live_def)
  next
    case (2 r rs)
    then show ?thesis by auto
  qed
qed

lemma pending_Nil: "live st \<Longrightarrow> utf8_run (pending st) [] \<longleftrightarrow> st = 0"
  using live_cases [of st] by (auto simp: pending_def)

lemma dump_escaped_loop_closed:
  assumes "esc_inv e"
  shows "case dump_escaped_loop False i s e of
      Inl ex \<Rightarrow> \<not> utf8_run (pending (es_state e)) s \<and> (\<exists>w. ex = Json_Type_Error 316 w)
    | Inr e' \<Rightarrow> esc_inv e' \<and> (es_state e' = 0 \<longleftrightarrow> utf8_run (pending (es_state e)) s) \<and>
        es_out e' @ es_buffer e' = es_out e @ es_buffer e @ concat (map esc_byte s)"
  using assms
proof (induction s arbitrary: e i)
  case Nil
  then show ?case by (simp add: esc_inv_def pending_Nil)
next
  case (Cons c cs)
  have l: "live (es_state e)" using Cons.prems by (simp add: esc_inv_def)
  show ?case
  proof (cases "transition (es_state e) (byte_class (of_char c)) = 1")
    case True
    then show ?thesis
      using dump_escaped_byte_bad [OF Cons.prems True, of False i] utf8_run_step [OF l] by auto
  next
    case False
    then obtain e1 where e1: "dump_escaped_byte False i c e = Inr e1" "esc_inv e1"
      "es_state e1 = transition (es_state e) (byte_class (of_char c))"
      "es_out e1 @ es_buffer e1 = es_out e @ es_buffer e @ esc_byte c"
      using dump_escaped_byte_ok [OF Cons.prems] by blast
    show ?thesis
      using Cons.IH [OF e1(2), of "i + 1"] e1 False utf8_run_step [OF l, of c cs]
      by (auto split: sum.splits)
  qed
qed

lemma esc_inv_init: "esc_inv esc_init"
  by (simp add: esc_inv_def esc_init_def live_def cp_ok_def)

lemma dump_escaped_valid:
  "utf8_valid s \<Longrightarrow> dump_escaped s False = Inr (concat (map esc_byte s))"
  using dump_escaped_loop_closed [OF esc_inv_init, where i = 0 and s = s]
  by (auto simp: dump_escaped_def utf8_valid_def esc_init_def pending_def split: sum.splits)

lemma dump_escaped_invalid:
  "\<not> utf8_valid s \<Longrightarrow> \<exists>w. dump_escaped s False = Inl (Json_Type_Error 316 w)"
  using dump_escaped_loop_closed [OF esc_inv_init, where i = 0 and s = s]
  by (auto simp: dump_escaped_def utf8_valid_def esc_init_def pending_def type_error_create_def split: sum.splits)

section \<open>The string buffer is large enough\<close>

text \<open>Bytes that an unfinished sequence has already copied.\<close>

definition buf_inv :: "bool \<Rightarrow> esc_state \<Rightarrow> bool" where
  "buf_inv ensure_ascii e \<longleftrightarrow> esc_inv e \<and>
     length (es_buffer e) \<le> 499 + (if ensure_ascii \<or> es_state e = 0 then 0 else 4 - length (pending (es_state e)))"

lemma escape_codepoint_length: "length (escape_codepoint a cp c) \<le> 12"
  by (simp add: escape_codepoint_def hex4_def)

lemma flush_buffer_length: "length (es_buffer (flush_buffer e)) \<le> 499"
  by (simp add: flush_buffer_def) arith

lemma pending_length: "live st \<Longrightarrow> st \<noteq> 0 \<Longrightarrow> 1 \<le> length (pending st) \<and> length (pending st) \<le> 3"
  using live_cases [of st] by (auto simp: pending_def)

lemma pending_step:
  assumes "live st" "st \<noteq> 0" "transition st (byte_class (of_char c)) \<noteq> 1"
  shows "length (pending st) = Suc (length (pending (transition st (byte_class (of_char c)))))"
  using assms(3) by (cases rule: transition_next [OF assms(1-2) nat_of_char_less_256 [of c]]) auto

lemma esc_inv_step:
  assumes "esc_inv e" and "decode (es_state e) (es_codepoint e) (of_char c) = (st, cp)" and "st \<noteq> 1"
  shows "live st" "cp_ok st cp" "st = transition (es_state e) (byte_class (of_char c))"
    "st = 0 \<Longrightarrow> es_state e \<noteq> 0 \<Longrightarrow> escape_codepoint False cp c = [c]"
proof -
  have l: "live (es_state e)" "cp_ok (es_state e) (es_codepoint e)" using assms(1) by (simp_all add: esc_inv_def)
  show st: "st = transition (es_state e) (byte_class (of_char c))"
    using decode_char [OF l(1), of "es_codepoint e" c] assms(2) by simp
  have cp: "cp = snd (decode (es_state e) (es_codepoint e) (of_char c))" by (simp add: assms(2))
  show "live st" "cp_ok st cp"
    using esc_step_start [where c = c] esc_step_next [OF l(1) _ l(2)] assms(3) unfolding st cp
    by (cases "es_state e = 0", auto)+
  show "st = 0 \<Longrightarrow> es_state e \<noteq> 0 \<Longrightarrow> escape_codepoint False cp c = [c]"
    using cp_ok_next(2) [OF l(1) _ nat_of_char_less_256 l(2)] \<open>live st\<close> unfolding st cp
    by (simp add: escape_big)
qed

lemma buf_inv_byte:
  assumes "buf_inv a e" and "dump_escaped_byte a i c e = Inr e'"
  shows "buf_inv a e'"
proof -
  obtain st cp where d: "decode (es_state e) (es_codepoint e) (of_char c) = (st, cp)" by fastforce
  have e: "esc_inv e" and len: "length (es_buffer e) \<le> 499 +
      (if a \<or> es_state e = 0 then 0 else 4 - length (pending (es_state e)))"
    using assms(1) by (simp_all add: buf_inv_def)
  have st: "st \<noteq> 1" using assms(2) by (auto simp: dump_escaped_byte_def d)
  note step = esc_inv_step [OF e d st]
  show ?thesis
  proof (cases "st = 0")
    case True
    then show ?thesis
      using assms(2) step(1,2) flush_buffer_length
      by (auto simp: dump_escaped_byte_def d buf_inv_def esc_inv_def)
  next
    case False
    have "es_state e = 0 \<or> length (pending (es_state e)) = Suc (length (pending st))"
      using pending_step [of "es_state e" c] e st step(3) by (auto simp: esc_inv_def)
    then show ?thesis
      using assms(2) step(1,2) False len st pending_length [of st]
      by (auto simp: dump_escaped_byte_def d buf_inv_def esc_inv_def Let_def split: if_splits)
  qed
qed

lemma buf_inv_loop:
  "buf_inv a e \<Longrightarrow> dump_escaped_loop a i s e = Inr e' \<Longrightarrow> buf_inv a e'"
  by (induction s arbitrary: i e) (auto split: sum.splits dest: buf_inv_byte)

lemma buf_inv_init: "buf_inv a esc_init"
  using esc_inv_init by (simp add: buf_inv_def esc_init_def)

lemma buffer_space:
  assumes "buf_inv a e" and "decode (es_state e) (es_codepoint e) (of_char c) = (st, cp)"
  shows "st = 0 \<Longrightarrow> length (es_buffer e) + length (escape_codepoint a cp c) + 1 \<le> 512"
    and "length (es_buffer e) + 1 \<le> 512"
proof -
  have e: "esc_inv e" and len: "length (es_buffer e) \<le> 499 +
      (if a \<or> es_state e = 0 then 0 else 4 - length (pending (es_state e)))"
    using assms(1) by (simp_all add: buf_inv_def)
  show "length (es_buffer e) + 1 \<le> 512"
    using len by (simp split: if_splits)
  show "length (es_buffer e) + length (escape_codepoint a cp c) + 1 \<le> 512" if "st = 0"
  proof (cases "a \<or> es_state e = 0")
    case True
    then show ?thesis using len escape_codepoint_length [of a cp c] by simp
  next
    case False
    then show ?thesis using len esc_inv_step(4) [OF e assms(2)] that by simp
  qed
qed

section \<open>Integers are printed in decimal\<close>

lemma dump_digits_to_string:
  "x \<noteq> 0 \<Longrightarrow> rev (dump_digits x) = to_string_nat (nat \<bar>x\<bar>)"
proof (induction "nat \<bar>x\<bar>" arbitrary: x rule: less_induct)
  case less
  let ?y = "sgn x * (\<bar>x\<bar> div 10)"
  have y: "nat \<bar>?y\<bar> = nat \<bar>x\<bar> div 10"
    by (simp add: abs_mult nat_div_distrib)
  have m: "nat (\<bar>x\<bar> mod 10) = nat \<bar>x\<bar> mod 10" by (simp add: nat_mod_distrib)
  show ?case
  proof (cases "?y = 0")
    case True
    then have "nat \<bar>x\<bar> div 10 = 0" using y by simp
    then show ?thesis
      using less.prems True m
      by (subst dump_digits.simps) (simp add: dump_digits.simps [of 0] to_string_nat.simps [of "nat \<bar>x\<bar>"])
  next
    case False
    then have "nat \<bar>x\<bar> div 10 \<noteq> 0" using y by (metis abs_eq_0 nat_0_iff abs_ge_zero antisym)
    moreover have "nat \<bar>?y\<bar> < nat \<bar>x\<bar>" using y less.prems by simp
    moreover from calculation(1) have "\<not> nat \<bar>x\<bar> < 10" by (metis div_less)
    ultimately show ?thesis
      using less.prems less.hyps [OF _ False] y m
      by (subst dump_digits.simps) (simp add: to_string_nat.simps [of "nat \<bar>x\<bar>"])
  qed
qed

lemma digit_char_0: "digit_char 0 = CHR ''0''"
  by code_simp

lemma dump_integer_to_string: "dump_integer x = to_string_int x"
  by (simp add: dump_integer_def to_string_int_def dump_digits_to_string to_string_nat.simps [of 0] digit_char_0)

section \<open>The printed text as a function of the value\<close>

fun join :: "string \<Rightarrow> string list \<Rightarrow> string" where
  "join sep [] = []"
| "join sep [x] = x"
| "join sep (x # y # ys) = x @ sep @ join sep (y # ys)"

definition blanks :: "nat \<Rightarrow> string" where
  "blanks n = replicate n (CHR '' '')"

definition quoted :: "string \<Rightarrow> string" where
  "quoted s = dq @ concat (map esc_byte s) @ dq"

text \<open>The items of an array or object between their brackets: on one line, or each on a
  line of its own, \<open>k\<close> blanks deeper than the brackets.\<close>

definition bracketed :: "nat option \<Rightarrow> nat \<Rightarrow> char \<Rightarrow> char \<Rightarrow> string list \<Rightarrow> string" where
  "bracketed step i l r items =
     (if items = [] then [l, r]
      else case step of
        None \<Rightarrow> l # join '','' items @ [r]
      | Some k \<Rightarrow> l # nl @ join ('','' @ nl) (map (\<lambda>x. blanks (i + k) @ x) items) @ nl @ blanks i @ [r])"

definition colon :: "nat option \<Rightarrow> string" where
  "colon step = (if step = None then '':'' else '': '')"

definition deeper :: "nat option \<Rightarrow> nat \<Rightarrow> nat" where
  "deeper step i = (case step of None \<Rightarrow> i | Some k \<Rightarrow> i + k)"

fun json_text :: "nat option \<Rightarrow> nat \<Rightarrow> json \<Rightarrow> string" where
  "json_text step i (Json_Object m) =
     bracketed step i (CHR ''{'') (CHR ''}'')
       (map (\<lambda>kv. quoted (fst kv) @ colon step @ json_text step (deeper step i) (snd kv)) m)"
| "json_text step i (Json_Array xs) =
     bracketed step i (CHR ''['') (CHR '']'') (map (\<lambda>x. json_text step (deeper step i) x) xs)"
| "json_text step i (Json_String s) = quoted s"
| "json_text step i (Json_Boolean b) = (if b then ''true'' else ''false'')"
| "json_text step i (Json_Integer w) = to_string_int (sint w)"
| "json_text step i (Json_Unsigned w) = to_string_int (uint w)"
| "json_text step i (Json_Float x) = dump_float x"
| "json_text step i Json_Discarded = ''<discarded>''"
| "json_text step i Json_Null = ''null''"

fun json_utf8 :: "json \<Rightarrow> bool" where
  "json_utf8 (Json_Object m) \<longleftrightarrow> list_all (\<lambda>kv. utf8_valid (fst kv) \<and> json_utf8 (snd kv)) m"
| "json_utf8 (Json_Array xs) \<longleftrightarrow> list_all json_utf8 xs"
| "json_utf8 (Json_String s) \<longleftrightarrow> utf8_valid s"
| "json_utf8 _ \<longleftrightarrow> True"

definition opts_step :: "dump_opts \<Rightarrow> nat option" where
  "opts_step opts = (if do_pretty opts then Some (do_step opts) else None)"

definition opts_ok :: "dump_opts \<Rightarrow> bool" where
  "opts_ok opts \<longleftrightarrow> \<not> do_ascii opts \<and> do_step opts \<le> 512"

definition blank_ind :: "nat \<Rightarrow> string \<Rightarrow> bool" where
  "blank_ind i ind \<longleftrightarrow> ind = blanks (length ind) \<and> 512 \<le> length ind \<and> i \<le> length ind"

lemma blank_ind_grow:
  "blank_ind i ind \<Longrightarrow> k \<le> 512 \<Longrightarrow> blank_ind (i + k) (grow_indent (i + k) ind)"
  unfolding blank_ind_def grow_indent_def blanks_def
  by (auto simp: replicate_add)

lemma blank_ind_grow_length: "length ind \<le> length (grow_indent n ind)"
  by (simp add: grow_indent_def)

lemma blank_ind_take: "blank_ind i ind \<Longrightarrow> take i ind = blanks i"
  by (metis blank_ind_def blanks_def min.absorb1 take_replicate)

lemma blank_ind_mono: "blank_ind i ind \<Longrightarrow> j \<le> i \<Longrightarrow> blank_ind j ind"
  by (auto simp: blank_ind_def)

lemma join_Cons: "xs \<noteq> [] \<Longrightarrow> join sep (x # xs) = x @ sep @ join sep xs"
  by (cases xs) auto

lemma dump_escaped_cases:
  obtains "utf8_valid s" "dump_escaped s False = Inr (concat (map esc_byte s))"
    | w where "\<not> utf8_valid s" "dump_escaped s False = Inl (Json_Type_Error 316 w)"
  using dump_escaped_valid dump_escaped_invalid by blast

definition item :: "dump_opts \<Rightarrow> nat \<Rightarrow> string \<Rightarrow> string" where
  "item opts i x = (if do_pretty opts then blanks i @ x else x)"

definition sep :: "dump_opts \<Rightarrow> string" where
  "sep opts = (if do_pretty opts then '','' @ nl else '','')"

definition printed :: "dump_opts \<Rightarrow> nat \<Rightarrow> bool \<Rightarrow> string \<Rightarrow> (string \<times> string) result \<Rightarrow> bool" where
  "printed opts i valid text r =
     (case r of
        Inl e \<Rightarrow> \<not> valid \<and> (\<exists>w. e = Json_Type_Error 316 w)
      | Inr (out, ind) \<Rightarrow> valid \<and> out = text \<and> blank_ind i ind)"

lemma bracketed_opts:
  "items \<noteq> [] \<Longrightarrow> bracketed (opts_step opts) i l r items =
     l # (if do_pretty opts then nl else []) @
     join (sep opts) (map (item opts (deeper (opts_step opts) i)) items) @
     (if do_pretty opts then nl @ blanks i else []) @ [r]"
  by (simp add: bracketed_def opts_step_def sep_def item_def [abs_def] deeper_def)

lemma printed_mono: "printed opts i v t r \<Longrightarrow> j \<le> i \<Longrightarrow> printed opts j v t r"
  by (auto simp: printed_def blank_ind_mono split: sum.splits prod.splits)

lemma printed_cases:
  assumes "printed opts i v t r"
  obtains ind where "v" "r = Inr (t, ind)" "blank_ind i ind"
    | w where "\<not> v" "r = Inl (Json_Type_Error 316 w)"
  using assms by (auto simp: printed_def split: sum.splits)

text \<open>Objects and arrays that are not empty, from what is printed one level deeper.\<close>

lemma level_deeper:
  assumes "opts_ok opts" and "blank_ind i ind"
  shows "blank_ind (i + do_step opts) (grow_indent (i + do_step opts) ind)" "i \<le> deeper (opts_step opts) i"
  using blank_ind_grow assms by (simp_all add: opts_ok_def deeper_def split: option.splits)

lemma object_printed:
  assumes "m \<noteq> []" and "i' = deeper (opts_step opts) i" and "i \<le> i'"
    and "printed opts i' (list_all (\<lambda>kv. utf8_valid (fst kv) \<and> json_utf8 (snd kv)) m)
       (join (sep opts) (map (\<lambda>kv. item opts i' (quoted (fst kv) @ colon (opts_step opts) @
          json_text (opts_step opts) i' (snd kv))) m))
       (if do_pretty opts then dump_members opts (i + do_step opts) (grow_indent (i + do_step opts) ind) m
        else dump_members opts i ind m)"
  shows "printed opts i (json_utf8 (Json_Object m)) (json_text (opts_step opts) i (Json_Object m)) (dump opts i ind (Json_Object m))"
  using assms(4)
  by (cases rule: printed_cases)
    (use assms(1,3) in \<open>auto simp: printed_def bracketed_opts assms(2) [symmetric] comp_def blank_ind_mono Let_def
       intro: blank_ind_take [OF blank_ind_mono] split: if_splits\<close>)

lemma array_printed:
  assumes "xs \<noteq> []" and "i' = deeper (opts_step opts) i" and "i \<le> i'"
    and "printed opts i' (list_all json_utf8 xs)
       (join (sep opts) (map (\<lambda>x. item opts i' (json_text (opts_step opts) i' x)) xs))
       (if do_pretty opts then dump_elements opts (i + do_step opts) (grow_indent (i + do_step opts) ind) xs
        else dump_elements opts i ind xs)"
  shows "printed opts i (json_utf8 (Json_Array xs)) (json_text (opts_step opts) i (Json_Array xs)) (dump opts i ind (Json_Array xs))"
  using assms(4)
  by (cases rule: printed_cases)
    (use assms(1,3) in \<open>auto simp: printed_def bracketed_opts assms(2) [symmetric] comp_def blank_ind_mono Let_def
       intro: blank_ind_take [OF blank_ind_mono] split: if_splits\<close>)

text \<open>The elements of an array and the members of an object, from the first and the rest.\<close>

lemma elements_printed:
  assumes "blank_ind i ind"
    and first: "printed opts i (json_utf8 x) (json_text (opts_step opts) i x) (dump opts i ind x)"
    and rest: "\<And>t ind1. dump opts i ind x = Inr (t, ind1) \<Longrightarrow> blank_ind i ind1 \<Longrightarrow> rest \<noteq> [] \<Longrightarrow>
      printed opts i (list_all json_utf8 rest)
        (join (sep opts) (map (\<lambda>x. item opts i (json_text (opts_step opts) i x)) rest)) (dump_elements opts i ind1 rest)"
  shows "printed opts i (list_all json_utf8 (x # rest))
    (join (sep opts) (map (\<lambda>x. item opts i (json_text (opts_step opts) i x)) (x # rest))) (dump_elements opts i ind (x # rest))"
  using first
proof (cases rule: printed_cases)
  case (1 ind1)
  show ?thesis
  proof (cases "rest = []")
    case True
    then show ?thesis using 1 assms(1) by (auto simp: printed_def item_def blank_ind_take)
  next
    case False
    show ?thesis
      using rest [OF 1(2,3) False]
      by (cases rule: printed_cases)
        (use 1 assms(1) False in \<open>auto simp: printed_def item_def sep_def join_Cons blank_ind_take\<close>)
  qed
qed (auto simp: printed_def)

lemma members_printed:
  assumes "blank_ind i ind" and asc: "do_ascii opts = False"
    and first: "printed opts i (json_utf8 (snd kv)) (json_text (opts_step opts) i (snd kv)) (dump opts i ind (snd kv))"
    and rest: "\<And>t ind1. dump opts i ind (snd kv) = Inr (t, ind1) \<Longrightarrow> blank_ind i ind1 \<Longrightarrow> rest \<noteq> [] \<Longrightarrow>
      printed opts i (list_all (\<lambda>kv. utf8_valid (fst kv) \<and> json_utf8 (snd kv)) rest)
        (join (sep opts) (map (\<lambda>kv. item opts i (quoted (fst kv) @ colon (opts_step opts) @
          json_text (opts_step opts) i (snd kv))) rest)) (dump_members opts i ind1 rest)"
    and key: "utf8_valid (fst kv)" "dump_escaped (fst kv) (do_ascii opts) = Inr k" "quoted (fst kv) = dq @ k @ dq"
  shows "printed opts i (list_all (\<lambda>kv. utf8_valid (fst kv) \<and> json_utf8 (snd kv)) (kv # rest))
    (join (sep opts) (map (\<lambda>kv. item opts i (quoted (fst kv) @ colon (opts_step opts) @
      json_text (opts_step opts) i (snd kv))) (kv # rest))) (dump_members opts i ind (kv # rest))"
  using first
proof (cases rule: printed_cases)
  case (1 ind1)
  show ?thesis
  proof (cases "rest = []")
    case True
    then show ?thesis
      using 1 key assms(1) by (auto simp: printed_def item_def blank_ind_take colon_def opts_step_def)
  next
    case False
    show ?thesis
      using rest [OF 1(2,3) False]
      by (cases rule: printed_cases)
        (use 1 key assms(1) False in
          \<open>auto simp: printed_def item_def sep_def join_Cons blank_ind_take colon_def opts_step_def\<close>)
  qed
qed (use key in \<open>auto simp: printed_def\<close>)

lemma dump_printed:
  "opts_ok opts \<Longrightarrow> blank_ind i ind \<Longrightarrow>
     printed opts i (json_utf8 j) (json_text (opts_step opts) i j) (dump opts i ind j)"
  "opts_ok opts \<Longrightarrow> blank_ind i ind \<Longrightarrow>
     printed opts i (list_all json_utf8 xs)
       (join (sep opts) (map (\<lambda>x. item opts i (json_text (opts_step opts) i x)) xs))
       (dump_elements opts i ind xs)"
  "opts_ok opts \<Longrightarrow> blank_ind i ind \<Longrightarrow>
     printed opts i (list_all (\<lambda>kv. utf8_valid (fst kv) \<and> json_utf8 (snd kv)) m)
       (join (sep opts) (map (\<lambda>kv. item opts i (quoted (fst kv) @ colon (opts_step opts) @
          json_text (opts_step opts) i (snd kv))) m))
       (dump_members opts i ind m)"
proof (induction opts i ind j and opts i ind xs and opts i ind m rule: dump_dump_elements_dump_members.induct)
  case (1 opts i ind m)
  show ?case
  proof (cases "m = []")
    case False
    show ?thesis
      by (rule object_printed [OF False refl level_deeper(2) [OF "1.prems"]])
        (use "1.IH" [OF False] "1.prems" level_deeper [OF "1.prems"] in \<open>simp add: deeper_def opts_step_def\<close>)
  qed (use "1.prems" in \<open>simp add: printed_def bracketed_def\<close>)
next
  case (2 opts i ind xs)
  show ?case
  proof (cases "xs = []")
    case False
    show ?thesis
      by (rule array_printed [OF False refl level_deeper(2) [OF "2.prems"]])
        (use "2.IH" [OF False] "2.prems" level_deeper [OF "2.prems"] in \<open>simp add: deeper_def opts_step_def\<close>)
  qed (use "2.prems" in \<open>simp add: printed_def bracketed_def\<close>)
next
  case (3 opts i ind s)
  then show ?case
    by (cases rule: dump_escaped_cases [of s]) (auto simp: printed_def quoted_def opts_ok_def)
next
  case (11 opts i ind x rest)
  show ?case
    by (rule elements_printed [OF "11.prems"(2) "11.IH"(1) [OF "11.prems"]])
      (rule "11.IH"(2) [OF _ refl refl _ "11.prems"(1)])
next
  case (13 opts i ind kv rest)
  have asc: "do_ascii opts = False" using "13.prems" by (simp add: opts_ok_def)
  show ?case
  proof (cases rule: dump_escaped_cases [of "fst kv"])
    case 1
    note key = 1(2) [folded asc]
    show ?thesis
      by (rule members_printed [OF "13.prems"(2) asc "13.IH"(1) [OF key "13.prems"] _ 1(1) key quoted_def])
        (rule "13.IH"(2) [OF key _ refl refl _ "13.prems"(1)])
  qed (auto simp: printed_def asc)
qed (simp_all add: printed_def dump_integer_to_string)

lemma json_dump_cases:
  assumes "indent \<le> 512"
  obtains "json_utf8 j" "json_dump indent j =
      Inr (json_text (if 0 \<le> indent then Some (nat indent) else None) 0 j)"
    | w where "\<not> json_utf8 j" "json_dump indent j = Inl (Json_Type_Error 316 w)"
proof -
  define opts where "opts = \<lparr>do_pretty = (0 \<le> indent), do_ascii = False,
              do_step = (if 0 \<le> indent then nat indent else 0)\<rparr>"
  have "opts_ok opts" "blank_ind 0 (blanks 512)"
    using assms by (auto simp: opts_def opts_ok_def blank_ind_def blanks_def)
  then have "printed opts 0 (json_utf8 j) (json_text (opts_step opts) 0 j) (dump opts 0 (blanks 512) j)"
    using dump_printed(1) [of opts 0 "blanks 512" j] by simp
  moreover have "opts_step opts = (if 0 \<le> indent then Some (nat indent) else None)"
    by (simp add: opts_def opts_step_def)
  moreover have "json_dump indent j = map_sum id fst (dump opts 0 (blanks 512) j)"
    by (simp add: json_dump_def opts_def blanks_def)
  ultimately show thesis
    using that by (auto elim!: printed_cases)
qed

lemma json_dump_text:
  "indent \<le> 512 \<Longrightarrow> json_utf8 j \<Longrightarrow>
     json_dump indent j = Inr (json_text (if 0 \<le> indent then Some (nat indent) else None) 0 j)"
  by (rule json_dump_cases) auto

lemma json_dump_invalid:
  "indent \<le> 512 \<Longrightarrow> \<not> json_utf8 j \<Longrightarrow> \<exists>w. json_dump indent j = Inl (Json_Type_Error 316 w)"
  by (rule json_dump_cases) auto

section \<open>Properties\<close>

text \<open>C21: escaping. For a string that is valid UTF-8 \<open>dump_escaped\<close> writes the bytes of the
  string, each replaced by its escape where it has one; for every other string it throws
  the error 316. The decoder table of the serializer thereby accepts exactly the byte
  sequences that the ranges of the lexer accept.\<close>

theorem dump_escaped_result:
  "if utf8_valid s then dump_escaped s False = Inr (concat (map esc_byte s))
   else \<exists>w. dump_escaped s False = Inl (Json_Type_Error 316 w)"
  by (rule dump_escaped_cases [of s]) auto

text \<open>C23: the fixed buffer of 512 bytes is never overrun: after any prefix of the string,
  what the next byte writes fits, the terminating NUL of \<open>snprintf\<close> included.\<close>

theorem string_buffer_bound:
  assumes "dump_escaped_loop ensure_ascii i s esc_init = Inr e"
    and "decode (es_state e) (es_codepoint e) (of_char c) = (st, cp)"
  shows "length (es_buffer e) + 1 \<le> 512 \<and>
     (st = 0 \<longrightarrow> length (es_buffer e) + length (escape_codepoint ensure_ascii cp c) + 1 \<le> 512)"
  using buffer_space [OF buf_inv_loop [OF buf_inv_init assms(1)] assms(2)] by blast

theorem string_buffer_bound_witness:
  "\<exists>e. dump_escaped_loop True 0 ''a'' esc_init = Inr e \<and>
     length (es_buffer e) + length (escape_codepoint True 10 (CHR 0x0A)) + 1 \<le> 512"
proof -
  obtain e where e: "dump_escaped_loop True 0 ''a'' esc_init = Inr e" "es_state e = 0" "es_codepoint e = 97"
    by (simp add: dump_escaped_byte_def esc_init_def decode_def utf8d_def flush_buffer_def Let_def nth_append)
  have "decode 0 97 (of_char (CHR 0x0A)) = (0, 10)" by code_simp
  then show ?thesis
    using string_buffer_bound [OF e(1), of "CHR 0x0A" 0 10] e by auto
qed

lemma to_string_nat_length: "n < 10 ^ k \<Longrightarrow> 0 < k \<Longrightarrow> length (to_string_nat n) \<le> k"
proof (induction n arbitrary: k rule: to_string_nat.induct)
  case (1 n)
  show ?case
  proof (cases "n < 10")
    case True
    then show ?thesis using "1.prems" by (simp add: to_string_nat.simps [of n])
  next
    case False
    then have "k \<noteq> 1" using "1.prems" by auto
    then obtain m where k: "k = Suc m" "0 < m" using "1.prems"(2) by (cases k) auto
    have "n div 10 < 10 ^ m" using "1.prems"(1) k(1) by (simp add: less_mult_imp_div_less mult.commute)
    then show ?thesis using "1.IH" [OF False _ k(2)] False k(1) by (simp add: to_string_nat.simps [of n])
  qed
qed

text \<open>\<open>dump_integer\<close> writes the decimal notation of every 64-bit value, signed or
  unsigned, the most negative one included, and never more than 20 characters into its
  buffer of 64.\<close>

lemma dump_integer_decimal:
  "dump_integer (sint (w :: 64 word)) = to_string_int (sint w) \<and>
   dump_integer (uint w) = to_string_int (uint w) \<and>
   length (dump_integer (sint w)) \<le> 20 \<and> length (dump_integer (uint w)) \<le> 20"
proof -
  have u: "unat w < 10 ^ 20"
    by (rule order_less_le_trans [OF unsigned_less]) simp
  have "- (2 ^ 63) \<le> sint w" "sint w < 2 ^ 63"
    using sint_range_size [of w] by (simp_all add: word_size)
  then have s: "nat (sint w) < 10 ^ 19" "nat (- sint w) < 10 ^ 19" by auto
  have "length (to_string_int (sint w)) \<le> 20"
    using to_string_nat_length [OF s(1)] to_string_nat_length [OF s(2)] by (simp add: to_string_int_def)
  moreover have "length (to_string_int (uint w)) \<le> 20"
    using to_string_nat_length [OF u] by (simp add: to_string_int_def)
  ultimately show ?thesis by (simp add: dump_integer_to_string)
qed

text \<open>C22: \<open>basic_json::dump\<close> with an indentation of at most 512 writes the text that
  \<open>json_text\<close> defines by recursion on the value, and throws error 316 exactly when a
  string or a key in the value is not valid UTF-8.\<close>

theorem dump_prints_value:
  assumes "indent \<le> 512"
  shows "if json_utf8 j
    then json_dump indent j = Inr (json_text (if 0 \<le> indent then Some (nat indent) else None) 0 j)
    else \<exists>w. json_dump indent j = Inl (Json_Type_Error 316 w)"
  using json_dump_text [OF assms] json_dump_invalid [OF assms] by simp

theorem dump_prints_value_witness:
  "json_dump 2 (Json_Object [(''a'', Json_Array [Json_Unsigned 7, Json_Null])]) =
     Inr (json_text (Some 2) 0 (Json_Object [(''a'', Json_Array [Json_Unsigned 7, Json_Null])]))"
  using dump_prints_value [of 2 "Json_Object [(''a'', Json_Array [Json_Unsigned 7, Json_Null])]"]
  by (simp add: utf8_valid_def)

end
