(* ===== verification/Grisu2_Scaling.thy ===== *)
theory Grisu2_Scaling
  imports Grisu2 Complex_Main
begin

text \<open>
  The scaling of the boundaries: multiplication rounds the exact product, the boundaries are
  normalised to one exponent, every entry of the table of powers of ten is within half a unit
  in the last place, and the entry taken for an exponent puts the products in the range that
  the digit generation works on.
\<close>

unbundle bit_operations_syntax

section \<open>Multiplication rounds the upper half of the product\<close>

lemma unat_mult_small: "unat a * unat b < 2 ^ 64 \<Longrightarrow> unat (a * b) = unat a * unat (b :: 64 word)"
  by (simp add: unat_mult_lem [THEN iffD1])

lemma unat_add_small: "unat a + unat b < 2 ^ 64 \<Longrightarrow> unat (a + b) = unat a + unat (b :: 64 word)"
  by (simp add: unat_add_lem [THEN iffD1])

lemma unat_add4:
  assumes "unat a + unat b + unat c + unat d < 2 ^ 64"
  shows "unat (a + b + c + d) = unat a + unat b + unat c + unat (d :: 64 word)"
  using assms unat_add_small [of a b] unat_add_small [of "a + b" c] unat_add_small [of "a + b + c" d] by simp

lemma unat_low: "unat (a AND 0xFFFFFFFF) = unat (a :: 64 word) mod 2 ^ 32"
proof -
  have "a AND 0xFFFFFFFF = take_bit 32 a"
    by (simp add: take_bit_eq_mask mask_eq_exp_minus_1)
  moreover have "unat (take_bit 32 a) = take_bit 32 (unat a)" by (rule unsigned_take_bit_eq)
  ultimately show ?thesis by (simp only: take_bit_eq_mod)
qed

lemma unat_high: "unat (drop_bit n a) = unat (a :: 64 word) div 2 ^ n"
  by (subst unat_drop_bit_eq) (rule drop_bit_eq_div)

lemma product_halves:
  fixes x y :: nat
  assumes "x < 2 ^ 64" and "y < 2 ^ 64"
  defines "u \<equiv> x mod 2 ^ 32" and "U \<equiv> x div 2 ^ 32" and "v \<equiv> y mod 2 ^ 32" and "V \<equiv> y div 2 ^ 32"
  shows "U * V + U * v div 2 ^ 32 + u * V div 2 ^ 32 +
      (u * v div 2 ^ 32 + u * V mod 2 ^ 32 + U * v mod 2 ^ 32 + 2 ^ 31) div 2 ^ 32 = (x * y + 2 ^ 63) div 2 ^ 64"
proof -
  let ?B = "2 ^ 32 :: nat"
  define Q where "Q = u * v div ?B + u * V mod ?B + U * v mod ?B"
  have x: "x = U * ?B + u" and y: "y = V * ?B + v"
    by (simp_all add: u_def U_def v_def V_def)
  have "x * y = U * V * ?B * ?B + (U * v + u * V) * ?B + u * v"
    unfolding x y by (simp add: algebra_simps)
  also have "u * v = (u * v div ?B) * ?B + u * v mod ?B" by simp
  also have "U * v = (U * v div ?B) * ?B + U * v mod ?B" by simp
  also have "u * V = (u * V div ?B) * ?B + u * V mod ?B" by simp
  finally have xy: "x * y = (U * V + U * v div ?B + u * V div ?B) * (?B * ?B) + Q * ?B + u * v mod ?B"
    unfolding Q_def by (simp only: algebra_simps)
  have "(Q * ?B + u * v mod ?B + 2 ^ 63) div (?B * ?B) = (Q * ?B + u * v mod ?B + 2 ^ 31 * ?B) div ?B div ?B"
    by (simp add: div_mult2_eq)
  also have "(Q * ?B + u * v mod ?B + 2 ^ 31 * ?B) div ?B = Q + 2 ^ 31"
  proof -
    have "Q * ?B + u * v mod ?B + 2 ^ 31 * ?B = u * v mod ?B + (Q + 2 ^ 31) * ?B" by (simp add: algebra_simps)
    then show ?thesis by (simp add: div_mult_self1)
  qed
  finally have "(x * y + 2 ^ 63) div (?B * ?B) = U * V + U * v div ?B + u * V div ?B + (Q + 2 ^ 31) div ?B"
    unfolding xy by (simp add: add.assoc div_mult_self4 mult.commute)
  then show ?thesis by (simp add: Q_def)
qed

text \<open>The four partial products, none of which overflows.\<close>

lemma half_product:
  assumes "a < 2 ^ 32" "c < 2 ^ 32"
  shows "a * c < 2 ^ 64 - (2 :: nat) ^ 32"
proof -
  have "a * c \<le> (2 ^ 32 - 1) * (2 ^ 32 - 1)" using assms by (intro mult_le_mono) simp_all
  then show ?thesis by simp
qed

lemma half_bounds: "unat x mod 2 ^ 32 < 2 ^ 32" "unat (x :: 64 word) div 2 ^ 32 < 2 ^ 32"
proof -
  have "unat x < 2 ^ 64" using unsigned_less [of x] by simp
  then show "unat x mod 2 ^ 32 < 2 ^ 32" "unat x div 2 ^ 32 < 2 ^ 32" by (simp_all add: less_mult_imp_div_less)
qed

lemma partial_products:
  fixes x y :: "64 word"
  defines "u \<equiv> unat x mod 2 ^ 32" and "U \<equiv> unat x div 2 ^ 32" and "v \<equiv> unat y mod 2 ^ 32" and "V \<equiv> unat y div 2 ^ 32"
  shows "unat ((x AND 0xFFFFFFFF) * (y AND 0xFFFFFFFF)) = u * v" "unat ((x AND 0xFFFFFFFF) * drop_bit 32 y) = u * V"
    "unat (drop_bit 32 x * (y AND 0xFFFFFFFF)) = U * v" "unat (drop_bit 32 x * drop_bit 32 y) = U * V"
proof -
  have b: "u < 2 ^ 32" "v < 2 ^ 32" "U < 2 ^ 32" "V < 2 ^ 32"
    unfolding u_def U_def v_def V_def by (rule half_bounds)+
  have m: "unat (a * c) = unat a * unat c" if "unat a < 2 ^ 32" "unat c < 2 ^ 32" for a c :: "64 word"
    using half_product [OF that] by (intro unat_mult_small) simp
  have h: "unat (x AND 0xFFFFFFFF) = u" "unat (drop_bit 32 x) = U" "unat (y AND 0xFFFFFFFF) = v" "unat (drop_bit 32 y) = V"
    unfolding unat_low unat_high u_def U_def v_def V_def by (rule refl)+
  show "unat ((x AND 0xFFFFFFFF) * (y AND 0xFFFFFFFF)) = u * v" "unat ((x AND 0xFFFFFFFF) * drop_bit 32 y) = u * V"
    "unat (drop_bit 32 x * (y AND 0xFFFFFFFF)) = U * v" "unat (drop_bit 32 x * drop_bit 32 y) = U * V"
    using m b unfolding h [symmetric] by simp_all
qed

lemma mul_value: "unat (df_f (diyfp_mul x y)) = (unat (df_f x) * unat (df_f y) + 2 ^ 63) div 2 ^ 64"
proof -
  let ?x = "unat (df_f x)" and ?y = "unat (df_f y)"
  let ?B = "2 ^ 32 :: nat"
  define u U v V where "u = ?x mod ?B" and "U = ?x div ?B" and "v = ?y mod ?B" and "V = ?y div ?B"
  have lt: "?x < 2 ^ 64" "?y < 2 ^ 64" using unsigned_less [of "df_f x"] unsigned_less [of "df_f y"] by simp_all
  note p = partial_products [of "df_f x" "df_f y", folded u_def U_def v_def V_def]
  have b: "u < ?B" "v < ?B" "U < ?B" "V < ?B" unfolding u_def U_def v_def V_def by (rule half_bounds)+
  have d: "u * v div ?B < ?B" "u * V div ?B < ?B" "U * v div ?B < ?B" "u * V mod ?B < ?B" "U * v mod ?B < ?B"
    using half_product [OF b(1,2)] half_product [OF b(1,4)] half_product [OF b(3,2)] by (simp_all add: less_mult_imp_div_less)
  let ?Q = "drop_bit 32 ((df_f x AND 0xFFFFFFFF) * (df_f y AND 0xFFFFFFFF)) +
      ((df_f x AND 0xFFFFFFFF) * drop_bit 32 (df_f y) AND 0xFFFFFFFF) +
      (drop_bit 32 (df_f x) * (df_f y AND 0xFFFFFFFF) AND 0xFFFFFFFF)"
  have Q: "unat ?Q = u * v div ?B + u * V mod ?B + U * v mod ?B"
    using d by (subst unat_add_small; (subst unat_add_small)?; simp add: unat_low unat_high p)
  have Q': "unat (?Q + 0x80000000) = u * v div ?B + u * V mod ?B + U * v mod ?B + 2 ^ 31"
    using d by (subst unat_add_small) (simp_all add: Q)
  have sum: "U * V + U * v div ?B + u * V div ?B + (u * v div ?B + u * V mod ?B + U * v mod ?B + 2 ^ 31) div ?B
      = (?x * ?y + 2 ^ 63) div 2 ^ 64"
    unfolding u_def U_def v_def V_def by (rule product_halves [OF lt])
  have "?x * ?y \<le> (2 ^ 64 - 1) * (2 ^ 64 - 1)" using lt by (intro mult_le_mono) simp_all
  then have "(?x * ?y + 2 ^ 63) div 2 ^ 64 < 2 ^ 64" by (simp add: less_mult_imp_div_less)
  note small = this [folded sum]
  have one: "push_bit (64 - 32 - 1) 1 = (0x80000000 :: 64 word)" by simp
  show ?thesis
    unfolding sum [symmetric] diyfp_mul_def Let_def one diyfp.simps
    by (subst unat_add4; simp only: unat_high p Q' small)
qed

section \<open>Boundaries\<close>

text \<open>Whether the double below is half as far away as the one above.\<close>

definition closer :: "nat \<Rightarrow> int \<Rightarrow> bool" where
  "closer m e \<longleftrightarrow> m = 2 ^ 52 \<and> - 1074 < e"

lemma unat_lt_64: "unat (a :: 64 word) < 2 ^ 64"
  using unsigned_less [of a] by simp

lemma unat_of_nat_small: "k < 2 ^ 64 \<Longrightarrow> unat (of_nat k :: 64 word) = k"
  by (simp add: unsigned_of_nat take_bit_nat_eq_self)

lemma unat_exp: "n < 64 \<Longrightarrow> unat (2 ^ n :: 64 word) = 2 ^ n"
proof -
  assume n: "n < 64"
  then have "(2 :: nat) ^ n < 2 ^ 64" by (intro power_strict_increasing) simp_all
  then have "unat (of_nat (2 ^ n) :: 64 word) = 2 ^ n" by (rule unat_of_nat_small)
  then show ?thesis by simp
qed

lemma drop_bit_63: "drop_bit 63 (f :: 64 word) = 0 \<longleftrightarrow> unat f < 2 ^ 63"
proof -
  have "drop_bit 63 f = 0 \<longleftrightarrow> unat f div 2 ^ 63 = 0" by (metis unat_eq_0 unat_high)
  then show ?thesis by (metis div_eq_0_iff power_not_zero zero_neq_numeral)
qed

lemma unat_push:
  assumes "unat a * 2 ^ n < 2 ^ 64"
  shows "unat (push_bit n a) = unat (a :: 64 word) * 2 ^ n"
proof (cases "unat a = 0")
  case True
  then have "a = 0" by (simp add: unat_eq_0)
  then show ?thesis by simp
next
  case False
  then have "(2 :: nat) ^ n \<le> unat a * 2 ^ n" by simp
  then have "n < 64" using assms by (metis le_less_trans nat_power_less_imp_less zero_less_numeral)
  then have "unat (2 ^ n :: 64 word) = 2 ^ n" by (simp add: unat_exp)
  then show ?thesis using assms unat_mult_small [of a "2 ^ n"] by (simp add: push_bit_eq_mult)
qed

lemma normalize_loop_value:
  assumes "f \<noteq> 0" and "normalize_loop f e = (f', e')"
  shows "\<exists>s :: nat. unat f' = unat f * 2 ^ s \<and> e' = e - int s \<and> 2 ^ 63 \<le> unat f'"
  using assms
proof (induction f e arbitrary: f' e' rule: normalize_loop.induct)
  case (1 f e)
  show ?case
  proof (cases "drop_bit 63 f = 0")
    case True
    then have small: "unat f * 2 ^ 1 < 2 ^ 64" by (simp add: drop_bit_63)
    have f: "unat (push_bit 1 f) = unat f * 2" using unat_push [OF small] by simp
    then have "push_bit 1 f \<noteq> 0" using 1(2) by (metis mult_eq_0_iff unat_eq_0 zero_neq_numeral)
    moreover have "normalize_loop (push_bit 1 f) (e - 1) = (f', e')"
      using 1(2,3) True by (subst (asm) normalize_loop.simps) simp
    ultimately obtain s where "unat f' = unat (push_bit 1 f) * 2 ^ s" "e' = e - 1 - int s" "2 ^ 63 \<le> unat f'"
      using 1(1) True 1(2) by blast
    then show ?thesis using f by (intro exI [of _ "Suc s"]) simp
  next
    case False
    then have "2 ^ 63 \<le> unat f" by (simp only: drop_bit_63 not_less)
    moreover have "f' = f" "e' = e" using 1(3) False by (subst (asm) normalize_loop.simps; simp)+
    ultimately show ?thesis by (intro exI [of _ 0]) simp
  qed
qed

lemma normalize_value:
  assumes "df_f x \<noteq> 0"
  shows "\<exists>s :: nat. unat (df_f (diyfp_normalize x)) = unat (df_f x) * 2 ^ s \<and> df_e (diyfp_normalize x) = df_e x - int s \<and>
    2 ^ 63 \<le> unat (df_f x) * 2 ^ s \<and> unat (df_f x) * 2 ^ s < 2 ^ 64"
proof -
  obtain f' e' where n: "normalize_loop (df_f x) (df_e x) = (f', e')" by fastforce
  obtain s :: nat where "unat f' = unat (df_f x) * 2 ^ s" "e' = df_e x - int s" "2 ^ 63 \<le> unat f'"
    using normalize_loop_value [OF assms n] by blast
  then show ?thesis using unat_lt_64 [of f'] by (intro exI [of _ s]) (simp add: diyfp_normalize_def n)
qed

lemma shift_unique:
  fixes a :: nat
  assumes "2 ^ 63 \<le> a * 2 ^ s" "a * 2 ^ s < 2 ^ 64" "2 ^ 63 \<le> a * 2 ^ t" "a * 2 ^ t < 2 ^ 64"
  shows "s = t"
proof -
  have False if "a * 2 ^ s < 2 ^ 64" "2 ^ 63 \<le> a * 2 ^ s" "2 ^ 63 \<le> a * 2 ^ t" "a * 2 ^ t < 2 ^ 64" "s < t" for s t
  proof -
    have "(2 :: nat) * 2 ^ s \<le> 2 ^ t" using that(5) by (metis Suc_leI power_Suc power_increasing one_le_numeral)
    then have "2 * (a * 2 ^ s) \<le> a * 2 ^ t" by (metis mult.left_commute mult_le_mono2)
    moreover have "2 * x \<le> y \<Longrightarrow> 2 ^ 63 \<le> x \<Longrightarrow> \<not> y < 2 ^ 64" for x y :: nat by simp
    ultimately show False using that(2,4) by blast
  qed
  then show ?thesis using assms by (metis linorder_neqE_nat)
qed

lemma bits_fields:
  assumes "canonical m e"
  defines "E \<equiv> drop_bit (kPrecision - 1) (reinterpret_bits m e)"
    and "F \<equiv> reinterpret_bits m e AND (kHiddenBit - 1)"
  shows "unat E = (if m < 2 ^ 52 then 0 else nat (e + 1075))" "unat F = m mod 2 ^ 52"
proof -
  have m: "m < 2 ^ 53" "0 < m" and e: "- 1074 \<le> e" "e \<le> 971" using assms by (auto simp: canonical_def)
  let ?b = "reinterpret_bits m e"
  define E' where "E' = (if m < 2 ^ 52 then 0 else nat (e + 1075))"
  have E': "E' < 2 ^ 11" using e by (auto simp: E'_def)
  have b: "unat ?b = E' * 2 ^ 52 + m mod 2 ^ 52"
  proof (cases "m < 2 ^ 52")
    case True
    then have "unat (of_nat m :: 64 word) = m" by (intro unat_of_nat_small) simp
    then show ?thesis using True by (simp add: E'_def reinterpret_bits_def)
  next
    case False
    have c: "m - 2 ^ 52 < 2 ^ 52" "m mod 2 ^ 52 = m - 2 ^ 52" using m False by (auto simp: mod_if)
    have "(of_int (e + kBias) :: 64 word) = of_nat E'"
      using e False by (simp add: E'_def kBias_def kPrecision_def)
    then have "unat (of_int (e + kBias) :: 64 word) = E'"
      using E' by (simp only:) (rule unat_of_nat_small, simp)
    then have h: "unat (push_bit 52 (of_int (e + kBias) :: 64 word)) = E' * 2 ^ 52"
      using E' by (subst unat_push) simp_all
    have l: "unat (of_nat (m - 2 ^ 52) :: 64 word) = m - 2 ^ 52"
      using c by (intro unat_of_nat_small) simp
    have "E' * 2 ^ 52 + (m - 2 ^ 52) < 2 ^ 64" using E' c(1) by simp
    then have "unat (push_bit 52 (of_int (e + kBias) :: 64 word) + of_nat (m - 2 ^ 52)) = E' * 2 ^ 52 + (m - 2 ^ 52)"
      by (subst unat_add_small) (simp_all only: h l)
    then show ?thesis using False by (simp only: reinterpret_bits_def if_False c(2))
  qed
  show "unat E = (if m < 2 ^ 52 then 0 else nat (e + 1075))"
    unfolding E_def kPrecision_def unat_high by (simp add: b) (simp add: E'_def)
  have "F = take_bit 52 ?b"
    by (simp add: F_def kHiddenBit_def kPrecision_def take_bit_eq_mask mask_eq_exp_minus_1)
  then have "unat F = unat ?b mod 2 ^ 52" by (metis take_bit_eq_mod unsigned_take_bit_eq)
  then show "unat F = m mod 2 ^ 52" by (simp add: b)
qed

lemma boundary_value:
  assumes "canonical m e"
  shows "compute_boundaries m e =
      (let v = \<lparr>df_f = of_nat m, df_e = e\<rparr>;
           m_plus = \<lparr>df_f = 2 * df_f v + 1, df_e = e - 1\<rparr>;
           m_minus = (if closer m e then \<lparr>df_f = 4 * df_f v - 1, df_e = e - 2\<rparr> else \<lparr>df_f = 2 * df_f v - 1, df_e = e - 1\<rparr>);
           w_plus = diyfp_normalize m_plus
       in \<lparr>bd_w = diyfp_normalize v, bd_minus = diyfp_normalize_to m_minus (df_e w_plus), bd_plus = w_plus\<rparr>)"
proof -
  define E where "E = drop_bit (kPrecision - 1) (reinterpret_bits m e)"
  define F where "F = reinterpret_bits m e AND (kHiddenBit - 1)"
  have m: "m < 2 ^ 53" "0 < m" and e: "- 1074 \<le> e" "e \<le> 971" "2 ^ 52 \<le> m \<or> e = - 1074"
    using assms by (auto simp: canonical_def)
  have E: "unat E = (if m < 2 ^ 52 then 0 else nat (e + 1075))" and F: "unat F = m mod 2 ^ 52"
    using bits_fields [OF assms] by (simp_all add: E_def F_def)
  have E0: "E = 0 \<longleftrightarrow> m < 2 ^ 52" using E e by (auto simp: unat_eq_0 [symmetric] split: if_splits)
  have "m mod 2 ^ 52 < 2 ^ 64" by (rule less_trans [of _ "2 ^ 52"]) simp_all
  then have Fw: "F = of_nat (m mod 2 ^ 52)"
    using F unat_of_nat_small by (simp only: word_unat_eq_iff)
  have v: "(if E = 0 then \<lparr>df_f = F, df_e = kMinExp\<rparr>
      else \<lparr>df_f = F + kHiddenBit, df_e = sint (ucast E :: 32 word) - kBias\<rparr>) = \<lparr>df_f = of_nat m, df_e = e\<rparr>"
  proof (cases "m < 2 ^ 52")
    case True
    then show ?thesis using e E0 Fw by (simp add: kMinExp_def kBias_def kPrecision_def)
  next
    case False
    then have md: "m = m mod 2 ^ 52 + 2 ^ 52" using m by (auto simp: mod_if)
    have "F + kHiddenBit = of_nat (m mod 2 ^ 52 + 2 ^ 52)"
      by (simp add: Fw kHiddenBit_def kPrecision_def)
    then have f: "F + kHiddenBit = of_nat m" by (simp only: md [symmetric])
    have "unat (ucast E :: 32 word) = nat (e + 1075)"
      using E e False by (simp add: unsigned_ucast_eq take_bit_nat_eq_self)
    then have "uint (ucast E :: 32 word) = e + 1075" using e by (simp only: uint_nat)
    then have "sint (ucast E :: 32 word) = e + 1075"
      using e by (simp add: sint_uint signed_take_bit_int_eq_self)
    then show ?thesis using False E0 f by (simp add: kBias_def kPrecision_def)
  qed
  have cl: "(F = 0 \<and> E > 1) = closer m e"
  proof (cases "m < 2 ^ 52")
    case True
    then show ?thesis using E0 by (simp add: closer_def)
  next
    case False
    then have "unat F = m - 2 ^ 52" "unat E = nat (e + 1075)" using E F m by (auto simp: mod_if)
    then show ?thesis using False e by (auto simp: closer_def unat_eq_0 [symmetric] word_less_nat_alt)
  qed
  show ?thesis
    unfolding compute_boundaries_def Let_def E_def [symmetric] F_def [symmetric] v cl by simp
qed

text \<open>The shift that normalizes \<open>2 m + 1\<close>, and the words of the other boundaries under it.\<close>

lemma boundary_shift:
  assumes "0 < m" "m < 2 ^ 53" and s: "2 ^ 63 \<le> (2 * m + 1) * 2 ^ s" "(2 * m + 1) * 2 ^ s < (2 :: nat) ^ 64"
  shows "10 \<le> s" "s \<le> 62" "2 ^ 63 \<le> m * 2 ^ Suc s" "m * 2 ^ Suc s < 2 ^ 64"
proof -
  show "10 \<le> s"
  proof (rule ccontr)
    assume "\<not> 10 \<le> s"
    then have "(2 :: nat) ^ s \<le> 2 ^ 9" by (intro power_increasing) simp_all
    then have "(2 * m + 1) * 2 ^ s \<le> (2 ^ 54 - 1) * 2 ^ 9" using assms by (intro mult_le_mono) simp_all
    then show False using s(1) by simp
  qed
  show s62: "s \<le> 62"
  proof (rule ccontr)
    assume "\<not> s \<le> 62"
    then have "(2 :: nat) ^ 63 \<le> 2 ^ s" by (intro power_increasing) simp_all
    then have "3 * 2 ^ 63 \<le> (2 * m + 1) * 2 ^ s" using assms by (intro mult_le_mono) simp_all
    then show False using s(2) by simp
  qed
  show "2 ^ 63 \<le> m * 2 ^ Suc s"
  proof (rule ccontr)
    have p: "(2 :: nat) ^ 63 = 2 ^ (63 - s) * 2 ^ s" using s62 by (simp only: power_add [symmetric]) simp
    assume "\<not> 2 ^ 63 \<le> m * 2 ^ Suc s"
    then have "2 * m * 2 ^ s < 2 ^ (63 - s) * 2 ^ s" unfolding p [symmetric] by (simp only: power_Suc not_le mult_ac)
    then have "2 * m < 2 ^ (63 - s)" by (simp only: mult_less_cancel2)
    moreover have "2 ^ (63 - s) \<le> 2 * m + 1" using s(1) unfolding p by (metis mult_le_cancel2 zero_less_numeral zero_less_power)
    moreover have "even ((2 :: nat) ^ (63 - s))" using s62 by simp
    ultimately show False by presburger
  qed
  show "m * 2 ^ Suc s < 2 ^ 64" using s(2) by (simp add: algebra_simps)
qed

lemma boundary_words:
  assumes "0 < m" "m < 2 ^ 53"
  shows "unat (of_nat m :: 64 word) = m" "unat (2 * of_nat m + 1 :: 64 word) = 2 * m + 1"
    "unat (2 * of_nat m - 1 :: 64 word) = 2 * m - 1" "unat (4 * of_nat m - 1 :: 64 word) = 4 * m - 1"
proof -
  let ?f = "of_nat m :: 64 word"
  have "(2 * ?f + 1) = of_nat (2 * m + 1)" "(2 * ?f - 1) = of_nat (2 * m - 1)" "(4 * ?f - 1) = of_nat (4 * m - 1)"
    using assms by (simp_all add: of_nat_diff)
  then show "unat ?f = m" "unat (2 * ?f + 1) = 2 * m + 1" "unat (2 * ?f - 1) = 2 * m - 1" "unat (4 * ?f - 1) = 4 * m - 1"
    using assms by (simp_all only:) (rule unat_of_nat_small, simp)+
qed

lemma minus_boundary:
  assumes "0 < m" "m < 2 ^ 53" "10 \<le> s" "(2 * m + 1) * 2 ^ s < (2 :: nat) ^ 64"
  shows "unat (df_f (diyfp_normalize_to (if c then \<lparr>df_f = 4 * of_nat m - 1, df_e = e - 2\<rparr> else \<lparr>df_f = 2 * of_nat m - 1, df_e = e - 1\<rparr>) (e - 1 - int s))) =
    (if c then (4 * m - 1) * 2 ^ (s - 1) else (2 * m - 1) * 2 ^ s)"
proof (cases c)
  case True
  have n: "nat (int s - 1) = s - Suc 0" using assms(3) by simp
  have p: "(2 :: nat) ^ s = 2 * 2 ^ (s - 1)" using assms(3) by (cases s) simp_all
  have "(4 * m - 1) * 2 ^ (s - 1) \<le> (4 * m + 2) * 2 ^ (s - 1)" by (intro mult_le_mono) simp_all
  also have "\<dots> = (2 * m + 1) * 2 ^ s" by (simp add: p algebra_simps)
  finally have "(4 * m - 1) * 2 ^ (s - 1) < 2 ^ 64" using assms(4) by (rule le_less_trans)
  then show ?thesis
    using True unat_push [of "4 * of_nat m - 1" "s - 1"] by (simp add: diyfp_normalize_to_def n boundary_words [OF assms(1,2)])
next
  case False
  have n: "nat (e - 1 - (e - 1 - int s)) = s" by simp
  have "(2 * m - 1) * 2 ^ s \<le> (2 * m + 1) * 2 ^ s" by (intro mult_le_mono) simp_all
  then have "(2 * m - 1) * 2 ^ s < 2 ^ 64" using assms(4) by (rule le_less_trans)
  then show ?thesis
    using False unat_push [of "2 * of_nat m - 1" s] by (simp add: diyfp_normalize_to_def n boundary_words [OF assms(1,2)])
qed

text \<open>The three significands with their common exponent. The shift \<open>s\<close> makes the upper boundary
  a 64-bit number with its highest bit set.\<close>

lemma compute_boundaries_value:
  assumes "canonical m e"
  shows "\<exists>s. 10 \<le> s \<and> s \<le> 62 \<and>
     unat (df_f (bd_plus (compute_boundaries m e))) = (2 * m + 1) * 2 ^ s \<and>
     unat (df_f (bd_w (compute_boundaries m e))) = 2 * m * 2 ^ s \<and>
     unat (df_f (bd_minus (compute_boundaries m e))) = (if closer m e then (4 * m - 1) * 2 ^ (s - 1) else (2 * m - 1) * 2 ^ s) \<and>
     df_e (bd_plus (compute_boundaries m e)) = e - 1 - int s \<and>
     df_e (bd_w (compute_boundaries m e)) = e - 1 - int s \<and>
     df_e (bd_minus (compute_boundaries m e)) = e - 1 - int s \<and>
     2 ^ 63 \<le> (2 * m + 1) * 2 ^ s \<and> (2 * m + 1) * 2 ^ s < 2 ^ 64"
proof -
  have m: "0 < m" "m < 2 ^ 53" using assms by (auto simp: canonical_def)
  let ?f = "of_nat m :: 64 word"
  note f = boundary_words [OF m]
  have nz: "2 * ?f + 1 \<noteq> 0" "?f \<noteq> 0" using f(1,2) m by (auto simp: unat_eq_0 [symmetric])
  obtain s where s: "unat (df_f (diyfp_normalize \<lparr>df_f = 2 * ?f + 1, df_e = e - 1\<rparr>)) = (2 * m + 1) * 2 ^ s"
      "df_e (diyfp_normalize \<lparr>df_f = 2 * ?f + 1, df_e = e - 1\<rparr>) = e - 1 - int s"
      "2 ^ 63 \<le> (2 * m + 1) * 2 ^ s" "(2 * m + 1) * 2 ^ s < 2 ^ 64"
    using normalize_value [of "\<lparr>df_f = 2 * ?f + 1, df_e = e - 1\<rparr>"] nz(1) by (auto simp: f)
  obtain t where t: "unat (df_f (diyfp_normalize \<lparr>df_f = ?f, df_e = e\<rparr>)) = m * 2 ^ t"
      "df_e (diyfp_normalize \<lparr>df_f = ?f, df_e = e\<rparr>) = e - int t" "2 ^ 63 \<le> m * 2 ^ t" "m * 2 ^ t < 2 ^ 64"
    using normalize_value [of "\<lparr>df_f = ?f, df_e = e\<rparr>"] nz(2) by (auto simp: f)
  note sh = boundary_shift [OF m s(3,4)]
  have ts: "t = Suc s" using shift_unique [OF t(3,4) sh(3,4)] .
  have W: "m * 2 ^ t = 2 * m * 2 ^ s" by (simp add: ts)
  have e: "df_e (diyfp_normalize_to x y) = y" for x y by (simp add: diyfp_normalize_to_def)
  have te: "e - int t = e - 1 - int s" by (simp add: ts)
  show ?thesis
    using s sh(1,2) minus_boundary [OF m sh(1) s(4), of "closer m e" e] t(1,2)
    unfolding boundary_value [OF assms] Let_def boundaries.simps diyfp.simps W te
    by (intro exI [of _ s]) (simp only: s(2) e simp_thms)
qed

section \<open>The table of powers of ten\<close>

text \<open>An entry is a 64-bit significand with its highest bit set, at most half a unit in the last
  place away from the power of ten.\<close>

definition accurate :: "cached_power \<Rightarrow> bool" where
  "accurate = (\<lambda>(f, e, k).
     2 ^ 63 \<le> uint f \<and> 2 * \<bar>real_of_int (uint f) * 2 powi e - 10 powi k\<bar> \<le> 2 powi e)"

text \<open>The table is checked on integers from the entry for \<open>10 ^ 4\<close> upwards and from the one for
  \<open>10 ^ - 4\<close> downwards, with \<open>p = 5 ^ n\<close>.\<close>

fun rising :: "nat \<Rightarrow> int \<Rightarrow> cached_power list \<Rightarrow> bool" where
  "rising n p [] = True"
| "rising n p ((f, e, k) # es) =
     (k = int n \<and> 2 ^ 63 \<le> uint f \<and> 2 * \<bar>uint f * 2 ^ nat (e - k) - p * 2 ^ nat (k - e)\<bar> \<le> 2 ^ nat (e - k) \<and>
      rising (n + 8) (p * 390625) es)"

fun falling :: "nat \<Rightarrow> int \<Rightarrow> cached_power list \<Rightarrow> bool" where
  "falling n p [] = True"
| "falling n p ((f, e, k) # es) =
     (k = - int n \<and> e \<le> k \<and> 2 ^ 63 \<le> uint f \<and> 2 * \<bar>uint f * p - 2 ^ nat (k - e)\<bar> \<le> p \<and>
      falling (n + 8) (p * 390625) es)"

lemma five_step: "(5 :: int) ^ (n + 8) = 5 ^ n * 390625"
  by (simp add: power_add)

lemma powi_nat: "x powi k = x ^ nat k / x ^ nat (- k)" if "x \<noteq> 0" for x :: real
  using that by (cases "0 \<le> k") (simp_all add: power_int_def field_simps)

lemma accurate_rising:
  assumes "2 * \<bar>f * 2 ^ nat (e - int n) - 5 ^ n * 2 ^ nat (int n - e)\<bar> \<le> (2 :: int) ^ nat (e - int n)"
  shows "2 * \<bar>real_of_int f * 2 powi e - 10 powi int n\<bar> \<le> 2 powi e"
proof -
  let ?a = "(2 :: real) ^ nat (e - int n)" and ?b = "(2 :: real) ^ nat (int n - e)"
  have "2 * \<bar>real_of_int f * ?a - 5 ^ n * ?b\<bar> \<le> ?a"
    using assms by (metis (mono_tags, lifting) of_int_le_iff of_int_abs of_int_diff of_int_mult of_int_numeral of_int_power)
  moreover have ab: "?a = 2 powi (e - int n) * ?b" using powi_nat [of 2 "e - int n"] by simp
  ultimately have "2 * \<bar>(real_of_int f * 2 powi (e - int n) - 5 ^ n) * ?b\<bar> \<le> 2 powi (e - int n) * ?b"
    by (simp add: algebra_simps)
  then have "2 * \<bar>real_of_int f * 2 powi (e - int n) - 5 ^ n\<bar> * ?b \<le> 2 powi (e - int n) * ?b"
    by (simp add: abs_mult)
  then have "2 * \<bar>real_of_int f * 2 powi (e - int n) - 5 ^ n\<bar> \<le> 2 powi (e - int n)"
    by (simp only: mult_le_cancel_right) simp
  then have "2 * \<bar>real_of_int f * 2 powi (e - int n) - 5 ^ n\<bar> * 2 ^ n \<le> 2 powi (e - int n) * 2 ^ n"
    by (rule mult_right_mono) simp
  then have "2 * \<bar>(real_of_int f * 2 powi (e - int n) - 5 ^ n) * 2 ^ n\<bar> \<le> 2 powi (e - int n) * 2 ^ n"
    by (simp add: abs_mult)
  moreover have "(2 :: real) powi (e - int n) * 2 ^ n = 2 powi e"
    by (simp add: power_int_diff)
  moreover have "(5 :: real) ^ n * 2 ^ n = 10 powi int n" by (simp add: power_mult_distrib [symmetric])
  ultimately show ?thesis by (simp add: left_diff_distrib mult.assoc)
qed

lemma accurate_falling:
  assumes "2 * \<bar>f * 5 ^ n - 2 ^ nat (- int n - e)\<bar> \<le> (5 :: int) ^ n" and "e \<le> - int n"
  shows "2 * \<bar>real_of_int f * 2 powi e - 10 powi (- int n)\<bar> \<le> 2 powi e"
proof -
  let ?q = "(2 :: real) powi e / 5 ^ n"
  have "2 * \<bar>real_of_int f * 5 ^ n - 2 ^ nat (- int n - e)\<bar> \<le> 5 ^ n"
    using assms(1) by (metis (mono_tags, lifting) of_int_le_iff of_int_abs of_int_diff of_int_mult of_int_numeral of_int_power)
  then have "2 * \<bar>real_of_int f * 5 ^ n - 2 ^ nat (- int n - e)\<bar> * ?q \<le> 5 ^ n * ?q"
    by (rule mult_right_mono) simp
  then have "2 * \<bar>(real_of_int f * 5 ^ n - 2 ^ nat (- int n - e)) * ?q\<bar> \<le> 5 ^ n * ?q"
    by (simp add: abs_mult)
  moreover have "(2 :: real) ^ nat (- int n - e) * 2 powi e = 2 powi (- int n)"
    using assms(2) power_int_add [of "2 :: real" "- int n - e" e] powi_nat [of 2 "- int n - e"] by simp
  then have "(2 :: real) ^ nat (- int n - e) * ?q = 2 powi (- int n) / 5 ^ n" by simp
  moreover have "(10 :: real) ^ n = 2 ^ n * 5 ^ n" by (simp add: power_mult_distrib [symmetric])
  then have "(2 :: real) powi (- int n) / 5 ^ n = 10 powi (- int n)" by (simp add: power_int_minus field_simps)
  moreover have "(x - y) * ?q = real_of_int f * 2 powi e - y * ?q" if "x = real_of_int f * 5 ^ n" for x y
    by (simp add: that field_simps)
  ultimately show ?thesis by (simp only:) simp
qed

lemma rising_accurate: "rising n (5 ^ n) es \<Longrightarrow> list_all accurate es"
proof (induction es arbitrary: n)
  case (Cons c es)
  obtain f e k where c: "c = (f, e, k)" by (cases c) auto
  have "list_all accurate es" using Cons.prems Cons.IH [of "n + 8"] by (simp add: c five_step)
  moreover have "accurate c"
    using Cons.prems accurate_rising [of "uint f" e n] unfolding c accurate_def prod.case rising.simps by blast
  ultimately show ?case by simp
qed simp

lemma falling_accurate: "falling n (5 ^ n) es \<Longrightarrow> list_all accurate es"
proof (induction es arbitrary: n)
  case (Cons c es)
  obtain f e k where c: "c = (f, e, k)" by (cases c) auto
  have "list_all accurate es" using Cons.prems Cons.IH [of "n + 8"] by (simp add: c five_step)
  moreover have "accurate c"
    using Cons.prems accurate_falling [of "uint f" n e] unfolding c accurate_def prod.case falling.simps by blast
  ultimately show ?case by simp
qed simp

lemma take_11:
  "length xs \<le> 44 \<Longrightarrow> xs = take 11 xs @ take 11 (drop 11 xs) @ take 11 (drop 22 xs) @ take 11 (drop 33 xs)"
  using append_take_drop_id [of 11 xs] append_take_drop_id [of 11 "drop 11 xs"]
    append_take_drop_id [of 11 "drop 22 xs"] append_take_drop_id [of 11 "drop 33 xs"] by simp

lemma kCachedPowers_rising_1: "rising 4 (5 ^ 4) (take 11 (drop 0 (drop 38 kCachedPowers)))"
  unfolding kCachedPowers_def by simp

lemma kCachedPowers_rising_2: "rising 92 (5 ^ 92) (take 11 (drop 11 (drop 38 kCachedPowers)))"
  unfolding kCachedPowers_def by simp

lemma kCachedPowers_rising_3: "rising 180 (5 ^ 180) (take 11 (drop 22 (drop 38 kCachedPowers)))"
  unfolding kCachedPowers_def by simp

lemma kCachedPowers_rising_4: "rising 268 (5 ^ 268) (take 11 (drop 33 (drop 38 kCachedPowers)))"
  unfolding kCachedPowers_def by simp

lemma accurate_rising_all: "list_all accurate (drop 38 kCachedPowers)"
proof -
  have "length (drop 38 kCachedPowers) \<le> 44" unfolding kCachedPowers_def by simp
  then have "drop 38 kCachedPowers = take 11 (drop 0 (drop 38 kCachedPowers)) @ take 11 (drop 11 (drop 38 kCachedPowers)) @ take 11 (drop 22 (drop 38 kCachedPowers)) @ take 11 (drop 33 (drop 38 kCachedPowers))"
    using take_11 [of "drop 38 kCachedPowers"] by (simp only: drop0)
  then show ?thesis
    using rising_accurate [OF kCachedPowers_rising_1] rising_accurate [OF kCachedPowers_rising_2]
      rising_accurate [OF kCachedPowers_rising_3] rising_accurate [OF kCachedPowers_rising_4]
    by (metis list_all_append)
qed

lemma kCachedPowers_falling_1: "falling 4 (5 ^ 4) (take 11 (drop 0 (rev (take 38 kCachedPowers))))"
  unfolding kCachedPowers_def by simp

lemma kCachedPowers_falling_2: "falling 92 (5 ^ 92) (take 11 (drop 11 (rev (take 38 kCachedPowers))))"
  unfolding kCachedPowers_def by simp

lemma kCachedPowers_falling_3: "falling 180 (5 ^ 180) (take 11 (drop 22 (rev (take 38 kCachedPowers))))"
  unfolding kCachedPowers_def by simp

lemma kCachedPowers_falling_4: "falling 268 (5 ^ 268) (take 11 (drop 33 (rev (take 38 kCachedPowers))))"
  unfolding kCachedPowers_def by simp

lemma accurate_falling_all: "list_all accurate (rev (take 38 kCachedPowers))"
proof -
  have "length (rev (take 38 kCachedPowers)) \<le> 44" unfolding kCachedPowers_def by simp
  then have "rev (take 38 kCachedPowers) = take 11 (drop 0 (rev (take 38 kCachedPowers))) @ take 11 (drop 11 (rev (take 38 kCachedPowers))) @ take 11 (drop 22 (rev (take 38 kCachedPowers))) @ take 11 (drop 33 (rev (take 38 kCachedPowers)))"
    using take_11 [of "rev (take 38 kCachedPowers)"] by (simp only: drop0)
  then show ?thesis
    using falling_accurate [OF kCachedPowers_falling_1] falling_accurate [OF kCachedPowers_falling_2]
      falling_accurate [OF kCachedPowers_falling_3] falling_accurate [OF kCachedPowers_falling_4]
    by (metis list_all_append)
qed

lemma kCachedPowers_accurate: "list_all accurate kCachedPowers"
proof -
  have "list_all accurate (take 38 kCachedPowers @ drop 38 kCachedPowers)"
    using accurate_rising_all accurate_falling_all by (simp only: list_all_append list_all_rev)
  then show ?thesis by simp
qed

text \<open>The decimal exponents ascend in steps of 8, and an entry is only used for exponents that
  put the product between \<open>kAlpha\<close> and \<open>kGamma\<close>.\<close>

lemma kCachedPowers_step:
  "map (snd \<circ> snd) kCachedPowers = map (\<lambda>i. 8 * int i - 300) [0..<79]"
  unfolding kCachedPowers_def by (simp add: upt_rec)

lemma kCachedPowers_length: "length kCachedPowers = 79"
  using arg_cong [OF kCachedPowers_step, of length] by simp

lemma kCachedPowers_exponents:
  "list_all (\<lambda>(f, e, k). k * 2 ^ 18 < (e + 64) * 78913 \<and> (e + 34) * 78913 < (k - 8) * 2 ^ 18) kCachedPowers"
  unfolding kCachedPowers_def by simp

lemma div_262144:
  fixes x :: int
  shows "x div 262144 * 262144 \<le> x" "x < (x div 262144 + 1) * 262144"
  by presburger+

lemma cached_index_range:
  assumes "- 1137 \<le> e" and "e \<le> 960"
  shows "0 \<le> cached_index e" "cached_index e \<le> 78"
    "(8 * cached_index e - 308) * 2 ^ 18 \<le> 78913 * (- 61 - e)" "78913 * (- 61 - e) \<le> (8 * cached_index e - 300) * 2 ^ 18"
proof -
  let ?f = "- 61 - e"
  define k where "k = (?f * 78913) sdiv 2 ^ 18 + (if ?f > 0 then 1 else 0)"
  have k: "(k - 1) * 2 ^ 18 \<le> 78913 * ?f" "78913 * ?f \<le> k * 2 ^ 18"
  proof -
    have "(k - 1) * 2 ^ 18 \<le> 78913 * ?f \<and> 78913 * ?f \<le> k * 2 ^ 18"
    proof (cases "0 < ?f")
      case True
      then have "k = 78913 * ?f div 262144 + 1" by (simp add: k_def signed_divide_int_def mult.commute)
      then show ?thesis using div_262144 [of "78913 * ?f"] by simp
    next
      case False
      then have s: "0 \<le> 61 + e" by simp
      have x: "(- 61 - e) * 78913 = - (78913 * (61 + e))" by simp
      have "k = (- (78913 * (61 + e))) sdiv 2 ^ 18"
        using False unfolding k_def x by (simp only: if_False add_0_right)
      also have "\<dots> = sgn (- (78913 * (61 + e))) * (\<bar>- (78913 * (61 + e))\<bar> div 262144)"
        by (simp add: signed_divide_int_def)
      also have "\<dots> = - (78913 * (61 + e) div 262144)"
        using s by (cases "61 + e = 0") (simp_all add: sgn_if abs_mult)
      finally have "k = - (78913 * (61 + e) div 262144)" .
      then show ?thesis using div_262144 [of "78913 * (61 + e)"] by simp
    qed
    then show "(k - 1) * 2 ^ 18 \<le> 78913 * ?f" "78913 * ?f \<le> k * 2 ^ 18" by blast+
  qed
  then have kr: "- 308 < k" "k \<le> 324" using assms by simp_all
  have "kAlpha - e - 1 = ?f" by (simp add: kAlpha_def)
  then have "cached_index e = (300 + k + (8 - 1)) sdiv 8"
    by (simp only: cached_index_def Let_def k_def kCachedPowersMinDecExp_def kCachedPowersDecStep_def minus_minus)
  then have i: "cached_index e = (307 + k) div 8"
    using kr by (simp add: signed_divide_int_def sgn_if)
  show "0 \<le> cached_index e" "cached_index e \<le> 78" using kr unfolding i by simp_all
  show "(8 * cached_index e - 308) * 2 ^ 18 \<le> 78913 * (- 61 - e)" "78913 * (- 61 - e) \<le> (8 * cached_index e - 300) * 2 ^ 18"
    using k unfolding i by simp_all
qed

lemma cached_power_value:
  assumes "- 1137 \<le> e" and "e \<le> 960" and "get_cached_power_for_binary_exponent e = (cf, ce, ck)"
  shows "2 ^ 63 \<le> unat cf" "2 * \<bar>real (unat cf) * 2 powi ce - 10 powi ck\<bar> \<le> 2 powi ce"
    "- 60 \<le> ce + e + 64" "ce + e + 64 \<le> - 32" "- 300 \<le> ck" "ck \<le> 324"
proof -
  define i where "i = nat (cached_index e)"
  have i: "i < 79" "int i = cached_index e" using cached_index_range [OF assms(1,2)] by (auto simp: i_def)
  have c: "kCachedPowers ! i = (cf, ce, ck)" using assms(3) by (simp add: get_cached_power_for_binary_exponent_def i_def)
  then have "(cf, ce, ck) \<in> set kCachedPowers" using i kCachedPowers_length by (metis nth_mem)
  then have a: "accurate (cf, ce, ck)" and x: "ck * 2 ^ 18 < (ce + 64) * 78913" "(ce + 34) * 78913 < (ck - 8) * 2 ^ 18"
    using kCachedPowers_accurate kCachedPowers_exponents by (auto simp: list_all_iff)
  have "map (snd \<circ> snd) kCachedPowers ! i = ck" using c i kCachedPowers_length by simp
  then have k: "ck = 8 * cached_index e - 300" using i unfolding kCachedPowers_step by simp
  show "2 ^ 63 \<le> unat cf" "2 * \<bar>real (unat cf) * 2 powi ce - 10 powi ck\<bar> \<le> 2 powi ce"
  proof -
    have "2 ^ 63 \<le> int (unat cf)" and r: "2 * \<bar>real_of_int (int (unat cf)) * 2 powi ce - 10 powi ck\<bar> \<le> 2 powi ce"
      using a unfolding accurate_def prod.case uint_nat by blast+
    then show "2 ^ 63 \<le> unat cf" by (metis of_nat_le_iff of_nat_numeral of_nat_power)
    show "2 * \<bar>real (unat cf) * 2 powi ce - 10 powi ck\<bar> \<le> 2 powi ce" using r by (simp only: of_int_of_nat_eq)
  qed
  have "78913 * (- 61 - e) < 78913 * (ce + 64)" "78913 * (ce + 34) < 78913 * (- 61 - e)"
    using x cached_index_range(3,4) [OF assms(1,2)] unfolding k by simp_all
  then show "- 60 \<le> ce + e + 64" "ce + e + 64 \<le> - 32"
    by (simp_all only: mult_less_cancel_left_pos zero_less_numeral)
  show "- 300 \<le> ck" "ck \<le> 324"
    using cached_index_range(1,2) [OF assms(1,2)] k by simp_all
qed

text \<open>C30: for every exponent that a normalized boundary of a double can have, the index into
  the table of cached powers is in range, the significand found is normalized and differs from
  the power of ten by at most half a unit in its last place, and the product with it has an
  exponent between \<open>kAlpha\<close> and \<open>kGamma\<close>, as the digit generation needs.\<close>

theorem cached_power_in_range:
  assumes "- 1137 \<le> e" and "e \<le> 960"
  shows "\<exists>cf ce ck. get_cached_power_for_binary_exponent e = (cf, ce, ck) \<and>
    0 \<le> cached_index e \<and> cached_index e < int (length kCachedPowers) \<and>
    2 ^ 63 \<le> unat cf \<and> \<bar>real (unat cf) * 2 powi ce - 10 powi ck\<bar> \<le> 2 powi ce / 2 \<and>
    kAlpha \<le> ce + e + 64 \<and> ce + e + 64 \<le> kGamma"
proof -
  obtain cf ce ck where g: "get_cached_power_for_binary_exponent e = (cf, ce, ck)" by (metis prod_cases3)
  note v = cached_power_value [OF assms g] and i = cached_index_range [OF assms]
  have half: "2 * a \<le> b \<Longrightarrow> a \<le> b / 2" for a b :: real by simp
  have "\<bar>real (unat cf) * 2 powi ce - 10 powi ck\<bar> \<le> 2 powi ce / 2" by (rule half [OF v(2)])
  moreover have "cached_index e < int (length kCachedPowers)" using i(2) by (simp add: kCachedPowers_length)
  ultimately show ?thesis using g v(1,3,4) i(1) by (simp add: kAlpha_def kGamma_def)
qed

theorem cached_power_in_range_witness:
  "\<exists>cf ce ck. get_cached_power_for_binary_exponent 960 = (cf, ce, ck) \<and>
    0 \<le> cached_index 960 \<and> cached_index 960 < int (length kCachedPowers) \<and>
    2 ^ 63 \<le> unat cf \<and> \<bar>real (unat cf) * 2 powi ce - 10 powi ck\<bar> \<le> 2 powi ce / 2 \<and>
    kAlpha \<le> ce + 960 + 64 \<and> ce + 960 + 64 \<le> kGamma"
  by (rule cached_power_in_range) simp_all

end
