(* ===== verification/Grisu2_Digits.thy ===== *)
theory Grisu2_Digits
  imports Grisu2_Scaling
begin

text \<open>
  The digit generation: no arithmetic wraps, no digit drops below zero, the number that the
  digits denote stays between the scaled boundaries, and there are at most 17 of them. Scaled
  back with the exact power of ten the number is strictly between the boundaries of the double.
\<close>

unbundle bit_operations_syntax

section \<open>Digits\<close>

definition digits_ok :: "string \<Rightarrow> bool" where
  "digits_ok buf \<longleftrightarrow> buf \<noteq> [] \<and> list_all is_digit_char buf \<and> hd buf \<noteq> CHR ''0''"

lemma of_char_digit: "d < 10 \<Longrightarrow> of_char (char_of (48 + d) :: char) = (48 + d :: nat)"
  by simp

lemma is_digit_char_of: "d < 10 \<Longrightarrow> is_digit_char (char_of (48 + d :: nat))"
  by (simp add: is_digit_char_def)

lemma char_of_zero: "(d :: nat) < 10 \<Longrightarrow> char_of (48 + d) = CHR ''0'' \<longleftrightarrow> d = 0"
proof -
  assume d: "(d :: nat) < 10"
  have "char_of (48 + d) = CHR ''0'' \<longleftrightarrow> of_char (char_of (48 + d) :: char) = (of_char (CHR ''0'') :: nat)"
    by (simp only: of_char_eq_iff)
  then show ?thesis using of_char_digit [OF d] by simp
qed

lemma digits_value_digit: "d < 10 \<Longrightarrow> digits_value (buf @ [char_of (48 + d)]) = 10 * digits_value buf + d"
  by (simp add: digits_value_snoc)

lemma digits_ok_snoc:
  assumes "digits_ok buf \<or> buf = [] \<and> 0 < d" and "(d :: nat) < 10"
  shows "digits_ok (buf @ [char_of (48 + d)])"
  using assms by (auto simp: digits_ok_def is_digit_char_of char_of_zero hd_append)

lemma digits_ok_lower: "digits_ok buf \<Longrightarrow> 10 ^ (length buf - 1) \<le> digits_value buf"
proof (induction buf rule: rev_induct)
  case (snoc c buf)
  show ?case
  proof (cases buf)
    case Nil
    have "is_digit_char c" "c \<noteq> CHR ''0''" using snoc.prems by (auto simp: Nil digits_ok_def)
    moreover have "c = CHR ''0''" if "(of_char c :: nat) = 48"
      using that by (metis char_of_char char_of_eq_iff of_char_eq_iff char_of_zero add.right_neutral zero_less_numeral)
    ultimately have "(48 :: nat) < of_char c" by (auto simp: is_digit_char_def order_le_less)
    then show ?thesis by (simp add: Nil digits_value_def)
  next
    case (Cons b bs)
    then have "10 ^ (length buf - 1) \<le> digits_value buf" using snoc by (simp add: digits_ok_def)
    then show ?thesis using digits_value_snoc [of buf c] by (simp add: Cons)
  qed
qed (simp add: digits_ok_def)

lemma decrement_last_digit:
  assumes "Suc d < 10"
  shows "decrement_last (buf @ [char_of (48 + Suc d)]) = buf @ [char_of (48 + d)]"
  using of_char_digit [OF assms] by (simp add: decrement_last_def)

text \<open>Rounding takes the last digit down by some \<open>j\<close>, and the number it stands for stays within
  \<open>delta\<close> of the upper boundary.\<close>

lemma grisu2_round_value:
  assumes "d < 10" and "unat rest \<le> unat delta" and "unat delta < unat rest + Suc d * unat ten_k"
  shows "\<exists>j \<le> d. grisu2_round (buf @ [char_of (48 + d)]) dst delta rest ten_k = buf @ [char_of (48 + (d - j))] \<and>
    unat rest + j * unat ten_k \<le> unat delta"
  using assms
proof (induction d arbitrary: rest)
  case (0 rest)
  have "unat (delta - rest) = unat delta - unat rest" using 0 by (simp add: unat_sub word_le_nat_alt)
  then have "\<not> ten_k \<le> delta - rest" using 0 by (simp add: word_le_nat_alt)
  then show ?case using 0 by (simp add: grisu2_round.simps [of _ _ _ rest])
next
  case (Suc d rest)
  show ?case
  proof (cases "ten_k \<noteq> 0 \<and> rest < dst \<and> delta - rest \<ge> ten_k \<and> (rest + ten_k < dst \<or> dst - rest > rest + ten_k - dst)")
    case True
    have "unat (delta - rest) = unat delta - unat rest" using Suc.prems by (simp add: unat_sub word_le_nat_alt)
    then have le: "unat rest + unat ten_k \<le> unat delta" using True Suc.prems by (auto simp: word_le_nat_alt)
    then have sum: "unat (rest + ten_k) = unat rest + unat ten_k"
      using unat_lt_64 [of delta] by (intro unat_add_small) simp
    have "\<exists>j \<le> d. grisu2_round (buf @ [char_of (48 + d)]) dst delta (rest + ten_k) ten_k = buf @ [char_of (48 + (d - j))] \<and>
        unat (rest + ten_k) + j * unat ten_k \<le> unat delta"
      by (rule Suc.IH) (use Suc.prems le sum in auto)
    then obtain j where j: "j \<le> d" "grisu2_round (buf @ [char_of (48 + d)]) dst delta (rest + ten_k) ten_k = buf @ [char_of (48 + (d - j))]"
        "unat rest + Suc j * unat ten_k \<le> unat delta" using sum by auto
    have "grisu2_round (buf @ [char_of (48 + Suc d)]) dst delta rest ten_k = grisu2_round (buf @ [char_of (48 + d)]) dst delta (rest + ten_k) ten_k"
      using True decrement_last_digit [OF Suc.prems(1), of buf] by (subst grisu2_round.simps) (simp only: if_True simp_thms)
    then show ?thesis using j by (intro exI [of _ "Suc j"]) simp
  next
    case False
    then have "grisu2_round (buf @ [char_of (48 + Suc d)]) dst delta rest ten_k = buf @ [char_of (48 + Suc d)]"
      by (subst grisu2_round.simps) (simp only: if_False)
    then show ?thesis using Suc.prems by (intro exI [of _ 0]) simp
  qed
qed

lemma digits_gap:
  assumes "digits_ok buf" and "delta < u" and "digits_value buf * u \<le> (x :: nat)"
  shows "10 ^ (length buf - 1) * delta < x"
proof -
  have "10 ^ (length buf - 1) * delta < 10 ^ (length buf - 1) * u" using assms(2) by simp
  also have "\<dots> \<le> digits_value buf * u" using digits_ok_lower [OF assms(1)] by (rule mult_le_mono1)
  finally show ?thesis using assms(3) by simp
qed

text \<open>The last step of both loops: the buffer with the new digit, rounded.\<close>

lemma round_step:
  assumes "d < 10" and "unat rest \<le> unat delta" and "digits_ok buf \<or> buf = []"
    and "unat delta < unat rest + d * unat ten_k"
  shows "\<exists>buf'. grisu2_round (buf @ [char_of (48 + d)]) dst delta rest ten_k = buf' \<and> digits_ok buf' \<and>
    length buf' = Suc (length buf) \<and>
    digits_value buf' * unat ten_k \<le> (10 * digits_value buf + d) * unat ten_k + unat rest \<and>
    (10 * digits_value buf + d) * unat ten_k + unat rest \<le> digits_value buf' * unat ten_k + unat delta"
proof -
  obtain j where j: "j \<le> d" "grisu2_round (buf @ [char_of (48 + d)]) dst delta rest ten_k = buf @ [char_of (48 + (d - j))]"
      "unat rest + j * unat ten_k \<le> unat delta"
    using grisu2_round_value [OF assms(1,2), of ten_k buf dst] assms(4) by auto
  have "j * unat ten_k < d * unat ten_k" using j(3) assms(4) by linarith
  then have "j < d" by (metis mult_less_cancel2)
  then obtain c where c: "d = j + c" "0 < c" by (metis less_imp_add_positive)
  have ok: "digits_ok (buf @ [char_of (48 + c)])" using assms(1,3) c by (intro digits_ok_snoc) auto
  have v: "digits_value (buf @ [char_of (48 + c)]) = 10 * digits_value buf + c" using assms(1) c by (intro digits_value_digit) simp
  show ?thesis
    using j ok v by (intro exI [of _ "buf @ [char_of (48 + c)]"]) (simp add: c algebra_simps)
qed

lemma find_largest_pow10_value:
  assumes "find_largest_pow10 n = (k, pow10)" and "n \<noteq> 0"
  shows "unat pow10 = 10 ^ (k - 1)" "unat pow10 \<le> unat n" "unat n < 10 ^ k" "1 \<le> k" "k \<le> 10"
proof -
  have n: "unat n < 4294967296" using unsigned_less [of n] by simp
  have "0 < unat n" using assms(2) by (simp add: unat_gt_0)
  then have "unat pow10 = 10 ^ (k - 1) \<and> unat pow10 \<le> unat n \<and> unat n < 10 ^ k \<and> 1 \<le> k \<and> k \<le> 10"
    using assms(1) n by (auto simp: find_largest_pow10_def word_le_nat_alt split: if_splits)
  then show "unat pow10 = 10 ^ (k - 1)" "unat pow10 \<le> unat n" "unat n < 10 ^ k" "1 \<le> k" "k \<le> 10" by blast+
qed

lemma unat_ucast_32: "unat (ucast (r :: 32 word) :: 64 word) = unat r"
proof -
  have "unat r < 2 ^ 32" using unsigned_less [of r] by simp
  then have "unat r < 2 ^ 64" by (rule less_trans) simp
  then show ?thesis by (simp add: unsigned_ucast_eq take_bit_nat_eq_self)
qed

lemma unat_shifted:
  assumes "unat r * 2 ^ N < 2 ^ 64"
  shows "unat (push_bit N (ucast (r :: 32 word)) :: 64 word) = unat r * 2 ^ N"
  using assms unat_push [of "ucast r" N] by (simp add: unat_ucast_32)

text \<open>The number \<open>M\<close> that the loops take apart, after some of its digits: the digits in the
  buffer, the rest, and that the loop has not stopped.\<close>

definition int_left :: "nat \<Rightarrow> nat \<Rightarrow> nat \<Rightarrow> nat \<Rightarrow> nat \<Rightarrow> nat \<Rightarrow> string \<Rightarrow> bool" where
  "int_left N M delta p2 n p1 buf \<longleftrightarrow>
     M = (digits_value buf * 10 ^ n + p1) * 2 ^ N + p2 \<and> p2 < 2 ^ N \<and> p1 < 10 ^ n \<and>
     delta < p1 * 2 ^ N + p2 \<and> (digits_ok buf \<or> buf = [] \<and> 10 ^ (n - 1) \<le> p1 \<and> 0 < n)"

text \<open>What the digit generation returns: the digits stand for a number between \<open>M - delta\<close> and
  \<open>M\<close>, and without the last digit there was still a number to print.\<close>

definition generated :: "nat \<Rightarrow> nat \<Rightarrow> nat \<Rightarrow> string \<Rightarrow> nat \<Rightarrow> nat \<Rightarrow> bool" where
  "generated N M delta buf i j \<longleftrightarrow>
     digits_ok buf \<and> digits_value buf * 10 ^ i * 2 ^ N \<le> M * 10 ^ j \<and>
     M * 10 ^ j \<le> digits_value buf * 10 ^ i * 2 ^ N + delta * 10 ^ j \<and>
     (length buf \<le> 1 \<or> 10 ^ (length buf - 2) * delta < M)"

text \<open>What was printed before a digit of the integral part is still to be told from \<open>M - delta\<close>.\<close>

lemma int_left_gap:
  assumes "int_left N M delta p2 (Suc n) p1 buf"
  shows "length buf = 0 \<or> 10 ^ (length buf - 1) * delta < M"
proof (cases "digits_ok buf")
  case True
  note inv = assms [unfolded int_left_def]
  have "Suc p1 * 2 ^ N \<le> 10 ^ Suc n * 2 ^ N" using inv by (intro mult_le_mono1) simp
  then have "delta < 10 ^ Suc n * 2 ^ N" using inv by simp
  moreover have "digits_value buf * (10 ^ Suc n * 2 ^ N) \<le> M" using inv by (simp add: algebra_simps)
  ultimately show ?thesis using digits_gap [OF True] by blast
qed (use assms in \<open>auto simp: int_left_def\<close>)

text \<open>A digit \<open>d\<close> of the integral part, with the rest \<open>r\<close> and its scaled value \<open>R\<close>.\<close>

lemma int_left_digit:
  assumes "int_left N M delta p2 (Suc n) p1 buf" and "d = p1 div 10 ^ n" and "r = p1 mod 10 ^ n" and "R = r * 2 ^ N + p2"
  shows "d < 10" "M = (10 * digits_value buf + d) * (10 ^ n * 2 ^ N) + R" "delta < R + d * (10 ^ n * 2 ^ N)"
    "digits_ok buf \<or> buf = []" "0 < d \<or> digits_ok buf"
    "\<not> R \<le> delta \<Longrightarrow> int_left N M delta p2 n r (buf @ [char_of (48 + d)])"
proof -
  note inv = assms(1) [unfolded int_left_def]
  show d10: "d < 10" using inv by (simp add: assms(2) less_mult_imp_div_less mult.commute)
  have p1: "p1 = d * 10 ^ n + r" unfolding assms(2,3) by (rule div_mult_mod_eq [symmetric])
  have "p1 * 2 ^ N + p2 = d * (10 ^ n * 2 ^ N) + R" by (subst p1) (simp only: assms(4) algebra_simps)
  then show M: "M = (10 * digits_value buf + d) * (10 ^ n * 2 ^ N) + R" and "delta < R + d * (10 ^ n * 2 ^ N)"
    using inv by (simp_all add: algebra_simps)
  show buf: "digits_ok buf \<or> buf = []" "0 < d \<or> digits_ok buf"
    using inv by (auto simp: assms(2) div_greater_zero_iff)
  show "int_left N M delta p2 n r (buf @ [char_of (48 + d)])" if "\<not> R \<le> delta"
  proof -
    have "digits_ok (buf @ [char_of (48 + d)])" using buf d10 by (intro digits_ok_snoc) auto
    moreover have "M = (digits_value (buf @ [char_of (48 + d)]) * 10 ^ n + r) * 2 ^ N + p2"
      unfolding digits_value_digit [OF d10] M assms(4) by (simp only: algebra_simps)
    moreover have "delta < r * 2 ^ N + p2" "r < 10 ^ n" using that by (simp_all add: assms(3,4))
    ultimately show ?thesis using inv unfolding int_left_def by blast
  qed
qed

text \<open>The last digit, rounded.\<close>

lemma int_last_digit:
  assumes "int_left N M (unat delta) p2 (Suc n) p1 buf" and "d = p1 div 10 ^ n" and "M < 2 ^ 64" and "unat pow10 = 10 ^ n"
    and R: "unat rest = p1 mod 10 ^ n * 2 ^ N + p2" and le: "unat rest \<le> unat delta"
  shows "\<exists>buf'. grisu2_round (buf @ [char_of (48 + d)]) dst delta rest (push_bit N (ucast (pow10 :: 32 word))) = buf' \<and>
    generated N M (unat delta) buf' n 0"
proof -
  define T where "T = (10 :: nat) ^ n * 2 ^ N"
  note dg = int_left_digit [OF assms(1,2) refl R, folded T_def]
  have "0 < d" using le dg(3) by (cases "d = 0") auto
  then have "1 * T \<le> (10 * digits_value buf + d) * T" by (intro mult_le_mono1) simp
  then have "T \<le> M" unfolding dg(2) by linarith
  then have "T < 2 ^ 64" using assms(3) by (rule le_less_trans)
  then have ten: "unat (push_bit N (ucast pow10) :: 64 word) = T"
    using unat_shifted [of pow10 N] by (simp add: assms(4) T_def)
  obtain buf' where b: "grisu2_round (buf @ [char_of (48 + d)]) dst delta rest (push_bit N (ucast pow10)) = buf'"
      "digits_ok buf'" "length buf' = Suc (length buf)" "digits_value buf' * T \<le> M" "M \<le> digits_value buf' * T + unat delta"
    using round_step [OF dg(1) le dg(4), of "push_bit N (ucast pow10)" dst] dg(2,3) unfolding ten by blast
  then have "generated N M (unat delta) buf' n 0"
    using int_left_gap [OF assms(1)] by (auto simp: generated_def T_def mult.assoc)
  then show ?thesis using b(1) by blast
qed

lemma digit_gen_int_value:
  assumes "int_left N M (unat delta) (unat p2) n (unat p1) buf" and "M < 2 ^ 64" and "n \<le> 10"
    and "0 < n \<Longrightarrow> unat pow10 = 10 ^ (n - 1)"
  shows "case digit_gen_int N dst delta p2 ex n p1 pow10 buf of
      Generated buf' ex' \<Rightarrow> \<exists>i. ex' = ex + int i \<and> generated N M (unat delta) buf' i 0
    | Digits_Left buf' \<Rightarrow> digits_ok buf' \<and> M = digits_value buf' * 2 ^ N + unat p2 \<and> unat delta < unat p2"
  using assms
proof (induction n arbitrary: p1 pow10 buf)
  case 0
  then show ?case by (auto simp: int_left_def)
next
  case (Suc n)
  let ?rest = "push_bit N (ucast (p1 mod pow10)) + p2"
  have pow: "unat pow10 = 10 ^ n" using Suc.prems(4) by simp
  have d: "unat (p1 div pow10) = unat p1 div 10 ^ n" and r: "unat (p1 mod pow10) = unat p1 mod 10 ^ n"
    by (simp_all add: unat_div unat_mod pow)
  note dg = int_left_digit [OF Suc.prems(1) refl refl refl]
  have small: "unat p1 mod 10 ^ n * 2 ^ N + unat p2 < 2 ^ 64" using dg(2) Suc.prems(2) by linarith
  then have "unat (push_bit N (ucast (p1 mod pow10)) :: 64 word) = unat p1 mod 10 ^ n * 2 ^ N"
    using unat_shifted [of "p1 mod pow10" N] by (simp add: r)
  then have rest: "unat ?rest = unat p1 mod 10 ^ n * 2 ^ N + unat p2"
    using small by (subst unat_add_small) simp_all
  show ?case
  proof (cases "unat ?rest \<le> unat delta")
    case True
    obtain buf' where "grisu2_round (buf @ [char_of (48 + unat p1 div 10 ^ n)]) dst delta ?rest (push_bit N (ucast pow10)) = buf'"
        "generated N M (unat delta) buf' n 0"
      using int_last_digit [OF Suc.prems(1) refl Suc.prems(2) pow rest True, of dst] by blast
    then show ?thesis using True by (simp add: Let_def word_le_nat_alt d)
  next
    case False
    have "int_left N M (unat delta) (unat p2) n (unat (p1 mod pow10)) (buf @ [char_of (48 + unat (p1 div pow10))])"
      unfolding d r using dg(6) False rest by simp
    moreover have "unat (pow10 div 10) = 10 ^ (n - 1)" if "0 < n"
      using that by (cases n) (simp_all add: unat_div pow)
    ultimately show ?thesis
      using Suc.IH [of "p1 mod pow10" "buf @ [char_of (48 + unat (p1 div pow10))]" "pow10 div 10"] False Suc.prems(2,3)
      by (simp add: Let_def word_le_nat_alt)
  qed
qed

lemma unat_mask:
  assumes "N \<le> 60"
  shows "unat (x AND (push_bit N 1 - 1)) = unat (x :: 64 word) mod 2 ^ N"
proof -
  have "x AND (push_bit N 1 - 1) = take_bit N x"
    by (simp add: take_bit_eq_mask mask_eq_exp_minus_1)
  then show ?thesis by (metis take_bit_eq_mod unsigned_take_bit_eq)
qed

lemma digit_gen_frac_value:
  assumes "N \<le> 60" and "unat p2 < 2 ^ N" and "unat delta < unat p2" and "digits_ok buf"
    and "X = digits_value buf * 2 ^ N + unat p2"
  shows "\<exists>buf' i. digit_gen_frac N dst delta p2 ex buf = (buf', ex - int i) \<and> generated N X (unat delta) buf' 0 i"
  using assms
proof (induction N dst delta p2 ex buf arbitrary: X rule: digit_gen_frac.induct)
  case (1 N dst delta p2 ex buf)
  let ?p = "p2 * 10" and ?delta = "delta * 10"
  have N60: "(2 :: nat) ^ N \<le> 2 ^ 60" using 1(2) by (intro power_increasing) simp_all
  have p: "unat ?p = 10 * unat p2" and dl: "unat ?delta = 10 * unat delta"
    using 1(3,4) N60 by (simp_all add: unat_mult_small)
  let ?d = "unat ?p div 2 ^ N" and ?r = "?p AND (push_bit N 1 - 1)"
  have d: "unat (drop_bit N ?p) = ?d" by (rule unat_high)
  have r: "unat ?r = unat ?p mod 2 ^ N" using 1(2) by (rule unat_mask)
  have d10: "?d < 10" using 1(3) by (simp add: p less_mult_imp_div_less)
  have dr: "10 * unat p2 = ?d * 2 ^ N + unat ?r" unfolding r p by (rule div_mult_mod_eq [symmetric])
  have one: "unat (push_bit N 1 :: 64 word) = 2 ^ N"
    using N60 unat_push [of 1 N] by (simp add: le_less_trans)
  have X: "10 * X = (10 * digits_value buf + ?d) * 2 ^ N + unat ?r"
    using 1(6) dr by (simp add: algebra_simps)
  have gap: "10 ^ (length buf - 1) * unat delta < X"
    by (rule digits_gap [OF 1(5), of _ "2 ^ N"]) (use 1(3,4,6) in simp_all)
  have len: "length buf \<noteq> 0" using 1(5) by (simp add: digits_ok_def)
  show ?case
  proof (cases "unat ?r \<le> unat ?delta")
    case True
    obtain buf' where b: "grisu2_round (buf @ [char_of (48 + ?d)]) (dst * 10) ?delta ?r (push_bit N 1) = buf'"
        "digits_ok buf'" "length buf' = Suc (length buf)" "digits_value buf' * 2 ^ N \<le> 10 * X" "10 * X \<le> digits_value buf' * 2 ^ N + 10 * unat delta"
      using round_step [OF d10 True, of buf "push_bit N 1" "dst * 10"] 1(4,5) dr unfolding one X dl by auto
    have "generated N X (unat delta) buf' 0 1"
      using b(2-5) gap len by (auto simp: generated_def Suc_diff_le)
    moreover have "digit_gen_frac N dst delta p2 ex buf = (buf', ex - int 1)"
      using b(1) True by (simp add: digit_gen_frac.simps [of N dst delta p2] Let_def word_le_nat_alt d)
    ultimately show ?thesis by blast
  next
    case False
    let ?buf = "buf @ [char_of (48 + unat (drop_bit N ?p))]"
    have "\<exists>buf' i. digit_gen_frac N (dst * 10) ?delta ?r (ex - 1) ?buf = (buf', ex - 1 - int i) \<and>
        generated N (10 * X) (unat ?delta) buf' 0 i"
    proof (rule 1(1) [OF refl refl refl refl refl refl])
      show "\<not> ?r \<le> ?delta" using False by (simp add: word_le_nat_alt)
      show "unat ?r < 2 ^ N" unfolding r by simp
      show "unat ?delta < unat ?r" using False by simp
      show "digits_ok ?buf" unfolding d using 1(5) d10 by (intro digits_ok_snoc) simp_all
      show "10 * X = digits_value ?buf * 2 ^ N + unat ?r" unfolding d digits_value_digit [OF d10] by (rule X)
    qed (rule 1(2))
    then obtain buf' i where g: "digit_gen_frac N (dst * 10) ?delta ?r (ex - 1) ?buf = (buf', ex - 1 - int i)"
        "generated N (10 * X) (10 * unat delta) buf' 0 i" unfolding dl by blast
    have "generated N X (unat delta) buf' 0 (Suc i)"
      using g(2) by (auto simp: generated_def algebra_simps)
    moreover have "digit_gen_frac N dst delta p2 ex buf = (buf', ex - int (Suc i))"
      using g(1) False by (simp add: digit_gen_frac.simps [of N dst delta p2] Let_def word_le_nat_alt)
    ultimately show ?thesis by blast
  qed
qed

text \<open>The digits of \<open>M_plus\<close>, cut off and rounded within the distance to \<open>M_minus\<close>.\<close>

lemma grisu2_digit_gen_value:
  assumes "df_e M_plus = - int N" and "32 \<le> N" and "N \<le> 60"
    and "0 < unat (df_f M_minus)" and "unat (df_f M_minus) \<le> unat (df_f M_plus)" and "2 ^ N \<le> unat (df_f M_plus)"
  shows "\<exists>buf i j. grisu2_digit_gen ex M_minus w M_plus = (buf, ex + int i - int j) \<and>
    generated N (unat (df_f M_plus)) (unat (df_f M_plus) - unat (df_f M_minus)) buf i j"
proof -
  let ?f = "df_f M_plus" and ?delta = "df_f M_plus - df_f M_minus" and ?dst = "df_f M_plus - df_f w"
  let ?p1 = "ucast (drop_bit N ?f) :: 32 word" and ?p2 = "?f AND (push_bit N 1 - 1)"
  have delta: "unat ?delta = unat ?f - unat (df_f M_minus)" using assms(5) by (simp add: unat_sub word_le_nat_alt)
  have "unat ?f div 2 ^ N < 2 ^ 32"
  proof -
    have "(2 :: nat) ^ 32 \<le> 2 ^ N" using assms(2) by (intro power_increasing) simp_all
    then have "unat ?f < 2 ^ 32 * 2 ^ N" using unat_lt_64 [of ?f] by simp
    then show ?thesis by (simp add: less_mult_imp_div_less)
  qed
  then have p1: "unat ?p1 = unat ?f div 2 ^ N" by (simp add: unsigned_ucast_eq take_bit_nat_eq_self unat_high)
  have p2: "unat ?p2 = unat ?f mod 2 ^ N" using assms(3) by (rule unat_mask)
  obtain k pow10 where kp: "find_largest_pow10 ?p1 = (k, pow10)" by fastforce
  have "unat ?p1 \<noteq> 0" using assms(6) unfolding p1 by (simp add: div_eq_0_iff)
  then have "?p1 \<noteq> 0" by (simp only: unat_eq_0 not_False_eq_True)
  note pow = find_largest_pow10_value [OF kp this]
  have "int_left N (unat ?f) (unat ?delta) (unat ?p2) k (unat ?p1) []"
  proof -
    have "unat ?f = unat ?f div 2 ^ N * 2 ^ N + unat ?f mod 2 ^ N" by (rule div_mult_mod_eq [symmetric])
    then show ?thesis using pow assms(4,5) unfolding int_left_def digits_value_def p2 delta p1 by simp
  qed
  note int = digit_gen_int_value [OF this unat_lt_64 pow(5) pow(1), where dst = ?dst and ex = ex]
  have N: "nat (- df_e M_plus) = N" using assms(1) by simp
  show ?thesis
  proof (cases "digit_gen_int N ?dst ?delta ?p2 ex k ?p1 pow10 []")
    case (Generated buf ex')
    then obtain i where "ex' = ex + int i" "generated N (unat ?f) (unat ?delta) buf i 0" using int by auto
    then show ?thesis
      unfolding grisu2_digit_gen_def Let_def N diyfp_sub_def diyfp.simps kp prod.case Generated delta
      by (intro exI [of _ buf] exI [of _ i] exI [of _ 0]) simp
  next
    case (Digits_Left buf)
    then have l: "digits_ok buf" "unat ?f = digits_value buf * 2 ^ N + unat ?p2" "unat ?delta < unat ?p2" using int by auto
    obtain buf' i where "digit_gen_frac N ?dst ?delta ?p2 ex buf = (buf', ex - int i)" "generated N (unat ?f) (unat ?delta) buf' 0 i"
      using digit_gen_frac_value [OF assms(3) _ l(3,1,2), where dst = ?dst and ex = ex] unfolding p2 by auto
    then show ?thesis
      unfolding grisu2_digit_gen_def Let_def N diyfp_sub_def diyfp.simps kp prod.case Digits_Left delta
      by (intro exI [of _ buf'] exI [of _ 0] exI [of _ i]) simp
  qed
qed

section \<open>The digits of a double\<close>

text \<open>The numbers halfway to the neighbouring doubles.\<close>

definition upper :: "nat \<Rightarrow> int \<Rightarrow> real" where
  "upper m e = real (2 * m + 1) * 2 powi (e - 1)"

definition lower :: "nat \<Rightarrow> int \<Rightarrow> real" where
  "lower m e = (if closer m e then real (4 * m - 1) * 2 powi (e - 2) else real (2 * m - 1) * 2 powi (e - 1))"

lemma div_2_64:
  fixes a :: nat
  shows "a div 2 ^ 64 * 2 ^ 64 \<le> a" "a < (a div 2 ^ 64 + 1) * 2 ^ 64"
  using div_mult_mod_eq [of a "2 ^ 64"] mod_less_divisor [of "2 ^ 64" a] by (simp_all add: algebra_simps)

text \<open>The scaled boundaries as integers, with the distance between them.\<close>

lemma scaled_gap:
  fixes P Q C :: nat
  assumes "P < 2 ^ 64" "C < 2 ^ 64" "2 ^ 63 \<le> P" "2 ^ 63 \<le> C" "Q + 1536 \<le> P" "P \<le> 2 ^ 53 * (P - Q)"
  defines "p \<equiv> (P * C + 2 ^ 63) div 2 ^ 64" and "q \<equiv> (Q * C + 2 ^ 63) div 2 ^ 64"
  shows "q + 700 \<le> p" "p - 1 \<le> 10 ^ 16 * (p - 1 - (q + 1))" "2 ^ 61 \<le> p - 1"
proof -
  define G where "G = P - Q"
  have P: "P = Q + G" and G: "1536 \<le> G" "P \<le> 2 ^ 53 * G" using assms(5,6) by (auto simp: G_def)
  define K where "K = G * C"
  have PC: "P * C = Q * C + K" by (simp add: P K_def algebra_simps)
  have K: "1536 * 2 ^ 63 \<le> K" unfolding K_def using G assms(4) by (intro mult_le_mono)
  have b: "p * 2 ^ 64 \<le> P * C + 2 ^ 63" "P * C + 2 ^ 63 < (p + 1) * 2 ^ 64"
    "q * 2 ^ 64 \<le> Q * C + 2 ^ 63" "Q * C + 2 ^ 63 < (q + 1) * 2 ^ 64"
    unfolding p_def q_def by (rule div_2_64)+
  have d: "K < (p - q + 1) * 2 ^ 64" if "q \<le> p"
    using b(2,3) PC that by (simp add: algebra_simps)
  have qp: "q \<le> p" unfolding p_def q_def by (intro div_le_mono) (simp add: PC)
  have "1536 * 2 ^ 63 < (p - q + 1) * 2 ^ 64" using d [OF qp] K by linarith
  then show gap: "q + 700 \<le> p" using qp by simp
  have "2 ^ 63 * 2 ^ 63 \<le> P * C" using assms(3,4) by (intro mult_le_mono)
  then have "2 ^ 63 * 2 ^ 63 < (p + 1) * 2 ^ 64" using b(2) by linarith
  then show "2 ^ 61 \<le> p - 1" by simp
  have "P * C \<le> 2 ^ 53 * K" unfolding K_def using G(2) by (metis mult.assoc mult_le_mono1)
  then have "(p - 1) * 2 ^ 64 \<le> 2 ^ 53 * K" using b(1) gap by (simp add: algebra_simps)
  moreover have "K < (p - 1 - (q + 1)) * 2 ^ 64 + 3 * 2 ^ 64" using d [OF qp] gap by (simp add: algebra_simps)
  ultimately have "(p - 1) * 2 ^ 64 \<le> (10 ^ 16 * (p - 1 - (q + 1))) * 2 ^ 64" using K by simp
  then show "p - 1 \<le> 10 ^ 16 * (p - 1 - (q + 1))" by (simp only: mult_le_cancel2) simp
qed

text \<open>A number between the scaled boundaries, scaled back with the exact power of ten, is
  strictly between the boundaries.\<close>

lemma half_ulp:
  fixes x y c :: real
  assumes "2 * \<bar>x * y - c\<bar> \<le> y"
  shows "(x - 1 / 2) * y \<le> c" "c \<le> (x + 1 / 2) * y"
proof -
  have "z - y / 2 \<le> c \<and> c \<le> z + y / 2" if "2 * \<bar>z - c\<bar> \<le> y" for z using that by (cases "c \<le> z") simp_all
  from this [OF assms] show "(x - 1 / 2) * y \<le> c" "c \<le> (x + 1 / 2) * y" by (simp_all add: algebra_simps)
qed

lemma unscaled_upper:
  fixes y c :: real and P C N :: nat
  assumes "2 * \<bar>real C * 2 powi ce - c\<bar> \<le> 2 powi ce" and "e0 + ce = - int N - 64" and "P < 2 ^ 64"
    and "2 ^ 64 \<le> P * C" and "y * 2 ^ N \<le> real ((P * C + 2 ^ 63) div 2 ^ 64 - 1)"
  shows "y < real P * 2 powi e0 * c"
proof -
  let ?p = "(P * C + 2 ^ 63) div 2 ^ 64"
  have "?p * 2 ^ 64 \<le> P * C + 2 ^ 63" by (rule div_2_64)
  moreover have "1 \<le> ?p" using assms(4) by (simp add: div_greater_zero_iff Suc_le_eq)
  ultimately have "(?p - 1) * 2 ^ 64 + 2 ^ 63 \<le> P * C" by (simp add: algebra_simps)
  then have "real ((?p - 1) * 2 ^ 64 + 2 ^ 63) \<le> real (P * C)" by (simp only: of_nat_le_iff)
  then have "real (?p - 1) * 2 ^ 64 + 2 ^ 63 \<le> real P * real C" by simp
  moreover have "y * 2 ^ N * 2 ^ 64 \<le> real (?p - 1) * 2 ^ 64" using assms(5) by (rule mult_right_mono) simp
  moreover have "real P < 2 ^ 64" using assms(3) by (metis of_nat_less_iff of_nat_numeral of_nat_power)
  ultimately have "y * 2 ^ (N + 64) < real P * (real C - 1 / 2)" by (simp add: power_add algebra_simps)
  then have "y * 2 ^ (N + 64) * 2 powi (e0 + ce) < real P * (real C - 1 / 2) * 2 powi (e0 + ce)"
    by (rule mult_strict_right_mono) simp
  moreover have "2 ^ (N + 64) * (2 :: real) powi (e0 + ce) = 1"
    unfolding assms(2) by (simp add: power_int_diff power_int_minus power_add)
  ultimately have "y < real P * (real C - 1 / 2) * 2 powi (e0 + ce)" by (simp add: mult.assoc)
  also have "\<dots> = real P * 2 powi e0 * ((real C - 1 / 2) * 2 powi ce)"
    by (simp add: power_int_add)
  also have "\<dots> \<le> real P * 2 powi e0 * c"
  proof (rule mult_left_mono)
    show "(real C - 1 / 2) * 2 powi ce \<le> c" using assms(1) by (rule half_ulp)
  qed simp
  finally show ?thesis .
qed

lemma unscaled_lower:
  fixes y c :: real and Q C N :: nat
  assumes "2 * \<bar>real C * 2 powi ce - c\<bar> \<le> 2 powi ce" and "e0 + ce = - int N - 64" and "Q < 2 ^ 64"
    and "real ((Q * C + 2 ^ 63) div 2 ^ 64 + 1) \<le> y * 2 ^ N"
  shows "real Q * 2 powi e0 * c < y"
proof -
  let ?q = "(Q * C + 2 ^ 63) div 2 ^ 64"
  have "Q * C + 2 ^ 63 < (?q + 1) * 2 ^ 64" by (rule div_2_64)
  then have "real (Q * C + 2 ^ 63) < real ((?q + 1) * 2 ^ 64)" by (simp only: of_nat_less_iff)
  then have "real Q * real C + 2 ^ 63 < real (?q + 1) * 2 ^ 64" by (simp add: algebra_simps)
  moreover have "real (?q + 1) * 2 ^ 64 \<le> y * 2 ^ N * 2 ^ 64" using assms(4) by (rule mult_right_mono) simp
  moreover have "real Q < 2 ^ 64" using assms(3) by (metis of_nat_less_iff of_nat_numeral of_nat_power)
  ultimately have "real Q * (real C + 1 / 2) < y * 2 ^ (N + 64)" by (simp add: power_add algebra_simps)
  then have "real Q * (real C + 1 / 2) * 2 powi (e0 + ce) < y * 2 ^ (N + 64) * 2 powi (e0 + ce)"
    by (rule mult_strict_right_mono) simp
  moreover have "2 ^ (N + 64) * (2 :: real) powi (e0 + ce) = 1"
    unfolding assms(2) by (simp add: power_int_diff power_int_minus power_add)
  ultimately have less: "real Q * (real C + 1 / 2) * 2 powi (e0 + ce) < y" by (simp add: mult.assoc)
  have "real Q * 2 powi e0 * c \<le> real Q * 2 powi e0 * ((real C + 1 / 2) * 2 powi ce)"
  proof (rule mult_left_mono)
    show "c \<le> (real C + 1 / 2) * 2 powi ce" using assms(1) by (rule half_ulp)
  qed simp
  also have "\<dots> = real Q * (real C + 1 / 2) * 2 powi (e0 + ce)" by (simp add: power_int_add)
  finally show ?thesis using less by simp
qed

lemma powi_minus_nat: "(10 :: real) powi (int i - int j) = 10 ^ i / 10 ^ j"
  by (simp add: power_int_diff)

lemma powi_shift: "real (a * 2 ^ s) * 2 powi (k - int s) = real a * 2 powi k"
  by (simp add: power_int_diff)

lemma boundary_gap:
  assumes "canonical m e" and "10 \<le> s" and P: "P = (2 * m + 1) * 2 ^ s"
    and Q: "Q = (if closer m e then (4 * m - 1) * 2 ^ (s - 1) else (2 * m - 1) * 2 ^ s)"
  shows "Q + 1536 \<le> P" "P \<le> 2 ^ 53 * (P - Q)" "real P * 2 powi (e - 1 - int s) = upper m e"
    "real Q * 2 powi (e - 1 - int s) = lower m e"
proof -
  have m: "m < 2 ^ 53" "0 < m" using assms(1) by (auto simp: canonical_def)
  obtain t where t: "s = Suc t" using assms(2) by (cases s) auto
  have t2: "512 \<le> (2 :: nat) ^ t" using power_increasing [of 9 t "2 :: nat"] assms(2) t by simp
  have "Q + 1536 \<le> P \<and> P \<le> 2 ^ 53 * (P - Q)"
  proof (cases "closer m e")
    case True
    then have "m = 2 ^ 52" by (simp add: closer_def)
    then show ?thesis using True t2 by (simp add: P Q t)
  next
    case False
    have q: "Q + 4 * 2 ^ t = P" using m False by (simp add: P Q t algebra_simps)
    have "P \<le> 2 ^ 54 * 2 ^ s" unfolding P using m by (intro mult_le_mono1) simp
    then show ?thesis using q t2 by (simp add: t)
  qed
  then show "Q + 1536 \<le> P" "P \<le> 2 ^ 53 * (P - Q)" by blast+
  show "real P * 2 powi (e - 1 - int s) = upper m e" unfolding P upper_def by (rule powi_shift)
  have "e - 1 - int s = e - 2 - int (s - 1)" by (simp add: t)
  then show "real Q * 2 powi (e - 1 - int s) = lower m e"
    using powi_shift [of "2 * m - 1" s "e - 1"] powi_shift [of "4 * m - 1" "s - 1" "e - 2"]
    by (cases "closer m e") (simp_all only: Q lower_def if_True if_False)
qed

text \<open>The digits of the scaled boundaries \<open>wp\<close> and \<open>wm\<close>, each moved inwards by one.\<close>

lemma digits_between:
  assumes "unat (df_f wp) = p" "unat (df_f wm) = q" and "df_e wp = - int N" and "32 \<le> N" "N \<le> 60"
    and "q + 3 \<le> p" "2 ^ 61 \<le> p - 1"
  shows "\<exists>buf i j. grisu2_digit_gen ex (wm\<lparr>df_f := df_f wm + 1\<rparr>) v (wp\<lparr>df_f := df_f wp - 1\<rparr>) = (buf, ex + int i - int j) \<and>
    generated N (p - 1) (p - 1 - (q + 1)) buf i j"
proof -
  have Mp: "unat (df_f wp - 1) = p - 1"
    using unat_sub [of 1 "df_f wp"] assms(1,6) by (simp add: word_le_nat_alt)
  have Mm: "unat (df_f wm + 1) = q + 1"
    using unat_add_small [of "df_f wm" 1] assms(1,2,6) unat_lt_64 [of "df_f wp"] by simp
  have "(2 :: nat) ^ N \<le> 2 ^ 60" using assms(5) by (intro power_increasing) simp_all
  then have "2 ^ N \<le> p - 1" using assms(7) by simp
  then show ?thesis
    using grisu2_digit_gen_value [of "wp\<lparr>df_f := df_f wp - 1\<rparr>" N "wm\<lparr>df_f := df_f wm + 1\<rparr>" ex v] assms(3-6)
    by (simp add: Mp Mm)
qed

text \<open>The scaled boundaries that \<open>grisu2\<close> hands to the digit generation.\<close>

lemma grisu2_generated:
  assumes "canonical m e"
  shows "\<exists>P Q C N e0 ce ck buf i j.
    grisu2 m e = (buf, - ck + int i - int j) \<and>
    generated N ((P * C + 2 ^ 63) div 2 ^ 64 - 1) ((P * C + 2 ^ 63) div 2 ^ 64 - 1 - ((Q * C + 2 ^ 63) div 2 ^ 64 + 1)) buf i j \<and>
    P < 2 ^ 64 \<and> C < 2 ^ 64 \<and> 2 ^ 63 \<le> P \<and> 2 ^ 63 \<le> C \<and> Q + 1536 \<le> P \<and> P \<le> 2 ^ 53 * (P - Q) \<and>
    2 * \<bar>real C * 2 powi ce - 10 powi ck\<bar> \<le> 2 powi ce \<and> e0 + ce = - int N - 64 \<and>
    real P * 2 powi e0 = upper m e \<and> real Q * 2 powi e0 = lower m e"
proof -
  let ?b = "compute_boundaries m e"
  obtain s where s: "10 \<le> s" "s \<le> 62" "unat (df_f (bd_plus ?b)) = (2 * m + 1) * 2 ^ s"
      "unat (df_f (bd_minus ?b)) = (if closer m e then (4 * m - 1) * 2 ^ (s - 1) else (2 * m - 1) * 2 ^ s)"
      "df_e (bd_plus ?b) = e - 1 - int s" "df_e (bd_minus ?b) = e - 1 - int s"
      "2 ^ 63 \<le> (2 * m + 1) * 2 ^ s" "(2 * m + 1) * 2 ^ s < 2 ^ 64"
    using compute_boundaries_value [OF assms] by blast
  define P where "P = (2 * m + 1) * 2 ^ s"
  define Q where "Q = (if closer m e then (4 * m - 1) * 2 ^ (s - 1) else (2 * m - 1) * 2 ^ s)"
  define e0 where "e0 = e - 1 - int s"
  note PQ = boundary_gap [OF assms s(1) P_def Q_def, folded e0_def]
  obtain cf ce ck where c: "get_cached_power_for_binary_exponent e0 = (cf, ce, ck)" by (metis prod_cases3)
  have "- 1137 \<le> e0" "e0 \<le> 960" using assms s(1,2) by (auto simp: e0_def canonical_def)
  note cv = cached_power_value [OF this c]
  define C where "C = unat cf"
  define N where "N = nat (- (e0 + ce + 64))"
  have N: "32 \<le> N" "N \<le> 60" "e0 + ce = - int N - 64" using cv(3,4) by (auto simp: N_def)
  let ?c = "\<lparr>df_f = cf, df_e = ce\<rparr>"
  let ?wp = "diyfp_mul (bd_plus ?b) ?c" and ?wm = "diyfp_mul (bd_minus ?b) ?c"
  define p q where "p = (P * C + 2 ^ 63) div 2 ^ 64" and "q = (Q * C + 2 ^ 63) div 2 ^ 64"
  have C: "C < 2 ^ 64" "2 ^ 63 \<le> C" using unat_lt_64 cv(1) by (simp_all only: C_def)
  have P: "P < 2 ^ 64" "2 ^ 63 \<le> P" using s(7,8) by (simp_all only: P_def)
  note gap = scaled_gap [OF P(1) C(1) P(2) C(2) PQ(1,2), folded p_def q_def]
  have up: "unat (df_f ?wp) = p" "unat (df_f ?wm) = q" unfolding mul_value s(3,4) diyfp.simps P_def Q_def C_def p_def q_def by (rule refl)+
  have ee: "df_e ?wp = - int N" using N(3) s(5) by (simp add: diyfp_mul_def Let_def e0_def)
  have q3: "q + 3 \<le> p" using gap(1) by simp
  obtain buf i j where g: "grisu2 m e = (buf, - ck + int i - int j)" "generated N (p - 1) (p - 1 - (q + 1)) buf i j"
    using digits_between [OF up ee N(1,2) q3 gap(3), of "- ck" "diyfp_mul (bd_w ?b) ?c"] c
    unfolding grisu2_def grisu2_scaled_def Let_def s(5) e0_def [symmetric] by auto
  then show ?thesis
    using P C PQ cv(2) N(3) unfolding p_def q_def C_def by blast
qed

lemma digits_ok_upper: "list_all is_digit_char buf \<Longrightarrow> digits_value buf < 10 ^ length buf"
proof (induction buf rule: rev_induct)
  case (snoc c buf)
  then have "digits_value buf + 1 \<le> 10 ^ length buf" "of_char c \<le> (57 :: nat)"
    by (simp_all add: Suc_le_eq is_digit_char_def)
  then show ?case by (simp add: digits_value_snoc)
qed (simp add: digits_value_def)

text \<open>The value of a decimal number.\<close>

definition decimal :: "string \<Rightarrow> int \<Rightarrow> real" where
  "decimal buf ex = real (digits_value buf) * 10 powi ex"

text \<open>The number that generated digits stand for, on the scale of the boundaries.\<close>

lemma generated_interval:
  assumes "generated N (p - 1) (p - 1 - (q + 1)) buf i j" and "q + 2 \<le> p"
    and y: "y = real (digits_value buf) * 10 powi (int i - int j)"
  shows "y * 2 ^ N \<le> real (p - 1)" "real (q + 1) \<le> y * 2 ^ N"
proof -
  let ?D = "digits_value buf"
  note gen = assms(1) [unfolded generated_def]
  have y': "y * 2 ^ N * 10 ^ j = real (?D * 10 ^ i * 2 ^ N)" by (simp add: y powi_minus_nat)
  have "real (?D * 10 ^ i * 2 ^ N) \<le> real ((p - 1) * 10 ^ j)" using gen by (simp only: of_nat_le_iff)
  then have "y * 2 ^ N * 10 ^ j \<le> real (p - 1) * 10 ^ j" unfolding y' by simp
  then show "y * 2 ^ N \<le> real (p - 1)" by (rule mult_right_le_imp_le) simp
  have "p - 1 = (q + 1) + (p - 1 - (q + 1))" using assms(2) by simp
  then have "(p - 1) * 10 ^ j = (q + 1) * 10 ^ j + (p - 1 - (q + 1)) * 10 ^ j" by (metis add_mult_distrib)
  then have "(q + 1) * 10 ^ j \<le> ?D * 10 ^ i * 2 ^ N" using gen by linarith
  then have "real ((q + 1) * 10 ^ j) \<le> y * 2 ^ N * 10 ^ j" unfolding y' by (simp only: of_nat_le_iff)
  then have "real (q + 1) * 10 ^ j \<le> y * 2 ^ N * 10 ^ j" by (simp only: of_nat_mult of_nat_power of_nat_numeral)
  then show "real (q + 1) \<le> y * 2 ^ N" by (rule mult_right_le_imp_le) (rule zero_less_power, rule zero_less_numeral)
qed

lemma generated_length:
  assumes "generated N M D buf i j" and "M \<le> 10 ^ 16 * D"
  shows "length buf \<le> 17"
proof (rule ccontr)
  assume "\<not> length buf \<le> 17"
  then have l: "18 \<le> length buf" by simp
  then have "(10 :: nat) ^ 16 \<le> 10 ^ (length buf - 2)" by (intro power_increasing) simp_all
  then have "10 ^ 16 * D \<le> 10 ^ (length buf - 2) * D" by (rule mult_le_mono1)
  moreover have "10 ^ (length buf - 2) * D < M" using assms(1) l by (auto simp: generated_def)
  ultimately show False using assms(2) by linarith
qed

lemma grisu2_digits:
  assumes "canonical m e" and "grisu2 m e = (buf, ex)"
  shows "digits_ok buf" "length buf \<le> 17" "lower m e < decimal buf ex" "decimal buf ex < upper m e"
proof -
  obtain P Q C N e0 ce ck i j where g: "ex = - ck + int i - int j"
      "generated N ((P * C + 2 ^ 63) div 2 ^ 64 - 1) ((P * C + 2 ^ 63) div 2 ^ 64 - 1 - ((Q * C + 2 ^ 63) div 2 ^ 64 + 1)) buf i j"
      "P < 2 ^ 64" "C < 2 ^ 64" "2 ^ 63 \<le> P" "2 ^ 63 \<le> C" "Q + 1536 \<le> P" "P \<le> 2 ^ 53 * (P - Q)"
      "2 * \<bar>real C * 2 powi ce - 10 powi ck\<bar> \<le> 2 powi ce" "e0 + ce = - int N - 64"
      "real P * 2 powi e0 = upper m e" "real Q * 2 powi e0 = lower m e"
    using grisu2_generated [OF assms(1)] unfolding assms(2) by blast
  note gap = scaled_gap [OF g(3-8)]
  show "digits_ok buf" using g(2) unfolding generated_def by blast
  show "length buf \<le> 17" by (rule generated_length [OF g(2) gap(2)])
  define y where "y = real (digits_value buf) * 10 powi (int i - int j)"
  have q2: "(Q * C + 2 ^ 63) div 2 ^ 64 + 2 \<le> (P * C + 2 ^ 63) div 2 ^ 64" using gap(1) by linarith
  note y = generated_interval [OF g(2) q2 y_def]
  have "2 ^ 63 * 2 ^ 63 \<le> P * C" using g(5,6) by (intro mult_le_mono)
  then have "2 ^ 64 \<le> P * C" by simp
  then have "y < upper m e * 10 powi ck" using unscaled_upper [OF g(9,10,3) _ y(1)] g(11) by simp
  moreover have "lower m e * 10 powi ck < y"
    using unscaled_lower [OF g(9,10) _ y(2)] g(3,7,12) by simp
  moreover have "decimal buf ex * 10 powi ck = y"
  proof -
    have "decimal buf ex * 10 powi ck = real (digits_value buf) * 10 powi (ex + ck)" by (simp add: decimal_def power_int_add)
    also have "ex + ck = int i - int j" using g(1) by simp
    finally show ?thesis by (simp add: y_def)
  qed
  ultimately have "decimal buf ex * 10 powi ck < upper m e * 10 powi ck" "lower m e * 10 powi ck < decimal buf ex * 10 powi ck"
    by simp_all
  then show "lower m e < decimal buf ex" "decimal buf ex < upper m e" by (simp_all add: mult_less_cancel_right)
qed

text \<open>The position of the decimal point, for the exponent in the text.\<close>

lemma powi_less_imp_less: "(10 :: real) powi a < 10 powi b \<Longrightarrow> a < b"
  using power_int_increasing [of b a "10 :: real"] by (cases "a < b") simp_all

lemma decimal_position:
  assumes "digits_ok buf" and "10 powi a < decimal buf ex" and "decimal buf ex < 10 powi b"
  shows "a < int (length buf) + ex" "int (length buf) + ex \<le> b"
proof -
  have len: "length buf \<noteq> 0" using assms(1) by (simp add: digits_ok_def)
  have D: "10 powi (int (length buf) - 1) \<le> real (digits_value buf)" "real (digits_value buf) < 10 powi int (length buf)"
  proof -
    have "10 ^ (length buf - 1) \<le> digits_value buf" "digits_value buf < 10 ^ length buf"
      using digits_ok_lower [OF assms(1)] digits_ok_upper assms(1) by (auto simp: digits_ok_def)
    then have "real (10 ^ (length buf - 1)) \<le> real (digits_value buf)" "real (digits_value buf) < real (10 ^ length buf)"
      by (simp_all only: of_nat_le_iff of_nat_less_iff)
    moreover have "int (length buf) - 1 = int (length buf - 1)" using len by (cases "length buf") simp_all
    ultimately show "10 powi (int (length buf) - 1) \<le> real (digits_value buf)" "real (digits_value buf) < 10 powi int (length buf)"
      by (simp_all only: power_int_of_nat of_nat_power of_nat_numeral)
  qed
  have "10 powi (int (length buf) - 1) * 10 powi ex \<le> decimal buf ex"
    unfolding decimal_def using D(1) by (rule mult_right_mono) simp
  then have "(10 :: real) powi (int (length buf) - 1 + ex) < 10 powi b" using assms(3) by (simp add: power_int_add)
  then have "int (length buf) - 1 + ex < b" by (rule powi_less_imp_less)
  then show "int (length buf) + ex \<le> b" by simp
  have "decimal buf ex < 10 powi int (length buf) * 10 powi ex"
    unfolding decimal_def using D(2) by (rule mult_strict_right_mono) simp
  then have "(10 :: real) powi a < 10 powi (int (length buf) + ex)" using assms(2) by (simp add: power_int_add)
  then show "a < int (length buf) + ex" by (rule powi_less_imp_less)
qed

lemma power_10_2: "(2 :: real) ^ 1024 \<le> 10 ^ 309" "(2 :: real) ^ 1075 \<le> 10 ^ 324"
proof -
  have "(2 :: real) ^ 715 \<le> 5 ^ 309" "(2 :: real) ^ 751 \<le> 5 ^ 324" by simp_all
  then have "(2 :: real) ^ 309 * 2 ^ 715 \<le> 2 ^ 309 * 5 ^ 309" "(2 :: real) ^ 324 * 2 ^ 751 \<le> 2 ^ 324 * 5 ^ 324"
    by (simp_all only: mult_left_mono zero_le_power zero_le_numeral)
  then show "(2 :: real) ^ 1024 \<le> 10 ^ 309" "(2 :: real) ^ 1075 \<le> 10 ^ 324"
    by (simp_all add: power_add [symmetric] power_mult_distrib [symmetric])
qed

lemma grisu2_exponent:
  assumes "canonical m e" and "grisu2 m e = (buf, ex)"
  shows "- 324 < int (length buf) + ex" "int (length buf) + ex \<le> 309"
proof -
  note g = grisu2_digits [OF assms]
  have m: "m < 2 ^ 53" "0 < m" and e: "- 1074 \<le> e" "e \<le> 971" using assms(1) by (auto simp: canonical_def)
  have len: "length buf \<noteq> 0" using g(1) by (simp add: digits_ok_def)
  have up: "decimal buf ex < 10 powi 309"
  proof -
    have "upper m e \<le> real (2 ^ 54) * 2 powi 970"
      unfolding upper_def using m e by (intro mult_mono power_int_increasing) (simp_all only: of_nat_le_iff, simp_all)
    also have "\<dots> = 2 ^ 1024" by simp
    finally show ?thesis using g(4) power_10_2(1) by (simp del: power_numeral)
  qed
  have lo: "10 powi - 324 < decimal buf ex"
  proof -
    have "(1 :: real) / 10 ^ 324 \<le> 1 / 2 ^ 1075" using power_10_2(2) by (intro divide_left_mono) simp_all
    then have "(10 :: real) powi - 324 \<le> 2 powi - 1075" by (simp add: power_int_minus divide_inverse del: power_numeral)
    also have "\<dots> \<le> 2 powi (e - 1)" using e by (intro power_int_increasing) simp_all
    also have "\<dots> \<le> lower m e"
    proof (cases "closer m e")
      case True
      then have "m = 2 ^ 52" by (simp add: closer_def)
      then show ?thesis using True by (simp add: lower_def power_int_diff)
    next
      case False
      have "1 \<le> real (2 * m - 1)" using m by simp
      then have "1 * 2 powi (e - 1) \<le> real (2 * m - 1) * 2 powi (e - 1)" by (intro mult_right_mono) simp_all
      then show ?thesis using False by (simp add: lower_def)
    qed
    finally show ?thesis using g(3) by simp
  qed
  show "- 324 < int (length buf) + ex" "int (length buf) + ex \<le> 309"
    using decimal_position [OF g(1) lo up] by blast+
qed

text \<open>C28: for every finite double other than zero the generated digits are a decimal number
  without leading zero and with at most 17 digits, so that the buffer of the code is never
  overrun, and the number lies strictly between the boundaries of the double, the midpoints to
  its neighbours.\<close>

theorem grisu2_between_boundaries:
  assumes "canonical m e"
  shows "\<exists>buf ex. grisu2 m e = (buf, ex) \<and> digits_ok buf \<and> length buf \<le> 17 \<and>
    lower m e < decimal buf ex \<and> decimal buf ex < upper m e"
proof -
  obtain buf ex where g: "grisu2 m e = (buf, ex)" by fastforce
  then show ?thesis using grisu2_digits [OF assms g] by blast
qed

theorem grisu2_between_boundaries_witness:
  "\<exists>buf ex. grisu2 1 (- 1074) = (buf, ex) \<and> digits_ok buf \<and> length buf \<le> 17 \<and>
    lower 1 (- 1074) < decimal buf ex \<and> decimal buf ex < upper 1 (- 1074)"
  by (rule grisu2_between_boundaries) (simp add: canonical_def)

end
