(* ===== verification/Grisu2_Text.thy ===== *)
theory Grisu2_Text
  imports Grisu2_Digits
begin

text \<open>
  The way back: every number strictly between the boundaries of a double is rounded to it, and
  \<open>strtod\<close> reads from the text of a double the number that its digits denote.
\<close>

lemma powi2_less_iff: "(2 :: real) powi a < 2 powi b \<longleftrightarrow> a < b"
  using power_int_increasing [of b a "2 :: real"] power_int_strict_increasing [of a b "2 :: real"]
  by (cases "a < b") simp_all

section \<open>The nearest double\<close>

lemma bit_length_bounds:
  "0 < n \<Longrightarrow> 2 ^ (bit_length n - 1) \<le> n \<and> n < 2 ^ bit_length n \<and> 0 < bit_length n"
proof (induction n rule: bit_length.induct)
  case (1 n)
  show ?case
  proof (cases "n div 2 = 0")
    case True
    then have "n = 1" using 1(2) by auto
    then show ?thesis by (simp add: bit_length.simps)
  next
    case False
    then have b: "2 ^ (bit_length (n div 2) - 1) \<le> n div 2" "n div 2 < 2 ^ bit_length (n div 2)" "0 < bit_length (n div 2)"
      using 1 by auto
    have n: "bit_length n = Suc (bit_length (n div 2))" using 1(2) by (simp add: bit_length.simps [of n])
    have "2 * 2 ^ (bit_length (n div 2) - 1) \<le> n" using b(1) by linarith
    moreover have "2 * 2 ^ (bit_length (n div 2) - 1) = (2 :: nat) ^ bit_length (n div 2)"
      using b(3) by (cases "bit_length (n div 2)") simp_all
    ultimately show ?thesis using b(2) unfolding n by simp
  qed
qed

lemma round_half_even_bounds:
  assumes "0 < b"
  shows "2 * round_half_even a b * b \<le> 2 * a + b" "2 * a \<le> 2 * round_half_even a b * b + b"
proof -
  let ?R = "round_half_even a b"
  have a: "a = a div b * b + a mod b" by simp
  have "2 * ?R * b \<le> 2 * a + b \<and> 2 * a \<le> 2 * ?R * b + b"
  proof (cases "2 * (a mod b) < b \<or> 2 * (a mod b) = b \<and> even (a div b)")
    case True
    then have R: "?R = a div b" by (auto simp: round_half_even_def Let_def)
    have "2 * (a mod b) \<le> b" using True by auto
    then show ?thesis using a unfolding R mult.assoc by linarith
  next
    case False
    then have R: "?R = a div b + 1" by (auto simp: round_half_even_def Let_def)
    have "a mod b < b" "b \<le> 2 * (a mod b)" using False assms by auto
    moreover have "2 * (K + b) \<le> 2 * a + b \<and> 2 * a \<le> 2 * (K + b) + b" if "r < b" "b \<le> 2 * r" "a = K + r" for K r
      using that by auto
    ultimately show ?thesis using a unfolding R mult.assoc add_mult_distrib mult_1 by blast
  qed
  then show "2 * ?R * b \<le> 2 * a + b" "2 * a \<le> 2 * ?R * b + b" by blast+
qed

lemma round_half_even_near:
  assumes "2 * n * b < 2 * a + b" and "2 * a < 2 * n * b + b"
  shows "round_half_even a b = n"
proof -
  let ?R = "round_half_even a b"
  have "0 < b" using assms by (cases b) auto
  then have "?R * b < (n + 1) * b" "n * b < (?R + 1) * b"
    using assms round_half_even_bounds [of b a] by (auto simp: algebra_simps)
  then have "?R < n + 1" "n < ?R + 1" by (metis mult_less_cancel2)+
  then show ?thesis by simp
qed

text \<open>The quotient \<open>p / q\<close> scaled by a power of two.\<close>

lemma scaled_value:
  assumes "(a, b) = (if e < 0 then (p * 2 ^ nat (- e), q) else (p, q * 2 ^ nat e))" and "0 < q"
  shows "0 < b" "real p / real q = real a / real b * 2 powi e"
  using assms by (auto simp: powi_nat [of 2 e] split: if_splits)

text \<open>The double is the one with the exponent of the binade, or the lowest exponent, and the
  rounded significand.\<close>

definition make_double :: "bool \<Rightarrow> nat \<Rightarrow> int \<Rightarrow> double" where
  "make_double neg n e =
     (let (n', e3) = (if n = 2 ^ 53 then (2 ^ 52, e + 1) else (n, e))
      in if n' = 0 then Dbl neg 0 0 else if e3 > 971 then Dbl_Inf neg else Dbl neg n' e3)"

text \<open>The quotient lies within a factor of two of the difference of the bit lengths.\<close>

lemma quotient_range:
  assumes "0 < p" "0 < q" and e0: "e0 = int (bit_length p) - int (bit_length q) - 53"
  shows "2 powi (e0 + 52) < real p / real q" "real p / real q < 2 powi (e0 + 54)"
proof -
  let ?x = "real p / real q"
  note p = bit_length_bounds [OF assms(1)] and q = bit_length_bounds [OF assms(2)]
  have "real (2 ^ (bit_length p - 1)) \<le> real p" "real p < real (2 ^ bit_length p)"
    "real (2 ^ (bit_length q - 1)) \<le> real q" "real q < real (2 ^ bit_length q)" "0 < real q"
    using p q assms(2) by (simp_all only: of_nat_le_iff of_nat_less_iff of_nat_0_less_iff)
  moreover have "int (bit_length p) - 1 = int (bit_length p - 1)" "int (bit_length q) - 1 = int (bit_length q - 1)" using p q by auto
  ultimately have r: "2 powi (int (bit_length p) - 1) \<le> real p" "real p < 2 powi int (bit_length p)"
    "2 powi (int (bit_length q) - 1) \<le> real q" "real q < 2 powi int (bit_length q)" "0 < real q"
    by (simp_all only: power_int_of_nat of_nat_power of_nat_numeral)
  have "2 powi (int (bit_length p) - 1) / 2 powi int (bit_length q) < ?x"
    using r assms by (intro frac_less2) simp_all
  moreover have "e0 + 52 = int (bit_length p) - 1 - int (bit_length q)" by (simp add: e0)
  ultimately show "2 powi (e0 + 52) < ?x" by (metis power_int_diff zero_neq_numeral)
  have "?x < 2 powi int (bit_length p) / 2 powi (int (bit_length q) - 1)"
    using r assms by (intro frac_less) simp_all
  moreover have "e0 + 54 = int (bit_length p) - (int (bit_length q) - 1)" by (simp add: e0)
  ultimately show "?x < 2 powi (e0 + 54)" by (metis power_int_diff zero_neq_numeral)
qed

lemma nearest_double_round:
  assumes "0 < p" "0 < q" and "2 powi (k + 52) \<le> real p / real q" "real p / real q < 2 powi (k + 53)"
  shows "\<exists>c d. 0 < d \<and> real p / real q = real c / real d * 2 powi (max (- 1074) k) \<and>
    nearest_double neg p q = make_double neg (round_half_even c d) (max (- 1074) k)"
proof -
  let ?x = "real p / real q"
  define scaled where "scaled = (\<lambda>e :: int. if e < 0 then (p * 2 ^ nat (- e), q) else (p, q * 2 ^ nat e))"
  define e0 where "e0 = int (bit_length p) - int (bit_length q) - 53"
  obtain a b where ab: "scaled e0 = (a, b)" by fastforce
  have x0: "0 < b" "?x = real a / real b * 2 powi e0" using scaled_value [of a b e0 p q] ab assms(2) by (simp_all add: scaled_def)
  have big: "2 ^ 53 * b \<le> a \<longleftrightarrow> 2 powi (e0 + 53) \<le> ?x"
  proof -
    have "2 ^ 53 * b \<le> a \<longleftrightarrow> real (2 ^ 53 * b) \<le> real a" by (simp only: of_nat_le_iff)
    also have "\<dots> \<longleftrightarrow> 2 ^ 53 * 2 powi e0 \<le> real a / real b * 2 powi e0" using x0(1) by (simp add: field_simps)
    finally show ?thesis using x0(2) by (simp add: power_int_add mult.commute)
  qed
  note range = quotient_range [OF assms(1,2) e0_def]
  have e1: "(if a \<ge> 2 ^ 53 * b then e0 + 1 else e0) = k"
  proof (cases "2 ^ 53 * b \<le> a")
    case True
    then have "(2 :: real) powi (k + 52) < 2 powi (e0 + 54)" "(2 :: real) powi (e0 + 53) < 2 powi (k + 53)"
      using range assms(3,4) big by linarith+
    then show ?thesis using True by (simp add: powi2_less_iff)
  next
    case False
    then have "(2 :: real) powi (k + 52) < 2 powi (e0 + 53)" "(2 :: real) powi (e0 + 52) < 2 powi (k + 53)"
      using range assms(3,4) big by linarith+
    then show ?thesis using False by (simp add: powi2_less_iff)
  qed
  let ?e2 = "max (- 1074) k"
  obtain c d where cd: "scaled ?e2 = (c, d)" by fastforce
  have x2: "0 < d" "?x = real c / real d * 2 powi ?e2" using scaled_value [of c d ?e2 p q] cd assms(2) by (simp_all add: scaled_def)
  show ?thesis
    using assms(1) x2 unfolding nearest_double_def make_double_def Let_def scaled_def [symmetric] e0_def [symmetric] ab prod.case e1 cd
    by (intro exI [of _ c] exI [of _ d]) simp
qed

lemma nearest_double_step:
  assumes "0 < p" "0 < q" and "2 powi (k + 52) \<le> real p / real q" "real p / real q < 2 powi (k + 53)"
    and "(real n - 1 / 2) * 2 powi (max (- 1074) k) < real p / real q" "real p / real q < (real n + 1 / 2) * 2 powi (max (- 1074) k)"
  shows "nearest_double neg p q = make_double neg n (max (- 1074) k)"
proof -
  obtain c d where x2: "0 < d" "real p / real q = real c / real d * 2 powi (max (- 1074) k)"
      "nearest_double neg p q = make_double neg (round_half_even c d) (max (- 1074) k)"
    using nearest_double_round [OF assms(1-4)] by blast
  have "real n - 1 / 2 < real c / real d"
    using assms(5) unfolding x2(2) by (rule mult_right_less_imp_less) simp
  moreover have "real c / real d < real n + 1 / 2"
    using assms(6) unfolding x2(2) by (rule mult_right_less_imp_less) simp
  ultimately have "2 * real n * real d < 2 * real c + real d" "2 * real c < 2 * real n * real d + real d"
    using x2(1) by (simp_all add: field_simps)
  then have "real (2 * n * d) < real (2 * c + d)" "real (2 * c) < real (2 * n * d + d)" by simp_all
  then have n: "round_half_even c d = n" by (intro round_half_even_near) (simp_all only: of_nat_less_iff)
  then show ?thesis using x2(3) by simp
qed

text \<open>Every positive number is in one binade.\<close>

lemma binade:
  assumes "0 < (x :: real)"
  shows "\<exists>k. 2 powi (k + 52) \<le> x \<and> x < 2 powi (k + 53)"
proof -
  have p: "(2 :: real) powi i = 2 powr real_of_int i" for i by (simp add: powr_real_of_int' power_int_def)
  define k where "k = \<lfloor>log 2 x\<rfloor> - 52"
  have f: "log 2 x < 1 + real_of_int \<lfloor>log 2 x\<rfloor>" by linarith
  have "2 powr real_of_int (k + 52) \<le> x" "x < 2 powr real_of_int (k + 53)"
    using assms f by (simp_all add: k_def powr_le_iff less_powr_iff)
  then show ?thesis unfolding p [symmetric] by blast
qed

lemma lower_upper_near:
  assumes "\<not> closer m e" "0 < m"
  shows "lower m e = (real m - 1 / 2) * 2 powi e" "upper m e = (real m + 1 / 2) * 2 powi e"
proof -
  have "(2 :: real) powi (e - 1) * 2 = 2 powi e" by (simp add: power_int_diff)
  moreover have "real (2 * m - 1) = 2 * real m - 1" using assms(2) by (simp add: of_nat_diff)
  ultimately show "lower m e = (real m - 1 / 2) * 2 powi e" "upper m e = (real m + 1 / 2) * 2 powi e"
    using assms(1) by (simp_all add: lower_def upper_def algebra_simps) 
qed

lemma closer_near:
  assumes "closer m e"
  shows "lower m e = (2 ^ 53 - 1 / 2) * 2 powi (e - 1)" "upper m e = (2 ^ 52 + 1 / 2) * 2 powi e"
proof -
  have m: "m = 2 ^ 52" using assms by (simp add: closer_def)
  have "real (4 * m - 1) = 2 ^ 54 - 1" "real (2 * m + 1) = 2 ^ 53 + 1" by (simp_all add: m)
  then show "lower m e = (2 ^ 53 - 1 / 2) * 2 powi (e - 1)" "upper m e = (2 ^ 52 + 1 / 2) * 2 powi e"
    unfolding lower_def upper_def if_P [OF assms] by (simp_all add: power_int_diff)
qed

text \<open>Below a power of two whose lower neighbour is closer: the number is rounded up to it.\<close>

lemma nearest_double_closer:
  assumes "closer m e" "e \<le> 971" "0 < p" "0 < q" and lo: "lower m e < real p / real q" and x: "real p / real q < 2 powi (e + 52)"
  shows "nearest_double neg p q = Dbl neg m e"
proof -
  let ?x = "real p / real q"
  obtain k where k: "2 powi (k + 52) \<le> ?x" "?x < 2 powi (k + 53)" using binade [of ?x] assms(3,4) by auto
  note near = closer_near [OF assms(1)]
  have mm: "m = 2 ^ 52" "- 1074 < e" using assms(1) by (auto simp: closer_def)
  have "(2 :: real) powi (e + 51) \<le> (2 ^ 53 - 1 / 2) * 2 powi (e - 1)"
    by (simp add: power_int_add power_int_diff)
  then have "(2 :: real) powi (e + 51) < 2 powi (k + 53)" "(2 :: real) powi (k + 52) < 2 powi (e + 52)"
    using k lo x near by linarith+
  then have mx: "max (- 1074) k = e - 1" using mm by (simp add: powi2_less_iff)
  have "(2 :: real) powi (e + 52) \<le> (real (2 ^ 53) + 1 / 2) * 2 powi (e - 1)" by (simp add: power_int_add power_int_diff)
  then have x': "?x < (real (2 ^ 53) + 1 / 2) * 2 powi (e - 1)" using x by linarith
  have "nearest_double neg p q = make_double neg (2 ^ 53) (max (- 1074) k)"
    by (rule nearest_double_step [OF assms(3,4) k]) (use lo near x' in \<open>simp_all add: mx\<close>)
  then show ?thesis using assms(2) mm by (simp add: mx make_double_def)
qed

text \<open>Otherwise the number is within half a unit of the last place, and in the binade of the
  double or at the least exponent.\<close>

lemma between_half_unit:
  assumes "canonical m e" and "lower m e < x" "x < upper m e" and "closer m e \<Longrightarrow> 2 powi (e + 52) \<le> x"
  shows "(real m - 1 / 2) * 2 powi e < x" "x < (real m + 1 / 2) * 2 powi e"
proof -
  have "(real m - 1 / 2) * 2 powi e < x \<and> x < (real m + 1 / 2) * 2 powi e"
  proof (cases "closer m e")
    case True
    then have mm: "m = 2 ^ 52" by (simp add: closer_def)
    have "(real m - 1 / 2) * 2 powi e < 2 powi (e + 52)" by (simp add: mm power_int_add)
    moreover have "x < (real m + 1 / 2) * 2 powi e"
      using assms(3) closer_near(2) [OF True] by (simp only: mm of_nat_power of_nat_numeral)
    ultimately show ?thesis using assms(4) [OF True] by linarith
  next
    case False
    have "0 < m" using assms(1) by (simp add: canonical_def)
    then show ?thesis using assms(2,3) lower_upper_near [OF False] by simp
  qed
  then show "(real m - 1 / 2) * 2 powi e < x" "x < (real m + 1 / 2) * 2 powi e" by blast+
qed

lemma half_unit_binade:
  assumes can: "canonical m e" and near: "(real m - 1 / 2) * 2 powi e < x" "x < (real m + 1 / 2) * 2 powi e"
    and low: "closer m e \<Longrightarrow> 2 powi (e + 52) \<le> x"
  shows "x < 2 powi (e + 53)" "2 powi (e + 52) \<le> x \<or> e = - 1074"
proof -
  have m: "m < 2 ^ 53" and e: "2 ^ 52 \<le> m \<or> e = - 1074" "- 1074 \<le> e"
    using can by (auto simp: canonical_def)
  have "real m + 1 \<le> 2 ^ 53" using m by (simp add: Suc_le_eq)
  then have "(real m + 1 / 2) * 2 powi e \<le> 2 ^ 53 * 2 powi e" by (intro mult_right_mono) simp_all
  moreover have "(2 :: real) powi (e + 53) = 2 ^ 53 * 2 powi e" by (simp add: power_int_add)
  ultimately show "x < 2 powi (e + 53)" using near(2) by linarith
  consider "e = - 1074" | "closer m e" | "2 ^ 52 + 1 \<le> m"
    using e by (cases "e = - 1074"; cases "m = 2 ^ 52") (auto simp: closer_def)
  then show "2 powi (e + 52) \<le> x \<or> e = - 1074"
  proof cases
    case 3
    then have "real (2 ^ 52 + 1) \<le> real m" by (simp only: of_nat_le_iff)
    then have "2 ^ 52 * 2 powi e \<le> (real m - 1 / 2) * 2 powi e" by (intro mult_right_mono) simp_all
    moreover have "(2 :: real) powi (e + 52) = 2 ^ 52 * 2 powi e" by (simp add: power_int_add)
    ultimately show ?thesis using near(1) by linarith
  qed (use low in simp_all)
qed

text \<open>Every number strictly between the boundaries of a double rounds to it.\<close>

lemma nearest_double_between:
  assumes "canonical m e" "0 < q" and "lower m e < real p / real q" "real p / real q < upper m e"
  shows "nearest_double neg p q = Dbl neg m e"
proof -
  let ?x = "real p / real q"
  have m: "m < 2 ^ 53" "0 < m" and e: "- 1074 \<le> e" "e \<le> 971"
    using assms(1) by (auto simp: canonical_def)
  have "0 \<le> lower m e" by (simp add: lower_def)
  then have p: "0 < p" using assms(3) by (cases p) simp_all
  obtain k where k: "2 powi (k + 52) \<le> ?x" "?x < 2 powi (k + 53)" using binade [of ?x] p assms(2) by auto
  show ?thesis
  proof (cases "closer m e \<and> ?x < 2 powi (e + 52)")
    case True
    then show ?thesis using nearest_double_closer [OF _ e(2) p assms(2,3)] by blast
  next
    case False
    then have low: "closer m e \<Longrightarrow> 2 powi (e + 52) \<le> ?x" by simp
    note near = between_half_unit [OF assms(1,3,4) low]
    note bin = half_unit_binade [OF assms(1) near low]
    have "(2 :: real) powi (k + 52) < 2 powi (e + 53)" "2 powi (e + 52) < (2 :: real) powi (k + 53) \<or> e = - 1074"
      using k bin by linarith+
    then have mx: "max (- 1074) k = e" using e by (auto simp: powi2_less_iff)
    have "nearest_double neg p q = make_double neg m (max (- 1074) k)"
      by (rule nearest_double_step [OF p assms(2) k]) (use near in \<open>simp_all only: mx\<close>)
    then show ?thesis using e m by (simp add: mx make_double_def)
  qed
qed

lemma nearest_double_ok:
  assumes "0 < q"
  shows "double_ok (nearest_double neg p q)"
proof (cases "p = 0")
  case True
  then show ?thesis by (simp add: nearest_double_def)
next
  case False
  let ?x = "real p / real q"
  have "0 < ?x" using False assms by simp
  then obtain k where k: "2 powi (k + 52) \<le> ?x" "?x < 2 powi (k + 53)" using binade by blast
  define e where "e = max (- 1074) k"
  obtain c d where cd: "0 < d" "?x = real c / real d * 2 powi e"
      "nearest_double neg p q = make_double neg (round_half_even c d) e"
    using nearest_double_round [OF _ assms k] False unfolding e_def by blast
  let ?n = "round_half_even c d"
  have "(2 :: real) powi (k + 53) \<le> 2 powi (e + 53)" by (intro power_int_increasing) (simp_all add: e_def)
  then have "real c / real d * 2 powi e < 2 ^ 53 * 2 powi e" using k(2) cd(2) by (simp add: power_int_add mult.commute)
  then have "real c / real d < 2 ^ 53" by (rule mult_right_less_imp_less) simp
  then have "real c < real (2 ^ 53 * d)" using cd(1) by (simp add: field_simps)
  then have c: "c < 2 ^ 53 * d" by (simp only: of_nat_less_iff)
  have n: "2 * ?n * d \<le> 2 * c + d" "2 * c \<le> 2 * ?n * d + d" using round_half_even_bounds [OF cd(1)] by blast+
  have "2 * c + d < (2 ^ 54 + 1) * d" using c by simp
  then have "2 * ?n * d < (2 ^ 54 + 1) * d" by (rule le_less_trans [OF n(1)])
  then have "2 * ?n < 2 ^ 54 + 1" by (metis mult_less_cancel2)
  then have up: "?n \<le> 2 ^ 53" by simp
  have lo: "2 ^ 52 \<le> ?n" if "e \<noteq> - 1074"
  proof -
    have "e = k" using that by (auto simp: e_def max_def split: if_splits)
    then have "2 ^ 52 * 2 powi e \<le> real c / real d * 2 powi e" using k(1) cd(2) by (simp add: power_int_add mult.commute)
    then have "2 ^ 52 \<le> real c / real d" by (rule mult_right_le_imp_le) simp
    then have "real (2 ^ 52 * d) \<le> real c" using cd(1) by (simp add: field_simps)
    then have "2 ^ 52 * d \<le> c" by (simp only: of_nat_le_iff)
    then have "2 ^ 53 * d \<le> 2 * c" by simp
    then have "2 ^ 53 * d \<le> (2 * ?n + 1) * d" using n(2) unfolding add_mult_distrib mult_1 by (rule le_trans)
    then have "2 ^ 53 \<le> 2 * ?n + 1" using cd(1) by (metis mult_le_cancel2)
    then show ?thesis by simp
  qed
  show ?thesis
    using up lo cd(3) by (auto simp: make_double_def canonical_def e_def Let_def)
qed

section \<open>The text of a double\<close>

text \<open>The text of a number: the digits before the decimal point, those after it, and the exponent
  with its sign.\<close>

definition number_text :: "char \<Rightarrow> string \<Rightarrow> string option \<Rightarrow> (bool \<times> string) option \<Rightarrow> string" where
  "number_text point w f x =
     w @ (case f of None \<Rightarrow> [] | Some ds \<Rightarrow> point # ds) @
     (case x of None \<Rightarrow> [] | Some (neg, ds) \<Rightarrow> CHR ''e'' # (if neg then CHR ''-'' else CHR ''+'') # ds)"

definition digit_text :: "string \<Rightarrow> bool" where
  "digit_text ds \<longleftrightarrow> ds \<noteq> [] \<and> list_all is_digit_char ds"

definition number_ok :: "string \<Rightarrow> string option \<Rightarrow> (bool \<times> string) option \<Rightarrow> bool" where
  "number_ok w f x \<longleftrightarrow> digit_text w \<and> (hd w = CHR ''0'' \<longrightarrow> w = ''0'') \<and>
     (\<forall>ds. f = Some ds \<longrightarrow> digit_text ds) \<and> (\<forall>neg ds. x = Some (neg, ds) \<longrightarrow> digit_text ds) \<and> (f \<noteq> None \<or> x \<noteq> None)"

definition exponent_value :: "(bool \<times> string) option \<Rightarrow> int" where
  "exponent_value x = (case x of None \<Rightarrow> 0 | Some (neg, ds) \<Rightarrow> (if neg then - 1 else 1) * int (digits_value ds))"

definition fraction_digits :: "string option \<Rightarrow> string" where
  "fraction_digits f = (case f of None \<Rightarrow> [] | Some ds \<Rightarrow> ds)"

definition number_value :: "string \<Rightarrow> string option \<Rightarrow> (bool \<times> string) option \<Rightarrow> real" where
  "number_value w f x = decimal (w @ fraction_digits f) (exponent_value x - int (length (fraction_digits f)))"

text \<open>The decimal points a locale can have for which the text of a number stays unambiguous.\<close>

definition point_ok :: "char \<Rightarrow> bool" where
  "point_ok point \<longleftrightarrow> \<not> is_digit_char point \<and> point \<noteq> CHR ''e''"

lemma takeWhile_digits:
  assumes "list_all is_digit_char ds" and "\<And>c r. s = c # r \<Longrightarrow> \<not> is_digit_char c"
  shows "takeWhile is_digit_char (ds @ s) = ds" "dropWhile is_digit_char (ds @ s) = s"
proof -
  have "takeWhile is_digit_char s = []" "dropWhile is_digit_char s = s"
    using assms(2) by (cases s; auto)+
  then show "takeWhile is_digit_char (ds @ s) = ds" "dropWhile is_digit_char (ds @ s) = s"
    using assms(1) by (induction ds) auto
qed

lemma not_digit_marks [simp]:
  "\<not> is_digit_char (CHR ''e'')" "\<not> is_digit_char (CHR ''-'')" "\<not> is_digit_char (CHR ''+'')" "\<not> is_digit_char (CHR ''.'')"
  by (simp_all add: is_digit_char_def)

lemma strtod_number:
  assumes "number_ok w f x" and "point_ok point"
  shows "\<exists>p q. 0 < q \<and> real p / real q = number_value w f x \<and>
    strtod point ((if neg then ''-'' else []) @ number_text point w f x) = nearest_double neg p q"
proof -
  let ?x = "case x of None \<Rightarrow> [] | Some (neg, ds) \<Rightarrow> CHR ''e'' # (if neg then CHR ''-'' else CHR ''+'') # ds"
  let ?f = "case f of None \<Rightarrow> [] | Some ds \<Rightarrow> point # ds"
  have w: "list_all is_digit_char w" "w \<noteq> []" using assms(1) by (auto simp: number_ok_def digit_text_def)
  have f: "list_all is_digit_char (fraction_digits f)" using assms(1)
    by (auto simp: number_ok_def digit_text_def fraction_digits_def split: option.splits)
  have pt: "\<not> is_digit_char point" "point \<noteq> CHR ''e''" using assms(2) by (auto simp: point_ok_def)
  define m where "m = digits_value (w @ fraction_digits f)"
  define ex where "ex = exponent_value x - int (length (fraction_digits f))"
  obtain c w' where c: "w = c # w'" "c \<noteq> CHR ''-''"
    using w not_digit_marks(2) by (metis list.exhaust list.pred_inject(2))
  have x0: "?x = c # r \<Longrightarrow> c = CHR ''e''" for c r by (auto split: option.splits)
  have tw: "takeWhile is_digit_char (w @ ?f @ ?x) = w" "dropWhile is_digit_char (w @ ?f @ ?x) = ?f @ ?x"
    by (rule takeWhile_digits; use w pt x0 in \<open>auto split: option.splits\<close>)+
  have fr: "(case ?f @ ?x of c # r \<Rightarrow> if c = point then takeWhile is_digit_char r else [] | [] \<Rightarrow> []) = fraction_digits f"
    "(case ?f @ ?x of c # r \<Rightarrow> if c = point then dropWhile is_digit_char r else ?f @ ?x | [] \<Rightarrow> []) = ?x"
  proof -
    have t: "takeWhile is_digit_char (ds @ ?x) = ds" "dropWhile is_digit_char (ds @ ?x) = ?x" if "f = Some ds" for ds
      by (rule takeWhile_digits; use f that x0 in \<open>auto simp: fraction_digits_def split: option.splits\<close>)+
    show "(case ?f @ ?x of c # r \<Rightarrow> if c = point then takeWhile is_digit_char r else [] | [] \<Rightarrow> []) = fraction_digits f"
      "(case ?f @ ?x of c # r \<Rightarrow> if c = point then dropWhile is_digit_char r else ?f @ ?x | [] \<Rightarrow> []) = ?x"
      using t pt(2) by (cases f; auto simp: fraction_digits_def split: option.splits list.splits)+
  qed
  have exs: "(case ?x of c # r \<Rightarrow> (case r of d # r' \<Rightarrow> if d = CHR ''-'' then - int (digits_value r')
        else if d = CHR ''+'' then int (digits_value r') else int (digits_value r) | [] \<Rightarrow> 0) | [] \<Rightarrow> 0) = exponent_value x"
    by (auto simp: exponent_value_def split: option.splits)
  have sg: "(case (if neg then ''-'' else []) @ w @ ?f @ ?x of c # r \<Rightarrow> if c = CHR ''-'' then (True, r) else (False, (if neg then ''-'' else []) @ w @ ?f @ ?x) | [] \<Rightarrow> (False, [])) = (neg, w @ ?f @ ?x)"
    by (simp add: c)
  have st: "strtod point ((if neg then ''-'' else []) @ number_text point w f x) =
      (if 0 \<le> ex then nearest_double neg (m * 10 ^ nat ex) 1 else nearest_double neg m (10 ^ nat (- ex)))"
    unfolding strtod_def number_text_def Let_def sg prod.case tw fr exs m_def [symmetric] ex_def [symmetric] by (rule refl)
  have v: "number_value w f x = real m * 10 ^ nat ex / 10 ^ nat (- ex)"
    using powi_nat [of 10 ex] by (simp add: number_value_def decimal_def m_def ex_def)
  show ?thesis
  proof (cases "0 \<le> ex")
    case True
    then show ?thesis using st v by (intro exI [of _ "m * 10 ^ nat ex"] exI [of _ 1]) simp
  next
    case False
    then show ?thesis using st v by (intro exI [of _ m] exI [of _ "10 ^ nat (- ex)"]) simp
  qed
qed

lemma digits_value_append: "digits_value (a @ b) = digits_value a * 10 ^ length b + digits_value b"
proof (induction b rule: rev_induct)
  case (snoc c b)
  have "digits_value (a @ b @ [c]) = 10 * digits_value (a @ b) + (of_char c - 48)"
    using digits_value_snoc [of "a @ b" c] by simp
  then show ?case using snoc by (simp add: digits_value_snoc algebra_simps)
qed (simp add: digits_value_def)

lemma digits_value_zeros [simp]: "digits_value (replicate n (CHR ''0'')) = 0"
  by (induction n) (simp_all add: digits_value_def)

lemma is_digit_zero [simp]: "is_digit_char (CHR ''0'')"
  by (simp add: is_digit_char_def)

lemma append_exponent_value:
  assumes "\<bar>e\<bar> < 1000"
  shows "\<exists>ds. append_exponent e = (if e < 0 then CHR ''-'' else CHR ''+'') # ds \<and> digit_text ds \<and>
    digits_value ds = nat \<bar>e\<bar> \<and> length ds \<le> 3"
proof -
  define k where "k = nat \<bar>e\<bar>"
  define ds where "ds = (if k < 10 then [CHR ''0'', char_of (48 + k)]
          else if k < 100 then [char_of (48 + k div 10), char_of (48 + k mod 10)]
          else [char_of (48 + k div 100), char_of (48 + k mod 100 div 10), char_of (48 + k mod 100 mod 10)])"
  have k: "k < 1000" using assms by (simp add: k_def)
  have "append_exponent e = (if e < 0 then CHR ''-'' else CHR ''+'') # ds"
    by (simp add: append_exponent_def ds_def k_def Let_def)
  moreover have d: "k div 10 < 10" if "k < 100" using that by simp
  moreover have "k div 100 < 10" "k mod 100 div 10 < 10" using k by (simp_all add: less_mult_imp_div_less)
  ultimately show ?thesis
    using digits_value_digit [of "k mod 100 mod 10" "[char_of (48 + k div 100), char_of (48 + k mod 100 div 10)]"]
      digits_value_digit [of "k mod 100 div 10" "[char_of (48 + k div 100)]"] digits_value_digit [of "k div 100" "[]"]
      digits_value_digit [of "k mod 10" "[char_of (48 + k div 10)]"] digits_value_digit [of "k div 10" "[]"]
      digits_value_digit [of k "[CHR ''0'']"]
    by (intro exI [of _ ds]) (auto simp: ds_def digit_text_def is_digit_char_of digits_value_def k_def [symmetric])
qed

lemma decimal_zeros:
  assumes "0 \<le> ex"
  shows "decimal (buf @ replicate (nat ex) (CHR ''0'') @ ''0'') (- 1) = decimal buf ex"
proof -
  have "digits_value (buf @ replicate (nat ex) (CHR ''0'') @ ''0'') = digits_value buf * 10 ^ nat ex * 10"
    using digits_value_append [of "replicate (nat ex) (CHR ''0'')" "''0''"]
    by (simp add: digits_value_append digits_value_def [of "''0''"])
  then show ?thesis using assms by (simp add: decimal_def power_int_minus power_int_def)
qed

lemma decimal_leading_zeros: "decimal (replicate n (CHR ''0'') @ buf) ex = decimal buf ex"
  by (simp add: decimal_def digits_value_append)

text \<open>The four layouts of \<open>format_buffer\<close>: trailing zeros, a point inside the digits, leading
  zeros, an exponent.\<close>

definition formats :: "string \<Rightarrow> int \<Rightarrow> string \<Rightarrow> string option \<Rightarrow> (bool \<times> string) option \<Rightarrow> bool" where
  "formats buf ex w f x \<longleftrightarrow> format_buffer buf ex (- 4) 15 = number_text (CHR ''.'') w f x \<and> number_ok w f x \<and>
     number_value w f x = decimal buf ex \<and> length (format_buffer buf ex (- 4) 15) \<le> 23"

lemma format_zeros:
  assumes "digits_ok buf" "0 \<le> ex" "int (length buf) + ex \<le> 15"
  shows "formats buf ex (buf @ replicate (nat ex) (CHR ''0'')) (Some ''0'') None"
proof -
  have t: "format_buffer buf ex (- 4) 15 = buf @ replicate (nat ex) (CHR ''0'') @ ''.0''"
    using assms by (simp add: format_buffer_def Let_def)
  have "number_ok (buf @ replicate (nat ex) (CHR ''0'')) (Some ''0'') None"
    using assms(1) by (auto simp: digits_ok_def number_ok_def digit_text_def hd_append list_all_iff)
  moreover have "number_value (buf @ replicate (nat ex) (CHR ''0'')) (Some ''0'') None = decimal buf ex"
    using assms(2) decimal_zeros [of ex buf] by (simp add: number_value_def fraction_digits_def exponent_value_def)
  moreover have "length (format_buffer buf ex (- 4) 15) \<le> 23" using assms(2,3) unfolding t by (simp add: nat_le_iff)
  ultimately show ?thesis using t by (simp add: formats_def number_text_def)
qed

lemma digit_text_parts:
  assumes "digits_ok buf"
  shows "0 < i \<Longrightarrow> digit_text (take i buf)" "0 < i \<Longrightarrow> hd (take i buf) \<noteq> CHR ''0''" "i < length buf \<Longrightarrow> digit_text (drop i buf)"
proof -
  have b: "list_all is_digit_char buf" "buf \<noteq> []" "hd buf \<noteq> CHR ''0''" using assms by (auto simp: digits_ok_def)
  show "digit_text (take i buf)" "hd (take i buf) \<noteq> CHR ''0''" if "0 < i"
    using b that by (cases buf; cases i; auto simp: digit_text_def list_all_iff dest: in_set_takeD)+
  show "digit_text (drop i buf)" if "i < length buf"
    using b that by (auto simp: digit_text_def list_all_iff dest: in_set_dropD)
qed

lemma format_point:
  assumes "digits_ok buf" "length buf \<le> 17" "0 < int (length buf) + ex" "ex < 0" "int (length buf) + ex \<le> 15"
  shows "formats buf ex (take (nat (int (length buf) + ex)) buf) (Some (drop (nat (int (length buf) + ex)) buf)) None"
proof -
  let ?i = "nat (int (length buf) + ex)"
  have i: "0 < ?i" "?i < length buf" using assms by auto
  have t: "format_buffer buf ex (- 4) 15 = take ?i buf @ CHR ''.'' # drop ?i buf"
    using assms by (simp add: format_buffer_def Let_def)
  have "number_ok (take ?i buf) (Some (drop ?i buf)) None"
    using digit_text_parts [OF assms(1)] i by (auto simp: number_ok_def)
  moreover have "number_value (take ?i buf) (Some (drop ?i buf)) None = decimal buf ex"
    using i by (simp add: number_value_def fraction_digits_def exponent_value_def of_nat_diff)
  moreover have "length (format_buffer buf ex (- 4) 15) \<le> 23" using assms(2) unfolding t by simp
  ultimately show ?thesis using t by (simp add: formats_def number_text_def)
qed

lemma format_small:
  assumes "digits_ok buf" "length buf \<le> 17" "- 4 < int (length buf) + ex" "int (length buf) + ex \<le> 0"
  shows "formats buf ex ''0'' (Some (replicate (nat (- (int (length buf) + ex))) (CHR ''0'') @ buf)) None"
proof -
  let ?z = "replicate (nat (- (int (length buf) + ex))) (CHR ''0'')"
  have b: "list_all is_digit_char buf" "buf \<noteq> []" using assms(1) by (auto simp: digits_ok_def)
  then have "0 < length buf" by simp
  then have "ex < 0" using assms by linarith
  then have t: "format_buffer buf ex (- 4) 15 = ''0.'' @ ?z @ buf"
    using assms by (simp add: format_buffer_def Let_def)
  have "number_ok ''0'' (Some (?z @ buf)) None"
    using b by (auto simp: number_ok_def digit_text_def list_all_iff)
  moreover have "number_value ''0'' (Some (?z @ buf)) None = decimal buf ex"
  proof -
    have "''0'' @ ?z @ buf = replicate (Suc (nat (- (int (length buf) + ex)))) (CHR ''0'') @ buf" by simp
    then have "decimal (''0'' @ ?z @ buf) ex = decimal buf ex" by (simp only: decimal_leading_zeros)
    then show ?thesis using assms by (simp add: number_value_def fraction_digits_def exponent_value_def)
  qed
  moreover have "length (format_buffer buf ex (- 4) 15) \<le> 23" using assms unfolding t by simp
  ultimately show ?thesis using t by (simp add: formats_def number_text_def)
qed

lemma format_exponent:
  assumes "digits_ok buf" "length buf \<le> 17" "- 324 < n" "n \<le> 309" "\<not> (- 4 < n \<and> n \<le> 15)" and n: "n = int (length buf) + ex"
  shows "\<exists>w f x. formats buf ex w f x"
proof -
  have "\<bar>n - 1\<bar> < 1000" using assms(3,4) by linarith
  then obtain ds where ds: "append_exponent (n - 1) = (if n - 1 < 0 then CHR ''-'' else CHR ''+'') # ds" "digit_text ds"
      "digits_value ds = nat \<bar>n - 1\<bar>" "length ds \<le> 3"
    using append_exponent_value [of "n - 1"] by blast
  let ?x = "Some (n - 1 < 0, ds)" and ?f = "if length buf = 1 then None else Some (drop 1 buf)"
  have len: "0 < length buf" using assms(1) by (simp add: digits_ok_def)
  have t: "format_buffer buf ex (- 4) 15 = number_text (CHR ''.'') (take 1 buf) ?f ?x"
    using assms(5) len ds(1) unfolding n by (auto simp: format_buffer_def Let_def number_text_def)
  have "1 < length buf" if "length buf \<noteq> 1" using that len by linarith
  then have "number_ok (take 1 buf) ?f ?x"
    using digit_text_parts [OF assms(1), of 1] ds(2) by (simp add: number_ok_def)
  moreover have "number_value (take 1 buf) ?f ?x = decimal buf ex"
  proof -
    have f: "take 1 buf @ fraction_digits ?f = buf" using len by (auto simp: fraction_digits_def)
    have "int (length (fraction_digits ?f)) = int (length buf) - 1" using len by (cases "length buf") (auto simp: fraction_digits_def)
    moreover have "exponent_value ?x = n - 1" by (simp add: exponent_value_def ds(3))
    ultimately show ?thesis unfolding number_value_def f by (simp add: n)
  qed
  moreover have "length (format_buffer buf ex (- 4) 15) \<le> 23"
    using assms(2) ds(4) len unfolding t by (auto simp: number_text_def)
  ultimately show ?thesis using t unfolding formats_def by blast
qed

text \<open>The shapes of the text: it is a number with a fraction or an exponent, its value is that of
  the digits, and it fits the buffer of 64 bytes.\<close>

lemma format_buffer_number:
  assumes "digits_ok buf" and "length buf \<le> 17" and "- 324 < int (length buf) + ex" "int (length buf) + ex \<le> 309"
  shows "\<exists>w f x. format_buffer buf ex (- 4) 15 = number_text (CHR ''.'') w f x \<and> number_ok w f x \<and>
    number_value w f x = decimal buf ex \<and> length (format_buffer buf ex (- 4) 15) \<le> 23"
proof -
  let ?n = "int (length buf) + ex"
  consider (zeros) "0 \<le> ex" "?n \<le> 15" | (point) "0 < ?n" "ex < 0" "?n \<le> 15" | (small) "- 4 < ?n" "?n \<le> 0"
    | (exp) "\<not> (- 4 < ?n \<and> ?n \<le> 15)" by linarith
  then have "\<exists>w f x. formats buf ex w f x"
    using format_zeros [OF assms(1)] format_point [OF assms(1,2)] format_small [OF assms(1,2)] format_exponent [OF assms _ refl]
    by cases blast+
  then show ?thesis by (simp add: formats_def)
qed

text \<open>The text of a finite double that is not zero, with its sign.\<close>

lemma to_chars_number:
  assumes "canonical m e"
  shows "\<exists>w f x. to_chars neg m e = (if neg then ''-'' else []) @ number_text (CHR ''.'') w f x \<and> number_ok w f x \<and>
    lower m e < number_value w f x \<and> number_value w f x < upper m e \<and> length (to_chars neg m e) \<le> 24"
proof -
  obtain buf ex where g: "grisu2 m e = (buf, ex)" by fastforce
  note d = grisu2_digits [OF assms g] and ex = grisu2_exponent [OF assms g]
  have "m \<noteq> 0" using assms by (simp add: canonical_def)
  then have t: "to_chars neg m e = (if neg then ''-'' else []) @ format_buffer buf ex (- 4) 15"
    by (simp add: to_chars_def g)
  obtain w f x where f: "format_buffer buf ex (- 4) 15 = number_text (CHR ''.'') w f x" "number_ok w f x"
      "number_value w f x = decimal buf ex" "length (format_buffer buf ex (- 4) 15) \<le> 23"
    using format_buffer_number [OF d(1,2) ex] by blast
  then have "length (to_chars neg m e) \<le> 24" unfolding t by simp
  then show ?thesis using f d(3,4) t by metis
qed

lemma to_chars_zero:
  "to_chars neg 0 e = (if neg then ''-'' else []) @ number_text (CHR ''.'') ''0'' (Some ''0'') None"
  "number_ok ''0'' (Some ''0'') None" "number_value ''0'' (Some ''0'') None = 0"
  by (simp_all add: to_chars_def number_text_def number_ok_def digit_text_def number_value_def fraction_digits_def
      exponent_value_def decimal_def digits_value_def)

lemma to_chars_nearest:
  assumes "double_ok (Dbl neg m e)"
  shows "\<exists>w f x. to_chars neg m e = (if neg then ''-'' else []) @ number_text (CHR ''.'') w f x \<and> number_ok w f x \<and>
    (\<forall>p q. 0 < q \<and> real p / real q = number_value w f x \<longrightarrow> nearest_double neg p q = Dbl neg m e)"
proof (cases "m = 0")
  case True
  then have "e = 0" using assms by (auto simp: canonical_def)
  moreover have "nearest_double neg p q = Dbl neg 0 0" if "0 < q" "real p / real q = 0" for p q
    using that by (simp add: nearest_double_def)
  ultimately show ?thesis using True to_chars_zero by metis
next
  case False
  then have c: "canonical m e" using assms by simp
  obtain w f x where t: "to_chars neg m e = (if neg then ''-'' else []) @ number_text (CHR ''.'') w f x" "number_ok w f x"
      "lower m e < number_value w f x" "number_value w f x < upper m e"
    using to_chars_number [OF c] by blast
  have "nearest_double neg p q = Dbl neg m e" if "0 < q" "real p / real q = number_value w f x" for p q
    by (rule nearest_double_between [OF c that(1)]) (simp_all only: that(2) t(3,4))
  then show ?thesis using t by blast
qed

text \<open>C9: a finite double that the serializer prints is read back exactly: converting the
  printed text gives the same sign, significand and exponent, and the text with its sign has
  at most 24 characters.\<close>

theorem printed_double_reads_back:
  assumes "double_ok (Dbl neg m e)"
  shows "strtod (CHR ''.'') (to_chars neg m e) = Dbl neg m e \<and> length (to_chars neg m e) \<le> 24"
proof
  obtain w f x where t: "to_chars neg m e = (if neg then ''-'' else []) @ number_text (CHR ''.'') w f x" "number_ok w f x"
      "\<And>p q. 0 < q \<and> real p / real q = number_value w f x \<longrightarrow> nearest_double neg p q = Dbl neg m e"
    using to_chars_nearest [OF assms] by blast
  have "point_ok (CHR ''.'')" by (simp add: point_ok_def is_digit_char_def)
  then show "strtod (CHR ''.'') (to_chars neg m e) = Dbl neg m e"
    using strtod_number [OF t(2), of "CHR ''.''" neg] t(3) unfolding t(1) by metis
  show "length (to_chars neg m e) \<le> 24"
  proof (cases "m = 0")
    case True
    then show ?thesis by (simp add: to_chars_def)
  next
    case False
    then have "canonical m e" using assms by simp
    then show ?thesis using to_chars_number [of m e neg] by blast
  qed
qed

theorem printed_double_reads_back_witness:
  "strtod (CHR ''.'') (to_chars True 6755399441055744 (- 52)) = Dbl True 6755399441055744 (- 52) \<and>
   length (to_chars True 6755399441055744 (- 52)) \<le> 24"
  by (rule printed_double_reads_back) (simp add: canonical_def)

end
