(* ===== verification/Json_Wellformed.thy ===== *)
theory Json_Wellformed
  imports Json_Parser Json_Text Grisu2_Text
begin

unbundle bit_operations_syntax

text \<open>
  Whatever text it is given, the parser builds only well-formed values: the members of every
  object are in strictly ascending key order, and every string and every key is valid UTF-8.
  The bytes that \<open>scan_string\<close> collects are valid because the ranges it checks are those
  of well-formed UTF-8 and because the code points of its unicode escapes are encoded so
  (\<open>add_codepoint\<close>, surrogate pairs joined and lone surrogates refused).
\<close>

section \<open>Valid UTF-8 by parts\<close>

lemma utf8_run_append: "utf8_run rs s \<Longrightarrow> utf8_run rs (s @ t) = utf8_run [] t"
  by (induction rs s rule: utf8_run.induct) (auto split: if_splits option.splits)

lemma utf8_valid_append: "utf8_valid s \<Longrightarrow> utf8_valid (s @ t) = utf8_valid t"
  by (simp add: utf8_valid_def utf8_run_append)

lemma utf8_valid_Nil [simp]: "utf8_valid []"
  by (simp add: utf8_valid_def)

lemma of_char_of_int: "0 \<le> c \<Longrightarrow> c < 256 \<Longrightarrow> (of_char (char_of c :: char) :: nat) = nat c"
proof -
  assume "0 \<le> c" "c < 256"
  then have "(of_char (char_of c :: char) :: int) = c"
    by (simp del: of_char_int)
  then show ?thesis by simp
qed

lemma utf8_valid_ascii: "0 \<le> c \<Longrightarrow> c < 0x80 \<Longrightarrow> utf8_valid [char_of c]" for c :: int
  by (simp add: utf8_valid_def of_char_of_int)

lemma utf8_valid_seq:
  fixes c :: int
  assumes "0x80 \<le> c" "c < 256" "utf8_ranges c = Some rs"
  shows "utf8_valid (char_of c # s) = utf8_run rs s"
  using assms by (simp add: utf8_valid_def of_char_of_int)

lemma utf8_run_byte:
  fixes c :: int
  assumes "0 \<le> c" "c < 256"
  shows "utf8_run (r # rs) (char_of c # s) \<longleftrightarrow> fst r \<le> c \<and> c \<le> snd r \<and> utf8_run rs s"
  using assms by (simp add: of_char_of_int)

section \<open>The bytes of a code point\<close>

lemma or_disjoint: "(m :: int) mod 2 ^ n = 0 \<Longrightarrow> 0 \<le> x \<Longrightarrow> x < 2 ^ n \<Longrightarrow> m OR x = m + x"
proof -
  assume "m mod 2 ^ n = 0" "0 \<le> x" "x < 2 ^ n"
  then have "take_bit n m = 0" "take_bit n x = x"
    by (simp_all add: take_bit_eq_mod)
  then have "bit m i \<Longrightarrow> bit x i \<Longrightarrow> False" for i
    by (metis bit_take_bit_iff bit_0_eq bot_apply bot_bool_def)
  then show ?thesis by (intro disjunctive_add [symmetric]) blast
qed

lemma and63_int: "(x :: int) AND 0x3F = x mod 64"
proof -
  have "x AND mask 6 = take_bit 6 x" by (simp add: take_bit_eq_mask)
  then show ?thesis by (simp add: mask_eq_exp_minus_1 take_bit_eq_mod)
qed

lemma cont_or: "(0x80 :: int) OR (x AND 0x3F) = 0x80 + x mod 64"
  using or_disjoint [of "0x80" 6 "x mod 64"] by (simp add: and63_int)

definition codepoint_ok :: "int \<Rightarrow> bool" where
  "codepoint_ok cp \<longleftrightarrow> 0 \<le> cp \<and> cp \<le> 0x10FFFF \<and> \<not> (0xD800 \<le> cp \<and> cp \<le> 0xDFFF)"

definition utf8_encode :: "int \<Rightarrow> int list" where
  "utf8_encode cp =
     (if cp < 0x80 then [cp]
      else if cp \<le> 0x7FF then [0xC0 + cp div 64, 0x80 + cp mod 64]
      else if cp \<le> 0xFFFF then [0xE0 + cp div 4096, 0x80 + cp div 64 mod 64, 0x80 + cp mod 64]
      else [0xF0 + cp div 262144, 0x80 + cp div 4096 mod 64, 0x80 + cp div 64 mod 64, 0x80 + cp mod 64])"

lemma add_codepoint_buffer:
  assumes "codepoint_ok cp"
  shows "lx_token_buffer (add_codepoint cp l) = lx_token_buffer l @ map char_of (utf8_encode cp)"
proof -
  have "0 \<le> cp" "cp \<le> 0x10FFFF" using assms by (auto simp: codepoint_ok_def)
  then have lead: "cp \<le> 0x7FF \<Longrightarrow> 0xC0 OR drop_bit 6 cp = 0xC0 + cp div 64"
    "cp \<le> 0xFFFF \<Longrightarrow> 0xE0 OR drop_bit 12 cp = 0xE0 + cp div 4096"
    "0xF0 OR drop_bit 18 cp = 0xF0 + cp div 262144"
    using or_disjoint [of "0xC0" 5 "cp div 64"] or_disjoint [of "0xE0" 4 "cp div 4096"]
      or_disjoint [of "0xF0" 3 "cp div 262144"]
    by (auto simp: drop_bit_eq_div)
  then show ?thesis
    by (simp add: add_codepoint_def utf8_encode_def lx_add_def cont_or) (simp add: drop_bit_eq_div)
qed

lemma div_mod_64: "(x :: int) div 64 mod 64 = x div 64 - 64 * (x div 4096)"
  using zdiv_zmult2_eq [of 64 x 64] by (simp add: minus_mult_div_eq_mod [symmetric])

lemma div_bounds: "0 < k \<Longrightarrow> k * (x div k) \<le> x \<and> x < k * (x div k) + (k :: int)"
  by (metis add.commute add_less_cancel_left le_add_same_cancel1 mult_div_mod_eq pos_mod_bound pos_mod_sign)

lemma utf8_valid_three:
  fixes q m n :: int
  assumes "0 \<le> q" "q \<le> 15" "0 \<le> m" "m < 64" "0 \<le> n" "n < 64"
    and "q = 0 \<Longrightarrow> 0x20 \<le> m" "q = 13 \<Longrightarrow> m \<le> 0x1F"
  shows "utf8_valid [char_of (0xE0 + q), char_of (0x80 + m), char_of (0x80 + n)]"
proof -
  define rs :: "(int \<times> int) list" where "rs = (if q = 0 then [(0xA0, 0xBF), (0x80, 0xBF)]
      else if q = 13 then [(0x80, 0x9F), (0x80, 0xBF)] else [(0x80, 0xBF), (0x80, 0xBF)])"
  have "utf8_ranges (0xE0 + q) = Some rs"
    using assms(1,2) by (simp add: utf8_ranges_def rs_def)
  then show ?thesis
    using assms utf8_valid_seq [of "0xE0 + q" rs] by (simp add: rs_def of_char_of_int)
qed

lemma utf8_valid_four:
  fixes q m n k :: int
  assumes "0 \<le> q" "q \<le> 4" "0 \<le> m" "m < 64" "0 \<le> n" "n < 64" "0 \<le> k" "k < 64"
    and "q = 0 \<Longrightarrow> 0x10 \<le> m" "q = 4 \<Longrightarrow> m \<le> 0xF"
  shows "utf8_valid [char_of (0xF0 + q), char_of (0x80 + m), char_of (0x80 + n), char_of (0x80 + k)]"
proof -
  define rs :: "(int \<times> int) list" where "rs = (if q = 0 then [(0x90, 0xBF), (0x80, 0xBF), (0x80, 0xBF)]
      else if q = 4 then [(0x80, 0x8F), (0x80, 0xBF), (0x80, 0xBF)] else [(0x80, 0xBF), (0x80, 0xBF), (0x80, 0xBF)])"
  have "utf8_ranges (0xF0 + q) = Some rs"
    using assms(1,2) by (simp add: utf8_ranges_def rs_def)
  then show ?thesis
    using assms utf8_valid_seq [of "0xF0 + q" rs] by (simp add: rs_def of_char_of_int)
qed

lemma utf8_encode_valid:
  assumes "codepoint_ok cp"
  shows "utf8_valid (map char_of (utf8_encode cp))"
proof -
  have cp: "0 \<le> cp" "cp \<le> 0x10FFFF" "\<not> (0xD800 \<le> cp \<and> cp \<le> 0xDFFF)"
    using assms by (auto simp: codepoint_ok_def)
  consider "cp < 0x80" | "0x80 \<le> cp" "cp \<le> 0x7FF" | "0x800 \<le> cp" "cp \<le> 0xFFFF" | "0x10000 \<le> cp"
    using cp by linarith
  then show ?thesis
  proof cases
    case 1
    then show ?thesis using cp by (simp add: utf8_encode_def utf8_valid_ascii)
  next
    case 2
    define q where "q = cp div 64"
    have q: "2 \<le> q" "q \<le> 31" using 2 div_bounds [of 64 cp] by (simp_all add: q_def)
    then have "utf8_ranges (0xC0 + q) = Some [(0x80, 0xBF)]" by (simp add: utf8_ranges_def)
    moreover have "0 \<le> cp mod 64" "cp mod 64 < 64" by simp_all
    ultimately show ?thesis
      using 2 q utf8_valid_seq [of "0xC0 + q"] by (simp add: utf8_encode_def of_char_of_int q_def)
  next
    case 3
    have "cp div 4096 = 0 \<Longrightarrow> 0x20 \<le> cp div 64 mod 64" "cp div 4096 = 13 \<Longrightarrow> cp div 64 mod 64 \<le> 0x1F"
      using 3 cp(3) div_bounds [of 64 cp] div_bounds [of 4096 cp] unfolding div_mod_64 by linarith+
    moreover have "0 \<le> cp div 4096" "cp div 4096 \<le> 15"
      using 3 div_bounds [of 4096 cp] by linarith+
    ultimately show ?thesis
      using 3 utf8_valid_three [of "cp div 4096" "cp div 64 mod 64" "cp mod 64"] by (simp add: utf8_encode_def)
  next
    case 4
    have m: "cp div 4096 mod 64 = cp div 4096 - 64 * (cp div 262144)"
      using zdiv_zmult2_eq [of 64 cp 4096] by (simp add: minus_mult_div_eq_mod [symmetric])
    have "cp div 262144 = 0 \<Longrightarrow> 0x10 \<le> cp div 4096 mod 64" "cp div 262144 = 4 \<Longrightarrow> cp div 4096 mod 64 \<le> 0xF"
      using 4 cp div_bounds [of 4096 cp] unfolding m by linarith+
    moreover have "0 \<le> cp div 262144" "cp div 262144 \<le> 4"
      using 4 cp div_bounds [of 262144 cp] by linarith+
    ultimately show ?thesis
      using 4 utf8_valid_four [of "cp div 262144" "cp div 4096 mod 64" "cp div 64 mod 64" "cp mod 64"]
      by (simp add: utf8_encode_def)
  qed
qed

section \<open>Strings read by the lexer are valid\<close>

lemma lx_get_fields [simp]:
  "lx_token_buffer (lx_get l) = lx_token_buffer l"
  "lx_decimal_point (lx_get l) = lx_decimal_point l"
  by (auto simp: lx_get_def Let_def get_character_def split: list.splits)

lemma lx_add_buffer [simp]: "lx_token_buffer (lx_add c l) = lx_token_buffer l @ [char_of c]"
  by (simp add: lx_add_def)

lemma get_codepoint_loop_inv:
  "lx_token_buffer (snd (get_codepoint_loop fs cp l)) = lx_token_buffer l"
  by (induction fs arbitrary: cp l) (auto simp: Let_def)

lemma get_codepoint_loop_bound:
  "0 \<le> cp \<Longrightarrow> fst (get_codepoint_loop fs cp l) = - 1 \<or>
     (0 \<le> fst (get_codepoint_loop fs cp l) \<and>
      fst (get_codepoint_loop fs cp l) \<le> cp + (\<Sum>f\<leftarrow>fs. 15 * 2 ^ f))"
proof (induction fs arbitrary: cp l)
  case (Cons f fs)
  have step: "fst (get_codepoint_loop fs (cp + push_bit f d) k) = - 1 \<or>
     (0 \<le> fst (get_codepoint_loop fs (cp + push_bit f d) k) \<and>
      fst (get_codepoint_loop fs (cp + push_bit f d) k) \<le> cp + (\<Sum>f\<leftarrow>f # fs. 15 * 2 ^ f))"
    if "0 \<le> d" "d \<le> 15" for d k
  proof -
    have d: "0 \<le> push_bit f d" "push_bit f d \<le> 15 * 2 ^ f"
      using that by (simp_all add: push_bit_eq_mult)
    then show ?thesis
      using Cons.IH [of "cp + push_bit f d" k] Cons.prems by simp linarith
  qed
  show ?case
    using step by (simp add: Let_def del: sum_list.Cons)
qed simp

lemma get_codepoint_bound:
  "fst (get_codepoint l) = - 1 \<or> 0 \<le> fst (get_codepoint l) \<and> fst (get_codepoint l) \<le> 0xFFFF"
  using get_codepoint_loop_bound [of 0 "[12, 8, 4, 0]" l] by (simp add: get_codepoint_def)

text \<open>The invariant of the loop of \<open>scan_string\<close>.\<close>

definition str_ok :: "lexer \<Rightarrow> bool" where
  "str_ok l \<longleftrightarrow> utf8_valid (lx_token_buffer l)"

lemma str_ok_add_codepoint:
  "str_ok l \<Longrightarrow> codepoint_ok cp \<Longrightarrow> str_ok (add_codepoint cp l)"
  by (simp add: str_ok_def add_codepoint_buffer utf8_valid_append utf8_encode_valid)

lemma scan_unicode_escape_ok:
  assumes "str_ok l" and "scan_unicode_escape l = Inl l'"
  shows "str_ok l'"
proof -
  obtain cp1 l1 where g1: "get_codepoint l = (cp1, l1)" by fastforce
  obtain cp2 l4 where g2: "get_codepoint (lx_get (lx_get l1)) = (cp2, l4)" by fastforce
  have k1: "str_ok l1"
    using get_codepoint_loop_inv [of "[12, 8, 4, 0]" 0 l] assms(1) g1 by (simp add: get_codepoint_def str_ok_def)
  then have k4: "str_ok l4"
    using get_codepoint_loop_inv [of "[12, 8, 4, 0]" 0 "lx_get (lx_get l1)"] g2 by (simp add: get_codepoint_def str_ok_def)
  have b: "cp1 = - 1 \<or> 0 \<le> cp1 \<and> cp1 \<le> 0xFFFF"
    using get_codepoint_bound [of l] g1 by simp
  have "(\<exists>cp. l' = add_codepoint cp l1 \<and> codepoint_ok cp) \<or> (\<exists>cp. l' = add_codepoint cp l4 \<and> codepoint_ok cp)"
    using assms(2) b unfolding scan_unicode_escape_def g1 Let_def
    by (simp add: g2 split: if_splits; fastforce simp: codepoint_ok_def push_bit_eq_mult)
  then show ?thesis
    using k1 k4 str_ok_add_codepoint by blast
qed

lemma str_ok_add:
  "str_ok l \<Longrightarrow> 0 \<le> c \<Longrightarrow> c < 0x80 \<Longrightarrow> str_ok (lx_add c l)"
  by (simp add: str_ok_def utf8_valid_append utf8_valid_ascii)

lemma str_ok_get: "str_ok l \<Longrightarrow> str_ok (lx_get l)"
  by (simp add: str_ok_def)

lemma scan_escape_ok: "str_ok l \<Longrightarrow> scan_escape l = Inl l' \<Longrightarrow> str_ok l'"
  using scan_unicode_escape_ok [of "lx_get l" l']
  by (auto simp: scan_escape_def Let_def str_ok_get split: if_splits intro!: str_ok_add)

lemma next_bytes_loop_ok:
  assumes "list_all (\<lambda>r. 0 \<le> fst r \<and> snd r < 256) rs" and "next_bytes_loop rs l = (True, l')"
  shows "\<exists>bs. lx_token_buffer l' = lx_token_buffer l @ bs \<and> utf8_run rs bs"
  using assms
proof (induction rs arbitrary: l)
  case (Cons r rs)
  let ?c = "lx_current (lx_get l)"
  have c: "fst r \<le> ?c" "?c \<le> snd r" and
    rest: "next_bytes_loop rs (lx_add ?c (lx_get l)) = (True, l')"
    using Cons.prems(2) by (auto simp: Let_def split: if_splits)
  then obtain bs where "lx_token_buffer l' = lx_token_buffer l @ char_of ?c # bs" "utf8_run rs bs"
    using Cons.IH [OF _ rest] Cons.prems(1) by auto
  moreover have "utf8_run (r # rs) (char_of ?c # bs)"
    using c Cons.prems(1) \<open>utf8_run rs bs\<close> by (simp add: of_char_of_int)
  ultimately show ?case by blast
qed auto

lemma utf8_ranges_bounds: "utf8_ranges c = Some rs \<Longrightarrow> list_all (\<lambda>r. 0 \<le> fst r \<and> snd r < 256) rs \<and> 0x80 \<le> c \<and> c < 256"
  by (auto simp: utf8_ranges_def split: if_splits)

lemma scan_utf8_ok:
  assumes "str_ok l" and "scan_utf8 l = Inl l'"
  shows "str_ok l'"
proof -
  let ?c = "lx_current l"
  obtain rs where rs: "utf8_ranges ?c = Some rs" "next_bytes_loop rs (lx_add ?c l) = (True, l')"
    using assms(2) by (auto simp: scan_utf8_def next_byte_in_range_def split: option.splits prod.splits if_splits)
  obtain bs where "lx_token_buffer l' = lx_token_buffer l @ char_of ?c # bs" "utf8_run rs bs"
    using next_bytes_loop_ok [OF _ rs(2)] utf8_ranges_bounds [OF rs(1)] by auto
  then show ?thesis
    using utf8_valid_seq [OF _ _ rs(1)] utf8_ranges_bounds [OF rs(1)] assms(1)
    by (simp add: str_ok_def utf8_valid_append)
qed

lemma scan_unicode_escape_not_string: "scan_unicode_escape l = Inr r \<Longrightarrow> fst r = Tok_parse_error"
  unfolding scan_unicode_escape_def Let_def case_prod_beta
  by (simp split: if_splits; auto simp: lx_fail_def)

lemma scan_escape_not_string: "scan_escape l = Inr r \<Longrightarrow> fst r = Tok_parse_error"
  unfolding scan_escape_def Let_def
  by (simp split: if_splits; auto simp: lx_fail_def dest: scan_unicode_escape_not_string)

lemma scan_utf8_not_string: "scan_utf8 l = Inr r \<Longrightarrow> fst r = Tok_parse_error"
  by (auto simp: scan_utf8_def lx_fail_def Let_def split: option.splits if_splits prod.splits)

lemma scan_string_step_ok:
  "str_ok l \<Longrightarrow> scan_string_step l = Inl l' \<Longrightarrow> str_ok l'"
  "str_ok l \<Longrightarrow> scan_string_step l = Inr (Tok_value_string, l') \<Longrightarrow> str_ok l'"
proof -
  assume ok: "str_ok l"
  then have g: "str_ok (lx_get l)" by (auto simp: str_ok_def)
  show "str_ok l'" if "scan_string_step l = Inl l'"
  proof -
    have "scan_escape (lx_get l) = Inl l' \<or> scan_utf8 (lx_get l) = Inl l' \<or>
        (\<exists>c. l' = lx_add c (lx_get l) \<and> 0 \<le> c \<and> c < 0x80)"
      using that unfolding scan_string_step_def Let_def
      by (simp split: if_splits; fastforce)
    then show ?thesis
      using scan_escape_ok [OF g] scan_utf8_ok [OF g] str_ok_add [OF g] by blast
  qed
  show "str_ok l'" if "scan_string_step l = Inr (Tok_value_string, l')"
    using that g scan_escape_not_string [of "lx_get l"] scan_utf8_not_string [of "lx_get l"]
    by (auto simp: scan_string_step_def lx_fail_def Let_def split: if_splits)
qed

lemma scan_string_loop_ok:
  "str_ok l \<Longrightarrow> fst (scan_string_loop l) = Tok_value_string \<Longrightarrow> str_ok (snd (scan_string_loop l))"
proof (induction l rule: scan_string_loop.induct)
  case (1 l)
  show ?case
  proof (cases "scan_string_step l")
    case (Inl l')
    then have eq: "scan_string_loop l = scan_string_loop l'" by (simp add: scan_string_loop.simps [of l])
    have "str_ok l'" using scan_string_step_ok(1) "1.prems"(1) Inl .
    then show ?thesis using "1.IH" [OF Inl] "1.prems"(2) by (simp add: eq)
  next
    case (Inr r)
    then have eq: "scan_string_loop l = r" by (simp add: scan_string_loop.simps [of l])
    with "1.prems"(2) Inr have "scan_string_step l = Inr (Tok_value_string, snd r)"
      by (metis prod.collapse)
    then show ?thesis using scan_string_step_ok(2) "1.prems"(1) by (simp add: eq)
  qed
qed

lemma scan_string_ok: "fst (scan_string l) = Tok_value_string \<Longrightarrow> str_ok (snd (scan_string l))"
  unfolding scan_string_def by (rule scan_string_loop_ok) (simp_all add: str_ok_def lx_reset_def)

text \<open>No other scan function returns a string token.\<close>

definition number_token :: "token_type \<Rightarrow> bool" where
  "number_token t \<longleftrightarrow> t = Tok_value_unsigned \<or> t = Tok_value_integer \<or> t = Tok_value_float \<or> t = Tok_parse_error"

lemma scan_number_done_token: "number_token (fst (scan_number_done t l))"
  by (simp add: scan_number_done_def number_token_def Let_def split: option.splits)

lemma lx_fail_token [simp]: "number_token (fst (lx_fail m l))"
  by (simp add: lx_fail_def number_token_def)

lemma scan_number_any2_token: "number_token (fst (scan_number_any2 t l))"
  by (induction t l rule: scan_number_any2.induct)
    (subst scan_number_any2.simps, simp add: Let_def scan_number_done_token)

lemma scan_number_exponent_token: "number_token (fst (scan_number_exponent l))"
  by (simp add: scan_number_exponent_def scan_number_sign_def Let_def scan_number_any2_token)

lemma scan_number_decimal2_token: "number_token (fst (scan_number_decimal2 t l))"
  by (induction t l rule: scan_number_decimal2.induct)
    (subst scan_number_decimal2.simps, simp add: Let_def scan_number_done_token scan_number_exponent_token)

lemma scan_number_decimal1_token: "number_token (fst (scan_number_decimal1 l))"
  by (simp add: scan_number_decimal1_def Let_def scan_number_decimal2_token)

lemma scan_number_any1_token: "number_token (fst (scan_number_any1 t l))"
  by (induction t l rule: scan_number_any1.induct)
    (subst scan_number_any1.simps,
     simp add: Let_def scan_number_done_token scan_number_exponent_token scan_number_decimal1_token)

lemma scan_number_token: "number_token (fst (scan_number l))"
  by (simp add: scan_number_def scan_number_minus_def scan_number_zero_def Let_def scan_number_any1_token
      scan_number_done_token scan_number_exponent_token scan_number_decimal1_token)

text \<open>A float token comes with the double that \<open>strtod\<close> read.\<close>

definition float_token :: "token_type \<times> lexer \<Rightarrow> bool" where
  "float_token r \<longleftrightarrow> (fst r = Tok_value_float \<longrightarrow> double_ok (lx_value_float (snd r)))"

lemma strtod_ok: "double_ok (strtod point s)"
  by (simp add: strtod_def Let_def nearest_double_ok split: prod.splits)

lemma scan_number_done_float: "float_token (scan_number_done t l)"
  by (simp add: scan_number_done_def float_token_def Let_def strtod_ok split: option.splits)

lemma lx_fail_float [simp]: "float_token (lx_fail m l)"
  by (simp add: lx_fail_def float_token_def)

lemma scan_number_any2_float: "float_token (scan_number_any2 t l)"
  by (induction t l rule: scan_number_any2.induct)
    (subst scan_number_any2.simps, simp add: Let_def scan_number_done_float)

lemma scan_number_exponent_float: "float_token (scan_number_exponent l)"
  by (simp add: scan_number_exponent_def scan_number_sign_def Let_def scan_number_any2_float)

lemma scan_number_decimal2_float: "float_token (scan_number_decimal2 t l)"
  by (induction t l rule: scan_number_decimal2.induct)
    (subst scan_number_decimal2.simps, simp add: Let_def scan_number_done_float scan_number_exponent_float)

lemma scan_number_decimal1_float: "float_token (scan_number_decimal1 l)"
  by (simp add: scan_number_decimal1_def Let_def scan_number_decimal2_float)

lemma scan_number_any1_float: "float_token (scan_number_any1 t l)"
  by (induction t l rule: scan_number_any1.induct)
    (subst scan_number_any1.simps,
     simp add: Let_def scan_number_done_float scan_number_exponent_float scan_number_decimal1_float)

lemma scan_number_float: "float_token (scan_number l)"
  by (simp add: scan_number_def scan_number_minus_def scan_number_zero_def Let_def scan_number_any1_float
      scan_number_done_float scan_number_exponent_float scan_number_decimal1_float)

lemma scan_literal_token: "fst (scan_literal s t l) = t \<or> fst (scan_literal s t l) = Tok_parse_error"
proof -
  have "fst (scan_literal_loop xs t l) = t \<or> fst (scan_literal_loop xs t l) = Tok_parse_error" for xs l
    by (induction xs arbitrary: l) (auto simp: Let_def lx_fail_def)
  then show ?thesis by (simp add: scan_literal_def)
qed

lemma scan_string_token_valid:
  assumes "fst (scan l) = Tok_value_string"
  shows "utf8_valid (lx_token_buffer (snd (scan l)))"
proof -
  obtain k where k: "scan l = scan_token k"
    using assms by (auto simp: scan_def lx_fail_def Let_def split: if_splits prod.splits)
  have "scan_token k = scan_string k"
    using assms scan_number_token [of k] scan_literal_token [of "''true''" Tok_literal_true k]
      scan_literal_token [of "''false''" Tok_literal_false k] scan_literal_token [of "''null''" Tok_literal_null k]
    unfolding k scan_token_def Let_def by (auto simp: number_token_def lx_fail_def split: if_splits)
  then show ?thesis using scan_string_ok [of k] assms by (simp add: k str_ok_def)
qed

lemma scan_string_loop_token:
  "fst (scan_string_loop l) = Tok_value_string \<or> fst (scan_string_loop l) = Tok_parse_error"
proof (induction l rule: scan_string_loop.induct)
  case (1 l)
  have "fst r = Tok_value_string \<or> fst r = Tok_parse_error" if "scan_string_step l = Inr r" for r
    using that scan_escape_not_string [of "lx_get l"] scan_utf8_not_string [of "lx_get l"]
    by (auto simp: scan_string_step_def lx_fail_def Let_def split: if_splits)
  then show ?case using 1 by (simp add: scan_string_loop.simps [of l] split: sum.splits)
qed

lemma scan_token_float: "float_token (scan_token k)"
proof -
  have lit: "float_token (scan_literal s t k)" if "t \<noteq> Tok_value_float" for s t
    using scan_literal_token [of s t k] that by (auto simp: float_token_def)
  have str: "float_token (scan_string k)"
    using scan_string_loop_token [of "lx_reset k"] by (auto simp: float_token_def scan_string_def)
  have other: "float_token (t, k)" if "t \<noteq> Tok_value_float" for t
    using that by (simp add: float_token_def)
  show ?thesis
    unfolding scan_token_def Let_def by (simp add: lit str other scan_number_float)
qed

lemma scan_float: "float_token (scan l)"
  by (simp add: scan_def Let_def scan_token_float split: prod.splits)

section \<open>The value the parser builds\<close>

definition json_good :: "json \<Rightarrow> bool" where
  "json_good j \<longleftrightarrow> json_ok j \<and> json_utf8 j"

lemma json_good_simps [simp]:
  "json_good Json_Null" "json_good (Json_Boolean b)" "json_good (Json_Integer w)"
  "json_good (Json_Unsigned w)" "json_good (Json_Float x) \<longleftrightarrow> double_ok x \<and> isfinite x"
  "json_good (Json_String s) \<longleftrightarrow> utf8_valid s"
  "json_good (Json_Array xs) \<longleftrightarrow> (\<forall>x \<in> set xs. json_good x)"
  "json_good (Json_Object m) \<longleftrightarrow> map_ok m \<and> (\<forall>kv \<in> set m. utf8_valid (fst kv) \<and> json_good (snd kv))"
  by (auto simp: json_good_def list_all_iff)

lemma map_find_set: "map_find m k = Some v \<Longrightarrow> (k, v) \<in> set m"
  by (simp add: map_find_map_of map_of_SomeD)

lemma get_at_good: "json_good j \<Longrightarrow> get_at j p = Some v \<Longrightarrow> json_good v"
  by (induction j p rule: get_at.induct) (auto split: if_splits option.splits dest!: map_find_set)

lemma update_at_good:
  "json_good j \<Longrightarrow> (\<And>v. get_at j p = Some v \<Longrightarrow> json_good v \<Longrightarrow> json_good (f v)) \<Longrightarrow> json_good (update_at f j p)"
proof (induction f j p rule: update_at.induct)
  case (2 f xs i p)
  then show ?case by (auto dest!: subsetD [OF set_update_subset_insert])
next
  case (3 f m k p)
  then show ?case
    by (auto split: option.splits dest!: subsetD [OF set_map_assign_subset] dest: map_find_set) (force dest: map_find_set)+
qed auto

definition dom_good :: "dom \<Rightarrow> bool" where
  "dom_good d \<longleftrightarrow> json_good (dom_root d)"

lemma handle_value_good: "dom_good d \<Longrightarrow> json_good v \<Longrightarrow> dom_good (snd (handle_value v d))"
  unfolding dom_good_def handle_value_def
  by (auto split: list.splits option.splits json.splits intro!: update_at_good dest: get_at_good)

lemma dom_events_good:
  "dom_good d \<Longrightarrow> json_good v \<Longrightarrow> dom_good (dom_value v d)"
  "dom_good d \<Longrightarrow> dom_good (dom_start_object d)"
  "dom_good d \<Longrightarrow> dom_good (dom_start_array d)"
  "dom_good d \<Longrightarrow> dom_good (dom_end d)"
proof -
  show "dom_good d \<Longrightarrow> json_good v \<Longrightarrow> dom_good (dom_value v d)"
    by (simp add: dom_value_def handle_value_good)
  show "dom_good d \<Longrightarrow> dom_good (dom_start_object d)" "dom_good d \<Longrightarrow> dom_good (dom_start_array d)"
    using handle_value_good [of d "Json_Object []"] handle_value_good [of d "Json_Array []"]
    by (auto simp: dom_start_object_def dom_start_array_def dom_good_def Let_def case_prod_beta)
  show "dom_good d \<Longrightarrow> dom_good (dom_end d)"
    by (simp add: dom_end_def dom_good_def)
qed

lemma insert_null_good: "json_good j \<Longrightarrow> utf8_valid k \<Longrightarrow> json_good (insert_null k j)"
  by (auto simp: insert_null_def split: json.splits option.splits dest!: subsetD [OF set_map_assign_subset]) force+

lemma dom_key_good: "dom_good d \<Longrightarrow> utf8_valid k \<Longrightarrow> dom_good (dom_key k d)"
  by (auto simp: dom_key_def dom_good_def insert_null_good split: list.splits intro!: update_at_good)

lemma get_token_valid:
  "ps_last_token (get_token p) = Tok_value_string \<Longrightarrow> utf8_valid (lx_token_buffer (ps_lexer (get_token p)))"
  using scan_string_token_valid [of "ps_lexer p"] by (simp add: get_token_def case_prod_beta)

definition tok_good :: "parser \<Rightarrow> bool" where
  "tok_good p \<longleftrightarrow> (ps_last_token p = Tok_value_string \<longrightarrow> utf8_valid (lx_token_buffer (ps_lexer p))) \<and>
     (ps_last_token p = Tok_value_float \<longrightarrow> double_ok (lx_value_float (ps_lexer p)))"

lemma tok_good_get_token [simp]: "tok_good (get_token p)"
  using scan_float [of "ps_lexer p"] get_token_valid [of p]
  by (simp add: tok_good_def float_token_def get_token_def case_prod_beta)

text \<open>What a turn of the loop leaves is good, however it ends.\<close>

fun next_good :: "loop_next \<Rightarrow> bool" where
  "next_good (Throw e) = True"
| "next_good (Return p d) = dom_good d"
| "next_good (Continue s st p d) = (dom_good d \<and> tok_good p)"

lemma parse_object_start_good:
  assumes "dom_good d"
  shows "case parse_object_start states p d of Inl r \<Rightarrow> next_good r | Inr pd \<Rightarrow> dom_good (snd pd)"
  using assms dom_key_good get_token_valid [of p]
  by (simp add: parse_object_start_def Let_def dom_events_good)

lemma parse_array_start_good:
  assumes "dom_good d"
  shows "case parse_array_start states p d of Inl r \<Rightarrow> next_good r | Inr pd \<Rightarrow> dom_good (snd pd)"
  using assms by (simp add: parse_array_start_def Let_def dom_events_good)

lemma parse_value_good:
  assumes "dom_good d" and "tok_good p"
  shows "case parse_value states p d of Inl r \<Rightarrow> next_good r | Inr pd \<Rightarrow> dom_good (snd pd)"
  using assms parse_object_start_good [OF assms(1), of states p] parse_array_start_good [OF assms(1), of states p]
  by (cases "ps_last_token p") (simp_all add: parse_value_def Let_def dom_events_good tok_good_def)

lemma parse_state_good: "dom_good d \<Longrightarrow> next_good (parse_state states p d)"
  using dom_key_good [of d] get_token_valid [of "get_token p"]
  by (auto simp: parse_state_def Let_def dom_events_good split: list.splits)

lemma parse_turn_good: "dom_good d \<Longrightarrow> tok_good p \<Longrightarrow> next_good (parse_turn skip states p d)"
  using parse_value_good [of d p states] parse_state_good
  by (auto simp: parse_turn_def split: sum.splits)

lemma sax_parse_good:
  "dom_good d \<Longrightarrow> tok_good p \<Longrightarrow> sax_parse_internal skip states p d = Inr (p', d') \<Longrightarrow> dom_good d'"
proof (induction skip states p d rule: sax_parse_internal.induct)
  case (1 skip states p d)
  then show ?case
    using parse_turn_good [OF "1.prems"(1,2), of skip states]
    by (auto simp: sax_parse_internal.simps [of skip states p d] split: loop_next.splits)
qed

lemma json_parse_good:
  assumes "json_parse point input = Inr j"
  shows "json_ok j" and "json_utf8 j"
proof -
  obtain p d where run: "sax_parse_internal False [] (parser_new point input) (dom_new Json_Null) = Inr (p, d)"
    and "j = dom_root d"
    using assms by (auto simp: json_parse_def Let_def split: sum.splits if_splits)
  have "dom_good d"
    by (rule sax_parse_good [OF _ _ run]) (simp_all add: dom_new_def dom_good_def parser_new_def)
  then show "json_ok j" "json_utf8 j"
    using \<open>j = dom_root d\<close> by (simp_all add: dom_good_def json_good_def)
qed

end
