(* ===== verification/Json_Grammar.thy ===== *)
theory Json_Grammar
  imports Json_Wellformed
begin

text \<open>
  JSON texts, as RFC 8259 defines them: which text denotes which value. The grammar knows
  nothing of the lexer and the parser; \<open>Json_Reading\<close> and \<open>Json_Accepting\<close> show that the
  parser reads every text of the grammar, \<open>Json_Soundness\<close> that it reads no other. Where
  the RFC leaves a choice, the grammar fixes what the library documents: a repeated key keeps
  its last value, and an integer that does not fit into 64 bits is a floating point number.
\<close>

section \<open>Strings\<close>

definition in_range :: "int \<times> int \<Rightarrow> char \<Rightarrow> bool" where
  "in_range r b \<longleftrightarrow> fst r \<le> int (of_char b) \<and> int (of_char b) \<le> snd r"

text \<open>The character that stands after a backslash, and what the two stand for.\<close>

definition escaped :: "char \<Rightarrow> char option" where
  "escaped e =
     (if e = CHR 0x22 then Some (CHR 0x22) else if e = CHR 0x5C then Some (CHR 0x5C)
      else if e = CHR ''/'' then Some (CHR ''/'') else if e = CHR ''b'' then Some (CHR 0x08)
      else if e = CHR ''f'' then Some (CHR 0x0C) else if e = CHR ''n'' then Some (CHR 0x0A)
      else if e = CHR ''r'' then Some (CHR 0x0D) else if e = CHR ''t'' then Some (CHR 0x09) else None)"

definition hex_val :: "char \<Rightarrow> int option" where
  "hex_val c =
     (let n = int (of_char c)
      in if 0x30 \<le> n \<and> n \<le> 0x39 then Some (n - 0x30)
         else if 0x41 \<le> n \<and> n \<le> 0x46 then Some (n - 0x37)
         else if 0x61 \<le> n \<and> n \<le> 0x66 then Some (n - 0x57) else None)"

text \<open>Four hexadecimal digits and their number.\<close>

definition hex_quad :: "string \<Rightarrow> int \<Rightarrow> bool" where
  "hex_quad hs n \<longleftrightarrow> (\<exists>a b c d x3 x2 x1 x0. hs = [a, b, c, d] \<and> hex_val a = Some x3 \<and> hex_val b = Some x2 \<and>
     hex_val c = Some x1 \<and> hex_val d = Some x0 \<and> n = 0x1000 * x3 + 0x100 * x2 + 0x10 * x1 + x0)"

text \<open>The text between the quotes and the bytes it stands for.\<close>

inductive string_text :: "string \<Rightarrow> string \<Rightarrow> bool" where
  st_end: "string_text [] []"
| st_plain: "0x20 \<le> (of_char c :: nat) \<Longrightarrow> of_char c < (0x80 :: nat) \<Longrightarrow> c \<noteq> CHR 0x22 \<Longrightarrow> c \<noteq> CHR 0x5C \<Longrightarrow>
    string_text str t \<Longrightarrow> string_text (c # str) (c # t)"
| st_utf8: "utf8_ranges (of_char c) = Some rs \<Longrightarrow> list_all2 in_range rs bs \<Longrightarrow>
    string_text str t \<Longrightarrow> string_text (c # bs @ str) (c # bs @ t)"
| st_escape: "escaped e = Some c \<Longrightarrow> string_text str t \<Longrightarrow> string_text (c # str) (CHR 0x5C # e # t)"
| st_unicode: "hex_quad hs n \<Longrightarrow> codepoint_ok n \<Longrightarrow> string_text str t \<Longrightarrow>
    string_text (map char_of (utf8_encode n) @ str) (CHR 0x5C # CHR ''u'' # hs @ t)"
| st_pair: "hex_quad hs hi \<Longrightarrow> hex_quad gs lo \<Longrightarrow> 0xD800 \<le> hi \<Longrightarrow> hi \<le> 0xDBFF \<Longrightarrow> 0xDC00 \<le> lo \<Longrightarrow> lo \<le> 0xDFFF \<Longrightarrow>
    string_text str t \<Longrightarrow>
    string_text (map char_of (utf8_encode (0x10000 + 0x400 * (hi - 0xD800) + (lo - 0xDC00))) @ str)
      (CHR 0x5C # CHR ''u'' # hs @ CHR 0x5C # CHR ''u'' # gs @ t)"

section \<open>Numbers\<close>

definition exponent_part :: "string \<Rightarrow> bool" where
  "exponent_part x \<longleftrightarrow> x = [] \<or> (\<exists>c sg ds. x = c # sg @ ds \<and> (c = CHR ''e'' \<or> c = CHR ''E'') \<and>
     (sg = [] \<or> sg = ''+'' \<or> sg = ''-'') \<and> digit_text ds)"

text \<open>The digits before the decimal point, those after it if there is one, and the exponent.\<close>

definition number_parts :: "string \<Rightarrow> string option \<Rightarrow> string \<Rightarrow> bool" where
  "number_parts w f x \<longleftrightarrow> digit_text w \<and> (hd w = CHR ''0'' \<longrightarrow> w = ''0'') \<and>
     (\<forall>ds. f = Some ds \<longrightarrow> digit_text ds) \<and> exponent_part x"

definition sign_text :: "bool \<Rightarrow> string" where
  "sign_text neg = (if neg then ''-'' else [])"

definition tail_part :: "char \<Rightarrow> string option \<Rightarrow> string \<Rightarrow> string" where
  "tail_part point f x = (case f of None \<Rightarrow> [] | Some ds \<Rightarrow> point # ds) @ x"

definition parts_text :: "char \<Rightarrow> bool \<Rightarrow> string \<Rightarrow> string option \<Rightarrow> string \<Rightarrow> string" where
  "parts_text point neg w f x = sign_text neg @ w @ tail_part point f x"

text \<open>The value. A number without fraction and exponent is an integer if 64 bits can hold it;
  any other is the double that \<open>strtod\<close> gives, in a locale with the decimal point
  \<open>point\<close>.\<close>

definition parts_value :: "char \<Rightarrow> bool \<Rightarrow> string \<Rightarrow> string option \<Rightarrow> string \<Rightarrow> json" where
  "parts_value point neg w f x =
     (if f = None \<and> x = [] \<and> \<not> neg \<and> digits_value w < 2 ^ 64 then Json_Unsigned (word_of_nat (digits_value w))
      else if f = None \<and> x = [] \<and> neg \<and> digits_value w \<le> 2 ^ 63 then Json_Integer (word_of_int (- int (digits_value w)))
      else Json_Float (strtod point (parts_text point neg w f x)))"

fun finite_number :: "json \<Rightarrow> bool" where
  "finite_number (Json_Float x) = isfinite x"
| "finite_number _ = True"

section \<open>Values\<close>

definition white :: "char \<Rightarrow> bool" where
  "white c \<longleftrightarrow> of_char c \<in> {0x20, 0x09, 0x0A, 0x0D :: nat}"

text \<open>A value; the elements of an array that has some, with the commas between them; the
  members of an object that has some. A text of the latter two includes the white space
  around it.\<close>

inductive json_grammar :: "char \<Rightarrow> json \<Rightarrow> string \<Rightarrow> bool"
  and elements_grammar :: "char \<Rightarrow> json list \<Rightarrow> string \<Rightarrow> bool"
  and members_grammar :: "char \<Rightarrow> (string \<times> json) list \<Rightarrow> string \<Rightarrow> bool"
  for point :: char
where
  jg_null: "json_grammar point Json_Null ''null''"
| jg_true: "json_grammar point (Json_Boolean True) ''true''"
| jg_false: "json_grammar point (Json_Boolean False) ''false''"
| jg_string: "string_text str t \<Longrightarrow> json_grammar point (Json_String str) (dq @ t @ dq)"
| jg_number: "number_parts w f x \<Longrightarrow> v = parts_value point neg w f x \<Longrightarrow> finite_number v \<Longrightarrow>
    json_grammar point v (parts_text (CHR ''.'') neg w f x)"
| jg_no_elements: "list_all white ws \<Longrightarrow> json_grammar point (Json_Array []) (CHR ''['' # ws @ '']'')"
| jg_array: "elements_grammar point vs t \<Longrightarrow> json_grammar point (Json_Array vs) (CHR ''['' # t @ '']'')"
| jg_no_members: "list_all white ws \<Longrightarrow> json_grammar point (Json_Object []) (CHR ''{'' # ws @ ''}'')"
| jg_object: "members_grammar point kvs t \<Longrightarrow>
    json_grammar point (Json_Object (foldl (\<lambda>m kv. map_assign m (fst kv) (snd kv)) [] kvs)) (CHR ''{'' # t @ ''}'')"
| eg_last: "json_grammar point v t \<Longrightarrow> list_all white ws \<Longrightarrow> list_all white ws' \<Longrightarrow>
    elements_grammar point [v] (ws @ t @ ws')"
| eg_more: "json_grammar point v t \<Longrightarrow> list_all white ws \<Longrightarrow> list_all white ws' \<Longrightarrow> elements_grammar point vs u \<Longrightarrow>
    elements_grammar point (v # vs) (ws @ t @ ws' @ CHR '','' # u)"
| mg_last: "string_text k kt \<Longrightarrow> json_grammar point v t \<Longrightarrow> list_all white ws \<Longrightarrow> list_all white ws1 \<Longrightarrow> list_all white ws2 \<Longrightarrow>
    list_all white ws' \<Longrightarrow> members_grammar point [(k, v)] (ws @ dq @ kt @ dq @ ws1 @ CHR '':'' # ws2 @ t @ ws')"
| mg_more: "string_text k kt \<Longrightarrow> json_grammar point v t \<Longrightarrow> list_all white ws \<Longrightarrow> list_all white ws1 \<Longrightarrow> list_all white ws2 \<Longrightarrow>
    list_all white ws' \<Longrightarrow> members_grammar point kvs u \<Longrightarrow>
    members_grammar point ((k, v) # kvs) (ws @ dq @ kt @ dq @ ws1 @ CHR '':'' # ws2 @ t @ ws' @ CHR '','' # u)"

text \<open>A document: a value with white space around it, after a byte order mark if there is
  one.\<close>

definition byte_order_mark :: string where
  "byte_order_mark = [CHR 0xEF, CHR 0xBB, CHR 0xBF]"

definition json_document :: "char \<Rightarrow> json \<Rightarrow> string \<Rightarrow> bool" where
  "json_document point v s \<longleftrightarrow> (\<exists>bom ws t ws'. s = bom @ ws @ t @ ws' \<and> (bom = [] \<or> bom = byte_order_mark) \<and>
     list_all white ws \<and> list_all white ws' \<and> json_grammar point v t)"

section \<open>First characters\<close>

text \<open>The texts that a value begins with: not white space and not the first byte of a
  byte order mark.\<close>

definition nonblank :: "string \<Rightarrow> bool" where
  "nonblank t \<longleftrightarrow> t \<noteq> [] \<and> \<not> white (hd t) \<and> of_char (hd t) \<noteq> (0xEF :: nat)"

lemma nonblank_append [simp]: "nonblank t \<Longrightarrow> nonblank (t @ s)"
  by (cases t) (auto simp: nonblank_def)

lemma nonblank_parts: "number_parts w f x \<Longrightarrow> nonblank (parts_text point neg w f x)"
  by (cases w) (auto simp: nonblank_def number_parts_def parts_text_def sign_text_def digit_text_def white_def is_digit_char_def)

lemma json_grammar_nonblank: "json_grammar point v t \<Longrightarrow> nonblank t"
  by (induction rule: json_grammar.cases) (auto simp: nonblank_parts, auto simp: nonblank_def white_def)

end
