(* ===== verification/Json_Reading.thy ===== *)
theory Json_Reading
  imports Json_Grammar
begin

unbundle bit_operations_syntax

text \<open>
  What the lexer makes of the tokens of the grammar: structural characters, literals, numbers
  and strings are each read as the one token they stand for, with the value that the grammar
  gives them, and the lexer is left right after them (\<open>lexes\<close>).
\<close>

section \<open>The decimal point\<close>

text \<open>No operation of the lexer changes the decimal point it was made with.\<close>

lemma point_simps [simp]:
  "lx_decimal_point (lx_get l) = lx_decimal_point l" "lx_decimal_point (lx_unget l) = lx_decimal_point l"
  "lx_decimal_point (lx_add c l) = lx_decimal_point l" "lx_decimal_point (lx_reset l) = lx_decimal_point l"
  "lx_decimal_point (snd (lx_fail m l)) = lx_decimal_point l" "lx_decimal_point (add_codepoint cp l) = lx_decimal_point l"
  by (simp_all add: lx_get_def get_character_def lx_unget_def lx_add_def lx_reset_def lx_fail_def add_codepoint_def
      Let_def split: list.splits)

lemma get_codepoint_point [simp]: "lx_decimal_point (snd (get_codepoint l)) = lx_decimal_point l"
proof -
  have "lx_decimal_point (snd (get_codepoint_loop fs cp l)) = lx_decimal_point l" for fs cp
    by (induction fs arbitrary: cp l) (auto simp: Let_def)
  then show ?thesis unfolding get_codepoint_def .
qed

lemma next_bytes_point [simp]: "lx_decimal_point (snd (next_byte_in_range rs l)) = lx_decimal_point l"
proof -
  have "lx_decimal_point (snd (next_bytes_loop rs l)) = lx_decimal_point l" for l
    by (induction rs arbitrary: l) (auto simp: Let_def)
  then show ?thesis by (simp add: next_byte_in_range_def)
qed

lemma scan_string_step_point: "lx_decimal_point (step_lexer (scan_string_step l)) = lx_decimal_point l"
proof -
  have u: "lx_decimal_point (step_lexer (scan_unicode_escape l)) = lx_decimal_point l" for l
    by (simp add: scan_unicode_escape_def Let_def case_prod_beta)
  have e: "lx_decimal_point (step_lexer (scan_escape l)) = lx_decimal_point l" for l
    by (simp add: scan_escape_def Let_def u)
  have b: "lx_decimal_point (step_lexer (scan_utf8 l)) = lx_decimal_point l" for l
    by (simp add: scan_utf8_def case_prod_beta split: option.splits)
  show ?thesis by (simp add: scan_string_step_def Let_def e b)
qed

lemma scan_string_point: "lx_decimal_point (snd (scan_string l)) = lx_decimal_point l"
proof -
  have "lx_decimal_point (snd (scan_string_loop l)) = lx_decimal_point l" for l
  proof (induction l rule: scan_string_loop.induct)
    case (1 l)
    then show ?case
      using scan_string_step_point [of l] by (cases "scan_string_step l") (simp_all add: scan_string_loop.simps [of l])
  qed
  then show ?thesis by (simp add: scan_string_def)
qed

lemma scan_number_done_point [simp]: "lx_decimal_point (snd (scan_number_done t l)) = lx_decimal_point l"
  by (simp add: scan_number_done_def Let_def split: option.splits)

lemma scan_number_any2_point [simp]: "lx_decimal_point (snd (scan_number_any2 t l)) = lx_decimal_point l"
  by (induction t l rule: scan_number_any2.induct) (subst scan_number_any2.simps, simp add: Let_def)

lemma scan_number_exponent_point [simp]: "lx_decimal_point (snd (scan_number_exponent l)) = lx_decimal_point l"
  by (simp add: scan_number_exponent_def scan_number_sign_def Let_def)

lemma scan_number_decimal2_point [simp]: "lx_decimal_point (snd (scan_number_decimal2 t l)) = lx_decimal_point l"
  by (induction t l rule: scan_number_decimal2.induct) (subst scan_number_decimal2.simps, simp add: Let_def)

lemma scan_number_decimal1_point [simp]: "lx_decimal_point (snd (scan_number_decimal1 l)) = lx_decimal_point l"
  by (simp add: scan_number_decimal1_def Let_def)

lemma scan_number_any1_point [simp]: "lx_decimal_point (snd (scan_number_any1 t l)) = lx_decimal_point l"
  by (induction t l rule: scan_number_any1.induct) (subst scan_number_any1.simps, simp add: Let_def)

lemma scan_number_point: "lx_decimal_point (snd (scan_number l)) = lx_decimal_point l"
  by (simp add: scan_number_def scan_number_minus_def scan_number_zero_def Let_def)

lemma scan_literal_point: "lx_decimal_point (snd (scan_literal s t l)) = lx_decimal_point l"
proof -
  have "lx_decimal_point (snd (scan_literal_loop xs t l)) = lx_decimal_point l" for xs
    by (induction xs arbitrary: l) (auto simp: Let_def)
  then show ?thesis by (simp add: scan_literal_def)
qed

lemma skip_whitespace_point [simp]: "lx_decimal_point (skip_whitespace l) = lx_decimal_point l"
  by (induction l rule: skip_whitespace.induct) (subst skip_whitespace.simps, simp add: Let_def)

lemma scan_point: "lx_decimal_point (snd (scan l)) = lx_decimal_point l"
proof -
  have t: "lx_decimal_point (snd (scan_token k)) = lx_decimal_point k" for k
    by (simp add: scan_token_def Let_def scan_literal_point scan_string_point scan_number_point)
  have b: "lx_decimal_point (snd (skip_bom l)) = lx_decimal_point l"
    by (simp add: skip_bom_def Let_def)
  show ?thesis using b by (simp add: scan_def Let_def t case_prod_beta)
qed

lemma get_token_point [simp]: "lx_decimal_point (ps_lexer (get_token p)) = lx_decimal_point (ps_lexer p)"
  using scan_point [of "ps_lexer p"] by (simp add: get_token_def case_prod_beta)

section \<open>Reading a known text\<close>

text \<open>The lexer is about to read \<open>s\<close>.\<close>

definition reads :: "lexer \<Rightarrow> string \<Rightarrow> bool" where
  "reads l s \<longleftrightarrow> lx_remaining l = s \<and>
     (lx_next_unget l \<longrightarrow> (lx_current l = eof \<and> lx_ia l = []) \<or> (\<exists>c. lx_current l = of_char c))"

lemma of_char_neq_eof: "(of_char c :: int) \<noteq> eof"
proof -
  have "0 \<le> (of_char c :: int)" by simp
  then show ?thesis unfolding eof_def by linarith
qed

lemma of_nat_neq_eof [simp]: "int n \<noteq> eof" "eof \<noteq> int n" "numeral k \<noteq> eof" "eof \<noteq> numeral k"
  by (simp_all add: eof_def)

lemma char_of_int_of_char [simp]: "char_of (int (of_char c)) = c"
  by (metis char_of_char of_char_int)

lemma lx_get_Cons:
  assumes "reads l (c # s)"
  shows "lx_current (lx_get l) = of_char c" "reads (lx_get l) s"
    "lx_chars_read (lx_get l) = Suc (lx_chars_read l)"
  using assms
  by (auto simp: reads_def lx_remaining_def lx_get_def get_character_def Let_def split: if_splits list.splits)

lemma lx_get_Nil:
  assumes "reads l []"
  shows "lx_current (lx_get l) = eof" "reads (lx_get l) []"
  using assms
  by (auto simp: reads_def lx_remaining_def lx_get_def get_character_def Let_def split: if_splits list.splits)


lemma reads_unget:
  assumes "reads l s" and "\<not> lx_next_unget l" and "lx_current l = of_char c"
  shows "reads (lx_unget l) (c # s)"
  using assms by (auto simp: reads_def lx_remaining_def lx_unget_def Let_def)

lemma reads_unget_eof:
  assumes "reads l []" and "\<not> lx_next_unget l" and "lx_current l = eof"
  shows "reads (lx_unget l) []"
  using assms by (auto simp: reads_def lx_remaining_def lx_unget_def Let_def)

lemma reads_simps [simp]:
  "reads (lx_add c l) s = reads l s" "reads (lx_reset l) s = reads l s"
  "reads (l\<lparr>lx_value_unsigned := w\<rparr>) s = reads l s" "reads (l\<lparr>lx_value_integer := w\<rparr>) s = reads l s"
  "reads (l\<lparr>lx_value_float := x\<rparr>) s = reads l s"
  by (simp_all add: reads_def lx_remaining_def lx_add_def lx_reset_def)

lemma lx_chars_simps [simp]:
  "lx_chars_read (lx_add c l) = lx_chars_read l" "lx_chars_read (lx_reset l) = lx_chars_read l"
  "lx_chars_read (lx_unget l) = lx_chars_read l - 1"
  by (simp_all add: lx_add_def lx_reset_def lx_unget_def Let_def)

lemma lx_get_chars [simp]: "lx_chars_read (lx_get l) = Suc (lx_chars_read l)"
  by (auto simp: lx_get_def get_character_def Let_def split: list.splits)

text \<open>Between two tokens, and right after the first character of a token.\<close>

definition lex_at :: "lexer \<Rightarrow> string \<Rightarrow> bool" where
  "lex_at l s \<longleftrightarrow> reads l s \<and> 0 < lx_chars_read l"

definition begun :: "lexer \<Rightarrow> char \<Rightarrow> string \<Rightarrow> bool" where
  "begun l c s \<longleftrightarrow> reads l s \<and> 0 < lx_chars_read l \<and> \<not> lx_next_unget l \<and> lx_current l = of_char c"

lemma skip_whitespace_reads:
  assumes "list_all white w" and "\<not> white c" and "reads l (w @ c # s)"
  shows "begun (skip_whitespace l) c s"
  using assms
proof (induction w arbitrary: l)
  case Nil
  then show ?case
    using lx_get_Cons [of l c s]
    by (auto simp: skip_whitespace.simps [of l] Let_def white_def begun_def)
next
  case (Cons b w)
  then have "reads (lx_get l) (w @ c # s)" "lx_current (lx_get l) = of_char b"
    using lx_get_Cons [of l b "w @ c # s"] by auto
  then show ?case
    using Cons by (auto simp: skip_whitespace.simps [of l] Let_def white_def)
qed

text \<open>The scan of a text that begins, after white space, with the character \<open>c\<close>.\<close>

definition starts :: "lexer \<Rightarrow> char \<Rightarrow> string \<Rightarrow> bool" where
  "starts l c s \<longleftrightarrow> (\<exists>l1. scan l = scan_token l1 \<and> begun l1 c s \<and> lx_decimal_point l1 = lx_decimal_point l)"

text \<open>The lexer is about to read a text that begins with a character that is not blank.\<close>

definition starts_text :: "lexer \<Rightarrow> string \<Rightarrow> bool" where
  "starts_text l s \<longleftrightarrow> (case s of [] \<Rightarrow> False | c # r \<Rightarrow> starts l c r)"

lemma starts_at:
  assumes "lex_at l (w @ c # s)" "list_all white w" "\<not> white c"
  shows "starts l c s"
  using assms skip_whitespace_reads [OF assms(2,3)] by (auto simp: starts_def scan_def lex_at_def)

lemma starts_new:
  assumes "\<not> white c" and "(of_char c :: nat) \<noteq> 0xEF"
  shows "starts (lexer_new point (c # s)) c s"
proof -
  let ?l = "lexer_new point (c # s)"
  have r: "reads ?l (c # s)" by (simp add: reads_def lx_remaining_def lexer_new_def)
  have "skip_bom ?l = (True, lx_unget (lx_get ?l))"
    using lx_get_Cons(1) [OF r] assms(2) by (simp add: skip_bom_def Let_def)
  moreover have "reads (lx_unget (lx_get ?l)) (c # s)"
    using lx_get_Cons [OF r] by (intro reads_unget) auto
  then have "begun (skip_whitespace (lx_unget (lx_get ?l))) c s"
    using skip_whitespace_reads [of "[]" c _ s] assms(1) by simp
  ultimately show ?thesis
    by (auto simp: starts_def scan_def lexer_new_def)
qed

section \<open>Tokens\<close>

text \<open>What the lexer makes of the beginning of a text: the token, the rest of the text, and
  a condition on the lexer it leaves.\<close>

definition lexes :: "lexer \<Rightarrow> token_type \<Rightarrow> (lexer \<Rightarrow> bool) \<Rightarrow> string \<Rightarrow> bool" where
  "lexes l t Q s \<longleftrightarrow> (\<exists>l1. scan l = (t, l1) \<and> Q l1 \<and> lex_at l1 s)"

lemma begun_lex_at: "begun l c s \<Longrightarrow> lex_at l s"
  by (simp add: begun_def lex_at_def)

lemma lexes_structural:
  "starts l (CHR ''['') s \<Longrightarrow> lexes l Tok_begin_array (\<lambda>_. True) s"
  "starts l (CHR '']'') s \<Longrightarrow> lexes l Tok_end_array (\<lambda>_. True) s"
  "starts l (CHR ''{'') s \<Longrightarrow> lexes l Tok_begin_object (\<lambda>_. True) s"
  "starts l (CHR ''}'') s \<Longrightarrow> lexes l Tok_end_object (\<lambda>_. True) s"
  "starts l (CHR '':'') s \<Longrightarrow> lexes l Tok_name_separator (\<lambda>_. True) s"
  "starts l (CHR '','') s \<Longrightarrow> lexes l Tok_value_separator (\<lambda>_. True) s"
  by (auto simp: starts_def lexes_def scan_token_def begun_def lex_at_def)

lemma scan_literal_loop_reads:
  "lex_at l (xs @ s) \<Longrightarrow> \<exists>l1. scan_literal_loop xs t l = (t, l1) \<and> lex_at l1 s"
proof (induction xs arbitrary: l)
  case (Cons x xs)
  then have "lex_at (lx_get l) (xs @ s)" "lx_current (lx_get l) = of_char x"
    using lx_get_Cons [of l x "xs @ s"] by (auto simp: lex_at_def)
  then show ?case using Cons.IH [of "lx_get l"] by (simp add: Let_def)
qed simp

lemma lexes_literal:
  "starts l (CHR ''t'') (''rue'' @ s) \<Longrightarrow> lexes l Tok_literal_true (\<lambda>_. True) s"
  "starts l (CHR ''f'') (''alse'' @ s) \<Longrightarrow> lexes l Tok_literal_false (\<lambda>_. True) s"
  "starts l (CHR ''n'') (''ull'' @ s) \<Longrightarrow> lexes l Tok_literal_null (\<lambda>_. True) s"
  using scan_literal_loop_reads [of _ "''rue''" s Tok_literal_true]
    scan_literal_loop_reads [of _ "''alse''" s Tok_literal_false]
    scan_literal_loop_reads [of _ "''ull''" s Tok_literal_null]
  by (fastforce simp: starts_def lexes_def scan_token_def begun_def lex_at_def scan_literal_def)+

section \<open>Numbers\<close>

text \<open>A text after which a number ends.\<close>

definition number_ends :: "string \<Rightarrow> bool" where
  "number_ends s \<longleftrightarrow> (case s of [] \<Rightarrow> True
     | c # _ \<Rightarrow> \<not> is_digit_char c \<and> of_char c \<notin> {0x2E, 0x65, 0x45 :: nat})"

lemma is_digit_of_char [simp]: "is_digit (int (of_char c)) = is_digit_char c"
  by (auto simp: is_digit_def is_digit_char_def)

lemma number_ends_get:
  assumes "reads l s" and "number_ends s" and "0 < lx_chars_read l"
  shows "\<not> is_digit (lx_current (lx_get l))" "lx_current (lx_get l) \<noteq> 0x2E"
    "lx_current (lx_get l) \<noteq> 0x65" "lx_current (lx_get l) \<noteq> 0x45"
    "lex_at (lx_unget (lx_get l)) s"
proof -
  have "reads (lx_unget (lx_get l)) s"
    using lx_get_Nil [of l] lx_get_Cons [of l] assms(1)
    by (cases s) (auto intro: reads_unget reads_unget_eof)
  then show "lex_at (lx_unget (lx_get l)) s"
    using assms(3) by (simp add: lex_at_def)
  show "\<not> is_digit (lx_current (lx_get l))" "lx_current (lx_get l) \<noteq> 0x2E"
    "lx_current (lx_get l) \<noteq> 0x65" "lx_current (lx_get l) \<noteq> 0x45"
    using lx_get_Nil [of l] lx_get_Cons [of l] assms(1,2)
    by (cases s; auto simp: number_ends_def eof_def is_digit_def is_digit_char_def)+
qed

lemma lx_token_buffer_unget [simp]: "lx_token_buffer (lx_unget l) = lx_token_buffer l"
  by (simp add: lx_unget_def Let_def)

lemma lx_token_buffer_reset [simp]: "lx_token_buffer (lx_reset l) = []"
  by (simp add: lx_reset_def)

lemma begun_add:
  assumes "begun l c s"
  shows "reads (lx_add (lx_current l) (lx_reset l)) s" "0 < lx_chars_read (lx_add (lx_current l) (lx_reset l))"
    "lx_token_buffer (lx_add (lx_current l) (lx_reset l)) = [c]" "lx_current l = of_char c"
  using assms by (auto simp: begun_def)

text \<open>The scan of a number that begins in \<open>l\<close> ends in the label \<open>scan_number_done\<close>, as a
  number of type \<open>t\<close>, with the text \<open>u\<close> added to the buffer.\<close>

definition number_read :: "token_type \<Rightarrow> token_type \<times> lexer \<Rightarrow> lexer \<Rightarrow> string \<Rightarrow> string \<Rightarrow> bool" where
  "number_read t r l u s \<longleftrightarrow>
     (\<exists>l1. r = scan_number_done t l1 \<and> lex_at (lx_unget l1) s \<and>
        lx_token_buffer l1 = lx_token_buffer l @ u \<and> lx_decimal_point l1 = lx_decimal_point l)"

text \<open>The lexer is in the middle of a number.\<close>

definition in_number :: "lexer \<Rightarrow> string \<Rightarrow> bool" where
  "in_number l s \<longleftrightarrow> reads l s \<and> 0 < lx_chars_read l"

text \<open>One more character read, and \<open>b\<close> added to the buffer.\<close>

abbreviation took :: "char \<Rightarrow> lexer \<Rightarrow> lexer" where
  "took b l \<equiv> lx_add (int (of_char b)) (lx_get l)"

lemma took_in_number:
  assumes "in_number l (c # s)"
  shows "lx_current (lx_get l) = int (of_char c)" "in_number (took b l) s"
  using assms lx_get_Cons [of l c s] by (auto simp: in_number_def)

lemma number_read_took: "number_read t r (took b l) u s \<Longrightarrow> number_read t r l (b # u) s"
  by (auto simp: number_read_def)

lemma number_read_end:
  assumes "in_number l s" and "number_ends s"
  shows "number_read t (scan_number_done t (lx_get l)) l [] s"
  using assms number_ends_get(5) [of l s] by (auto simp: number_read_def in_number_def)

lemma any2_read:
  assumes "list_all is_digit_char ds" and "in_number l (ds @ s)" and "number_ends s"
  shows "number_read t (scan_number_any2 t l) l ds s"
  using assms
proof (induction ds arbitrary: l)
  case Nil
  then show ?case
    using number_read_end [of l s] number_ends_get(1) [of l s]
    by (simp add: scan_number_any2.simps [of _ l] Let_def in_number_def)
next
  case (Cons d ds)
  note k = took_in_number [of l d "ds @ s"]
  have "number_read t (scan_number_any2 t (took d l)) l (d # ds) s"
    using Cons k by (intro number_read_took) simp
  then show ?case using Cons.prems k(1) by (simp add: scan_number_any2.simps [of _ l] Let_def)
qed

text \<open>After the letter of the exponent.\<close>

lemma exponent_read:
  assumes "digit_text ds" and "sg = [] \<or> sg = ''+'' \<or> sg = ''-''" and "in_number l (sg @ ds @ s)" and "number_ends s"
  shows "number_read Tok_value_float (scan_number_exponent l) l (sg @ ds) s"
proof -
  obtain d ds' where ds: "ds = d # ds'" "is_digit_char d" "list_all is_digit_char ds'"
    using assms(1) by (cases ds) (auto simp: digit_text_def)
  have digits: "number_read Tok_value_float (scan_number_any2 Tok_value_float (took d k)) k ds s"
      "lx_current (lx_get k) = int (of_char d)" if "in_number k (ds @ s)" for k
  proof -
    note k = took_in_number [OF that [unfolded ds(1) append_Cons]]
    show "number_read Tok_value_float (scan_number_any2 Tok_value_float (took d k)) k ds s"
      unfolding ds(1) by (intro number_read_took any2_read ds(3) assms(4) k(2))
    show "lx_current (lx_get k) = int (of_char d)" by (rule k(1))
  qed
  have ds_sign: "int (of_char d) \<noteq> 0x2B" "int (of_char d) \<noteq> 0x2D" using ds(2) by (auto simp: is_digit_char_def)
  show ?thesis
  proof (cases "sg = []")
    case True
    then show ?thesis using digits [of l] assms(3) ds(2) ds_sign by (simp add: scan_number_exponent_def Let_def)
  next
    case False
    then obtain c where c: "sg = [c]" "c = CHR ''+'' \<or> c = CHR ''-''" using assms(2) by auto
    have i: "in_number l (c # ds @ s)" using assms(3) c(1) by simp
    note k = took_in_number [OF i]
    have "number_read Tok_value_float (scan_number_any2 Tok_value_float (took d (took c l))) l (sg @ ds) s"
      unfolding c(1) append_Cons append_Nil by (rule number_read_took [OF digits(1) [OF k(2)]])
    then show ?thesis
      using c(2) k(1) digits(2) [OF k(2) [of c]] ds(2) by (auto simp: scan_number_exponent_def scan_number_sign_def Let_def)
  qed
qed

lemma exponent_part_read:
  assumes "exponent_part x" and "in_number l (x @ s)" and "number_ends s"
  shows "x = [] \<Longrightarrow> \<not> is_digit (lx_current (lx_get l)) \<and> lx_current (lx_get l) \<notin> {0x2E, 0x65, 0x45}"
    "x \<noteq> [] \<Longrightarrow> lx_current (lx_get l) \<in> {0x65, 0x45} \<and>
       number_read Tok_value_float (scan_number_exponent (lx_add (lx_current (lx_get l)) (lx_get l))) l x s"
proof -
  show "x = [] \<Longrightarrow> \<not> is_digit (lx_current (lx_get l)) \<and> lx_current (lx_get l) \<notin> {0x2E, 0x65, 0x45}"
    using number_ends_get(1-4) [of l s] assms(2,3) by (simp add: in_number_def)
  assume "x \<noteq> []"
  then obtain c sg ds where x: "x = c # sg @ ds" "c = CHR ''e'' \<or> c = CHR ''E''" "sg = [] \<or> sg = ''+'' \<or> sg = ''-''" "digit_text ds"
    using assms(1) unfolding exponent_part_def by blast
  have i: "in_number l (c # sg @ ds @ s)" using assms(2) x(1) by simp
  note k = took_in_number [OF i]
  have "number_read Tok_value_float (scan_number_exponent (took c l)) l x s"
    unfolding x(1) by (intro number_read_took exponent_read x(3,4) assms(3) k(2))
  then show "lx_current (lx_get l) \<in> {0x65, 0x45} \<and>
       number_read Tok_value_float (scan_number_exponent (lx_add (lx_current (lx_get l)) (lx_get l))) l x s"
    using k(1) x(2) by auto
qed

lemma is_digit_marks [simp]: "\<not> is_digit 0x2E" "\<not> is_digit 0x65" "\<not> is_digit 0x45"
  by (simp_all add: is_digit_def)

lemma decimal2_read:
  assumes "list_all is_digit_char ds" and "exponent_part x" and "in_number l (ds @ x @ s)" and "number_ends s"
  shows "number_read Tok_value_float (scan_number_decimal2 Tok_value_float l) l (ds @ x) s"
  using assms(1,3)
proof (induction ds arbitrary: l)
  case Nil
  then have i: "in_number l (x @ s)" by simp
  note e = exponent_part_read [OF assms(2) i assms(4)]
  show ?case
  proof (cases "x = []")
    case True
    then show ?thesis using e(1) number_read_end [of l s] i assms(4) by (simp add: scan_number_decimal2.simps [of _ l] Let_def)
  next
    case False
    then show ?thesis using e(2) by (auto simp: scan_number_decimal2.simps [of _ l] Let_def)
  qed
next
  case (Cons d ds)
  note k = took_in_number [of l d "ds @ x @ s"]
  have "number_read Tok_value_float (scan_number_decimal2 Tok_value_float (took d l)) l (d # ds @ x) s"
    using Cons k by (intro number_read_took) simp
  then show ?case using Cons.prems k(1) by (simp add: scan_number_decimal2.simps [of _ l] Let_def)
qed

lemma decimal1_read:
  assumes "digit_text ds" and "exponent_part x" and "in_number l (ds @ x @ s)" and "number_ends s"
  shows "number_read Tok_value_float (scan_number_decimal1 l) l (ds @ x) s"
proof -
  obtain d ds' where ds: "ds = d # ds'" "is_digit_char d" "list_all is_digit_char ds'"
    using assms(1) by (cases ds) (auto simp: digit_text_def)
  note k = took_in_number [of l d "ds' @ x @ s"]
  have "number_read Tok_value_float (scan_number_decimal2 Tok_value_float (took d l)) l (d # ds' @ x) s"
    using assms k ds by (intro number_read_took decimal2_read) simp_all
  then show ?thesis using assms(3) k(1) ds by (simp add: scan_number_decimal1_def Let_def)
qed

text \<open>After the digits before the decimal point: the type of the number is known at its end.\<close>

definition tail_type :: "token_type \<Rightarrow> string option \<Rightarrow> string \<Rightarrow> token_type" where
  "tail_type t f x = (if f = None \<and> x = [] then t else Tok_value_float)"

lemma zero_read:
  assumes "number_parts w f x" and "in_number l (tail_part (CHR ''.'') f x @ s)" and "number_ends s"
  shows "number_read (tail_type t f x) (scan_number_zero t l) l (tail_part (lx_decimal_point l) f x) s"
    and "\<not> is_digit (lx_current (lx_get l))"
proof -
  have x: "exponent_part x" using assms(1) by (simp add: number_parts_def)
  have "number_read (tail_type t f x) (scan_number_zero t l) l (tail_part (lx_decimal_point l) f x) s \<and>
      \<not> is_digit (lx_current (lx_get l))"
  proof (cases f)
    case None
    then have i: "in_number l (x @ s)" using assms(2) by (simp add: tail_part_def)
    note e = exponent_part_read [OF x i assms(3)]
    show ?thesis
    proof (cases "x = []")
      case True
      then show ?thesis using e(1) number_read_end [of l s t] i assms(3) None
        by (simp add: scan_number_zero_def Let_def tail_part_def tail_type_def)
    next
      case False
      then show ?thesis using e(2) None by (auto simp: scan_number_zero_def Let_def tail_part_def tail_type_def)
    qed
  next
    case (Some ds)
    have i: "in_number l (CHR ''.'' # ds @ x @ s)" using assms(2) Some by (simp add: tail_part_def)
    have "number_read Tok_value_float (scan_number_decimal1 (took (lx_decimal_point l) l)) l (lx_decimal_point l # ds @ x) s"
      using took_in_number(2) [OF i] assms(1,3) x Some by (intro number_read_took decimal1_read) (auto simp: number_parts_def)
    then show ?thesis using took_in_number(1) [OF i] Some
      by (simp add: scan_number_zero_def Let_def tail_part_def tail_type_def)
  qed
  then show "number_read (tail_type t f x) (scan_number_zero t l) l (tail_part (lx_decimal_point l) f x) s"
    "\<not> is_digit (lx_current (lx_get l))" by blast+
qed

lemma any1_read:
  assumes "number_parts w f x" and "list_all is_digit_char ds" and "in_number l (ds @ tail_part (CHR ''.'') f x @ s)" and "number_ends s"
  shows "number_read (tail_type t f x) (scan_number_any1 t l) l (ds @ tail_part (lx_decimal_point l) f x) s"
  using assms(2,3)
proof (induction ds arbitrary: l)
  case Nil
  then have i: "in_number l (tail_part (CHR ''.'') f x @ s)" by simp
  note z = zero_read [OF assms(1) i assms(4)]
  then have "scan_number_any1 t l = scan_number_zero t l"
    by (simp add: scan_number_any1.simps [of t l] scan_number_zero_def Let_def)
  then show ?case using z(1) by simp
next
  case (Cons d ds)
  note k = took_in_number [of l d "ds @ tail_part (CHR ''.'') f x @ s"]
  have "number_read (tail_type t f x) (scan_number_any1 t (took d l)) (took d l) (ds @ tail_part (lx_decimal_point l) f x) s"
    using Cons.IH [of "took d l"] Cons.prems k by simp
  then have "number_read (tail_type t f x) (scan_number_any1 t (took d l)) l (d # ds @ tail_part (lx_decimal_point l) f x) s"
    by (rule number_read_took)
  then show ?case using Cons.prems k(1) by (simp add: scan_number_any1.simps [of t l] Let_def)
qed

lemma digit_char_zero: "is_digit_char c \<Longrightarrow> (of_char c :: int) = 0x30 \<longleftrightarrow> c = CHR ''0''"
proof -
  have "(of_char c :: int) = of_char (CHR ''0'') \<longleftrightarrow> c = CHR ''0''" by (simp only: of_char_eq_iff)
  then show ?thesis by simp
qed

text \<open>The digits before the decimal point, after the first: a zero stands alone.\<close>

lemma whole_read:
  assumes "number_parts (c # w) f x" and "in_number l (w @ tail_part (CHR ''.'') f x @ s)" and "number_ends s"
  shows "number_read (tail_type t f x) (if int (of_char c) = 0x30 then scan_number_zero t l else scan_number_any1 t l) l
     (w @ tail_part (lx_decimal_point l) f x) s"
proof (cases "c = CHR ''0''")
  case True
  then have "w = []" using assms(1) by (simp add: number_parts_def)
  then show ?thesis using zero_read(1) [OF assms(1) _ assms(3), of l t] assms(2) True by simp
next
  case False
  have d: "is_digit_char c" "list_all is_digit_char w" using assms(1) by (auto simp: number_parts_def digit_text_def)
  have "int (of_char c) \<noteq> 0x30" using digit_char_zero [OF d(1)] False by simp
  then show ?thesis using any1_read [OF assms(1) d(2) assms(2,3)] by simp
qed

definition number_type :: "bool \<Rightarrow> string option \<Rightarrow> string \<Rightarrow> token_type" where
  "number_type neg f x = tail_type (if neg then Tok_value_integer else Tok_value_unsigned) f x"

lemma scan_number_read:
  assumes "starts_text l (parts_text (CHR ''.'') neg w f x @ s)" and "number_parts w f x" and "number_ends s"
  obtains l1 where "scan l = scan_number_done (number_type neg f x) l1" "lex_at (lx_unget l1) s"
    "lx_token_buffer l1 = parts_text (lx_decimal_point l) neg w f x" "lx_decimal_point l1 = lx_decimal_point l"
proof -
  obtain c w' where w: "w = c # w'" "is_digit_char c" using assms(2) by (cases w) (auto simp: number_parts_def digit_text_def)
  have d: "0x30 \<le> (of_char c :: int)" "of_char c \<le> (0x39 :: int)" using w(2) by (simp_all add: is_digit_char_def)
  note p = assms(2) [unfolded w(1)]
  have "\<exists>l1. scan l = scan_number_done (number_type neg f x) l1 \<and> lex_at (lx_unget l1) s \<and>
      lx_token_buffer l1 = parts_text (lx_decimal_point l) neg w f x \<and> lx_decimal_point l1 = lx_decimal_point l"
  proof (cases neg)
    case True
    then have "starts l (CHR ''-'') (w @ tail_part (CHR ''.'') f x @ s)"
      using assms(1) by (simp add: starts_text_def parts_text_def sign_text_def)
    then obtain l0 where l0: "scan l = scan_token l0" "begun l0 (CHR ''-'') (w @ tail_part (CHR ''.'') f x @ s)" "lx_decimal_point l0 = lx_decimal_point l"
      by (auto simp: starts_def)
    let ?l1 = "lx_add (lx_current l0) (lx_reset l0)"
    note b = begun_add [OF l0(2)]
    have i: "in_number ?l1 (c # w' @ tail_part (CHR ''.'') f x @ s)" using b w(1) by (simp add: in_number_def)
    note k = took_in_number [OF i]
    have "scan l = (if int (of_char c) = 0x30 then scan_number_zero Tok_value_integer (took c ?l1) else scan_number_any1 Tok_value_integer (took c ?l1))"
      using l0(1) b(4) k(1) d by (auto simp: scan_token_def is_digit_def scan_number_def scan_number_minus_def Let_def)
    then show ?thesis
      using whole_read [OF p k(2) [of c] assms(3), of Tok_value_integer] b(3) l0(3) True w(1)
      by (auto simp: number_read_def number_type_def parts_text_def sign_text_def)
  next
    case False
    then have "starts l c (w' @ tail_part (CHR ''.'') f x @ s)"
      using assms(1) w(1) by (simp add: starts_text_def parts_text_def sign_text_def)
    then obtain l0 where l0: "scan l = scan_token l0" "begun l0 c (w' @ tail_part (CHR ''.'') f x @ s)" "lx_decimal_point l0 = lx_decimal_point l"
      by (auto simp: starts_def)
    let ?l1 = "lx_add (lx_current l0) (lx_reset l0)"
    note b = begun_add [OF l0(2)]
    have i: "in_number ?l1 (w' @ tail_part (CHR ''.'') f x @ s)" using b by (simp add: in_number_def)
    have "scan l = (if int (of_char c) = 0x30 then scan_number_zero Tok_value_unsigned ?l1 else scan_number_any1 Tok_value_unsigned ?l1)"
      using l0(1) b(4) d by (auto simp: scan_token_def is_digit_def scan_number_def Let_def)
    then show ?thesis
      using whole_read [OF p i assms(3), of Tok_value_unsigned] b(3) l0(3) False w(1)
      by (auto simp: number_read_def number_type_def parts_text_def sign_text_def)
  qed
  then show ?thesis using that by blast
qed

text \<open>The token of a number, and the value it carries.\<close>

fun token_value :: "token_type \<times> lexer \<Rightarrow> json" where
  "token_value (Tok_value_unsigned, l) = Json_Unsigned (lx_value_unsigned l)"
| "token_value (Tok_value_integer, l) = Json_Integer (lx_value_integer l)"
| "token_value (Tok_value_float, l) = Json_Float (lx_value_float l)"
| "token_value _ = Json_Discarded"

lemma lex_at_values [simp]:
  "lex_at (l\<lparr>lx_value_unsigned := w\<rparr>) s = lex_at l s" "lex_at (l\<lparr>lx_value_integer := w\<rparr>) s = lex_at l s"
  "lex_at (l\<lparr>lx_value_float := x\<rparr>) s = lex_at l s"
  by (simp_all add: lex_at_def)

lemma digit_text_no_minus: "digit_text w \<Longrightarrow> w \<noteq> CHR ''-'' # r"
  by (auto simp: digit_text_def is_digit_char_def)

lemma scan_number_done_value:
  assumes "lx_token_buffer l = parts_text (lx_decimal_point l) neg w f x" and "number_parts w f x"
  shows "token_value (scan_number_done (number_type neg f x) l) = parts_value (lx_decimal_point l) neg w f x"
    "fst (scan_number_done (number_type neg f x) l) \<in> {Tok_value_unsigned, Tok_value_integer, Tok_value_float}"
    "lex_at (snd (scan_number_done (number_type neg f x) l)) s = lex_at (lx_unget l) s"
  using assms
  by (auto simp: scan_number_done_def Let_def number_type_def tail_type_def parts_value_def parts_text_def
      sign_text_def tail_part_def strtoull_def strtoll_def number_parts_def split: list.splits)

lemma lexes_number:
  assumes "starts_text l (parts_text (CHR ''.'') neg w f x @ s)" and "number_parts w f x" and "number_ends s"
  obtains t where "t \<in> {Tok_value_unsigned, Tok_value_integer, Tok_value_float}"
    "lexes l t (\<lambda>l1. token_value (t, l1) = parts_value (lx_decimal_point l) neg w f x) s"
proof -
  obtain l1 where l1: "scan l = scan_number_done (number_type neg f x) l1" "lex_at (lx_unget l1) s"
      "lx_token_buffer l1 = parts_text (lx_decimal_point l1) neg w f x" "lx_decimal_point l1 = lx_decimal_point l"
    using scan_number_read [OF assms] by metis
  note v = scan_number_done_value [OF l1(3) assms(2)]
  have "lexes l (fst (scan l)) (\<lambda>l2. token_value (fst (scan l), l2) = parts_value (lx_decimal_point l) neg w f x) s"
    unfolding lexes_def by (rule exI [of _ "snd (scan l)"]) (use v(1,3) l1 in simp)
  then show ?thesis using that v(2) l1(1) by simp
qed

section \<open>Strings\<close>

lemma next_bytes_loop_reads:
  assumes "list_all2 in_range rs bs" and "reads l (bs @ s)" and "0 < lx_chars_read l"
  shows "\<exists>l1. next_bytes_loop rs l = (True, l1) \<and> reads l1 s \<and> lx_token_buffer l1 = lx_token_buffer l @ bs \<and>
    0 < lx_chars_read l1"
  using assms
proof (induction rs arbitrary: bs l)
  case (Cons r rs)
  then obtain b bs' where bs: "bs = b # bs'" "in_range r b" "list_all2 in_range rs bs'"
    by (auto simp: list_all2_Cons1)
  let ?l1 = "lx_add (lx_current (lx_get l)) (lx_get l)"
  have "reads ?l1 (bs' @ s)" "lx_current (lx_get l) = of_char b" "0 < lx_chars_read ?l1"
    using lx_get_Cons [of l b "bs' @ s"] Cons.prems(2,3) bs(1) by auto
  then show ?case
    using Cons.IH [OF bs(3), of ?l1] bs by (simp add: Let_def in_range_def)
qed auto

text \<open>The loop is about to read \<open>s\<close> and has collected \<open>b\<close>.\<close>

definition collects :: "lexer \<Rightarrow> string \<Rightarrow> string \<Rightarrow> bool" where
  "collects l b s \<longleftrightarrow> reads l s \<and> lx_token_buffer l = b \<and> 0 < lx_chars_read l"

lemma collects_get:
  "collects l b (c # s) \<Longrightarrow> collects (lx_get l) b s" "collects l b (c # s) \<Longrightarrow> lx_current (lx_get l) = of_char c"
  using lx_get_Cons [of l c s] by (auto simp: collects_def)

lemma collects_add: "collects l b s \<Longrightarrow> collects (lx_add c l) (b @ [char_of c]) s"
  by (simp add: collects_def)

lemma collects_codepoint:
  assumes "collects l b s" and "codepoint_ok n"
  shows "collects (add_codepoint n l) (b @ map char_of (utf8_encode n)) s"
proof -
  have "reads (add_codepoint n l) s = reads l s" "lx_chars_read (add_codepoint n l) = lx_chars_read l"
    by (simp_all add: add_codepoint_def)
  then show ?thesis using assms add_codepoint_buffer [OF assms(2)] by (simp add: collects_def)
qed

lemma get_codepoint_digit:
  assumes "collects l b (h # s)" and "hex_val h = Some d"
  shows "get_codepoint_loop (f # fs) cp l = get_codepoint_loop fs (cp + push_bit f d) (lx_get l)"
    and "collects (lx_get l) b s"
  using collects_get [OF assms(1)] assms(2) by (auto simp: hex_val_def Let_def split: if_splits)

lemma get_codepoint_reads:
  assumes "hex_quad hs n" and "collects l b (hs @ s)"
  obtains l1 where "get_codepoint l = (n, l1)" "collects l1 b s"
proof -
  obtain h3 h2 h1 h0 x3 x2 x1 x0 where hs: "hs = [h3, h2, h1, h0]" and v: "hex_val h3 = Some x3" "hex_val h2 = Some x2"
      "hex_val h1 = Some x1" "hex_val h0 = Some x0" and n: "n = 0x1000 * x3 + 0x100 * x2 + 0x10 * x1 + x0"
    using assms(1) unfolding hex_quad_def by blast
  have r: "collects l b (h3 # h2 # h1 # h0 # s)" using assms(2) hs by simp
  note g3 = get_codepoint_digit [OF r v(1)]
  note g2 = get_codepoint_digit [OF g3(2) v(2)]
  note g1 = get_codepoint_digit [OF g2(2) v(3)]
  note g0 = get_codepoint_digit [OF g1(2) v(4)]
  have "get_codepoint l = (n, lx_get (lx_get (lx_get (lx_get l))))"
    unfolding get_codepoint_def g3(1) g2(1) g1(1) g0(1) n by (simp add: push_bit_eq_mult)
  then show ?thesis using that g0(2) by blast
qed

lemma hex_val_range: "hex_val h = Some d \<Longrightarrow> 0 \<le> d \<and> d < 16"
  by (auto simp: hex_val_def Let_def split: if_splits)

lemma hex_quad_range: "hex_quad hs n \<Longrightarrow> 0 \<le> n \<and> n \<le> 0xFFFF"
  by (auto simp: hex_quad_def dest!: hex_val_range)

lemma char_eq_code: "c = d \<longleftrightarrow> (of_char c :: nat) = of_char d"
  by simp

text \<open>One turn of the loop: what it reads and what it adds.\<close>

lemma step_plain:
  assumes "0x20 \<le> (of_char c :: nat)" "of_char c < (0x80 :: nat)" "c \<noteq> CHR 0x22" "c \<noteq> CHR 0x5C"
    and "collects l b (c # s)"
  shows "\<exists>l1. scan_string_step l = Inl l1 \<and> collects l1 (b @ [c]) s"
proof -
  note g = collects_get [OF assms(5)]
  have "(of_char c :: nat) \<noteq> 0x22" "(of_char c :: nat) \<noteq> 0x5C"
    using assms(3,4) unfolding char_eq_code by simp_all
  then have "scan_string_step l = Inl (lx_add (of_char c) (lx_get l))"
    using g(2) assms(1,2) by (simp add: scan_string_step_def Let_def)
  then show ?thesis using collects_add [OF g(1), of "of_char c"] by simp
qed

lemma step_utf8:
  assumes "utf8_ranges (of_char c) = Some rs" and "list_all2 in_range rs bs" and "collects l b (c # bs @ s)"
  shows "\<exists>l1. scan_string_step l = Inl l1 \<and> collects l1 (b @ c # bs) s"
proof -
  note g = collects_get [OF assms(3)]
  let ?l1 = "lx_add (of_char c) (lx_get l)"
  have big: "0x80 \<le> (of_char c :: int)" using assms(1) by (auto simp: utf8_ranges_def split: if_splits)
  have "collects ?l1 (b @ [c]) (bs @ s)" using collects_add [OF g(1), of "of_char c"] by simp
  then obtain l2 where l2: "next_bytes_loop rs ?l1 = (True, l2)" "collects l2 (b @ c # bs) s"
    using next_bytes_loop_reads [OF assms(2), of ?l1 s] by (auto simp: collects_def)
  have "scan_string_step l = Inl l2"
    using g(2) assms(1) big l2(1)
    by (simp add: scan_string_step_def scan_utf8_def next_byte_in_range_def Let_def)
  then show ?thesis using l2(2) by blast
qed

lemma step_escape:
  assumes "escaped e = Some c" and "collects l b (CHR 0x5C # e # s)"
  shows "\<exists>l1. scan_string_step l = Inl l1 \<and> collects l1 (b @ [c]) s"
proof -
  note g = collects_get [OF assms(2)] collects_get [OF collects_get(1) [OF assms(2)]]
  have "scan_string_step l = Inl (lx_add (of_char c) (lx_get (lx_get l)))"
    using g(2,4) assms(1) by (auto simp: scan_string_step_def scan_escape_def Let_def escaped_def split: if_splits)
  then show ?thesis using collects_add [OF g(3), of "of_char c"] by simp
qed

lemma step_unicode:
  assumes "hex_quad hs n" and "collects l b (CHR 0x5C # CHR ''u'' # hs @ s)"
  shows "\<exists>l1. scan_string_step l = scan_unicode_escape (lx_get (lx_get l)) \<and>
    get_codepoint (lx_get (lx_get l)) = (n, l1) \<and> collects l1 b s"
proof -
  note g = collects_get [OF assms(2)] collects_get [OF collects_get(1) [OF assms(2)]]
  obtain l1 where "get_codepoint (lx_get (lx_get l)) = (n, l1)" "collects l1 b s"
    using get_codepoint_reads [OF assms(1) g(3)] .
  moreover have "scan_string_step l = scan_unicode_escape (lx_get (lx_get l))"
    using g(2,4) by (simp add: scan_string_step_def scan_escape_def Let_def)
  ultimately show ?thesis by blast
qed

lemma step_codepoint:
  assumes "hex_quad hs n" and "codepoint_ok n" and "collects l b (CHR 0x5C # CHR ''u'' # hs @ s)"
  shows "\<exists>l1. scan_string_step l = Inl l1 \<and> collects l1 (b @ map char_of (utf8_encode n)) s"
proof -
  obtain l1 where l1: "scan_string_step l = scan_unicode_escape (lx_get (lx_get l))"
      "get_codepoint (lx_get (lx_get l)) = (n, l1)" "collects l1 b s"
    using step_unicode [OF assms(1,3)] by blast
  have "scan_string_step l = Inl (add_codepoint n l1)"
    unfolding l1(1) using l1(2) assms(2) by (auto simp: scan_unicode_escape_def codepoint_ok_def)
  then show ?thesis using collects_codepoint [OF l1(3) assms(2)] by blast
qed

lemma step_pair:
  assumes "hex_quad hs hi" "hex_quad gs lo" and "0xD800 \<le> hi" "hi \<le> 0xDBFF" "0xDC00 \<le> lo" "lo \<le> 0xDFFF"
    and "collects l b (CHR 0x5C # CHR ''u'' # hs @ CHR 0x5C # CHR ''u'' # gs @ s)"
  shows "\<exists>l1. scan_string_step l = Inl l1 \<and>
    collects l1 (b @ map char_of (utf8_encode (0x10000 + 0x400 * (hi - 0xD800) + (lo - 0xDC00)))) s"
proof -
  let ?n = "0x10000 + 0x400 * (hi - 0xD800) + (lo - 0xDC00)"
  obtain l1 where l1: "scan_string_step l = scan_unicode_escape (lx_get (lx_get l))"
      "get_codepoint (lx_get (lx_get l)) = (hi, l1)" "collects l1 b (CHR 0x5C # CHR ''u'' # gs @ s)"
    using step_unicode [OF assms(1,7)] by blast
  note g = collects_get [OF l1(3)] collects_get [OF collects_get(1) [OF l1(3)]]
  obtain l4 where l4: "get_codepoint (lx_get (lx_get l1)) = (lo, l4)" "collects l4 b s"
    using get_codepoint_reads [OF assms(2) g(3)] .
  have n: "push_bit 10 hi + lo - 0x35FDC00 = ?n" "codepoint_ok ?n"
    using assms(3-6) by (simp_all add: push_bit_eq_mult codepoint_ok_def)
  have "scan_string_step l = Inl (add_codepoint (push_bit 10 hi + lo - 0x35FDC00) l4)"
    unfolding l1(1) using l1(2) l4(1) g(2,4) assms(3-6) by (simp add: scan_unicode_escape_def Let_def)
  then show ?thesis unfolding n(1) using collects_codepoint [OF l4(2) n(2)] by blast
qed

lemma scan_string_loop_Inl: "scan_string_step l = Inl l' \<Longrightarrow> scan_string_loop l = scan_string_loop l'"
  by (simp add: scan_string_loop.simps [of l])

lemma scan_string_loop_reads:
  assumes "string_text str t" and "collects l b (t @ dq @ s)"
  shows "\<exists>l1. scan_string_loop l = (Tok_value_string, l1) \<and> collects l1 (b @ str) s"
  using assms
proof (induction arbitrary: l b rule: string_text.induct)
  case st_end
  then show ?case
    using collects_get [of l b "CHR 0x22" s]
    by (simp add: scan_string_loop.simps [of l] scan_string_step_def Let_def eof_def)
next
  case (st_plain c str t)
  obtain l1 where "scan_string_step l = Inl l1" "collects l1 (b @ [c]) (t @ dq @ s)"
    using step_plain [OF st_plain.hyps(1-4)] st_plain.prems by (metis append_Cons)
  then show ?case using st_plain.IH [of l1 "b @ [c]"] scan_string_loop_Inl by simp
next
  case (st_utf8 c rs bs str t)
  obtain l1 where "scan_string_step l = Inl l1" "collects l1 (b @ c # bs) (t @ dq @ s)"
    using step_utf8 [OF st_utf8.hyps(1,2)] st_utf8.prems by (metis append_Cons append_assoc)
  then show ?case using st_utf8.IH [of l1 "b @ c # bs"] scan_string_loop_Inl by simp
next
  case (st_escape e c str t)
  obtain l1 where "scan_string_step l = Inl l1" "collects l1 (b @ [c]) (t @ dq @ s)"
    using step_escape [OF st_escape.hyps(1)] st_escape.prems by (metis append_Cons)
  then show ?case using st_escape.IH [of l1 "b @ [c]"] scan_string_loop_Inl by simp
next
  case (st_unicode hs n str t)
  obtain l1 where "scan_string_step l = Inl l1" "collects l1 (b @ map char_of (utf8_encode n)) (t @ dq @ s)"
    using step_codepoint [OF st_unicode.hyps(1,2)] st_unicode.prems by (metis append_Cons append_assoc)
  then show ?case using st_unicode.IH [of l1 "b @ map char_of (utf8_encode n)"] scan_string_loop_Inl by simp
next
  case (st_pair hs hi gs lo str t)
  let ?u = "map char_of (utf8_encode (0x10000 + 0x400 * (hi - 0xD800) + (lo - 0xDC00)))"
  obtain l1 where "scan_string_step l = Inl l1" "collects l1 (b @ ?u) (t @ dq @ s)"
    using step_pair [OF st_pair.hyps(1-6)] st_pair.prems by (metis append_Cons append_assoc)
  then show ?case using st_pair.IH [of l1 "b @ ?u"] scan_string_loop_Inl by simp
qed

lemma lexes_string:
  assumes "starts_text l ((dq @ t @ dq) @ s)" and "string_text str t"
  shows "lexes l Tok_value_string (\<lambda>l1. lx_token_buffer l1 = str) s"
proof -
  obtain l0 where l0: "scan l = scan_token l0" "begun l0 (CHR 0x22) (t @ dq @ s)"
    using assms(1) by (auto simp: starts_text_def starts_def)
  have "collects (lx_reset l0) [] (t @ dq @ s)"
    using l0(2) by (simp add: begun_def collects_def)
  then obtain l1 where "scan_string_loop (lx_reset l0) = (Tok_value_string, l1)" "collects l1 str s"
    using scan_string_loop_reads [OF assms(2)] by fastforce
  then show ?thesis
    using l0 by (auto simp: lexes_def scan_token_def begun_def scan_string_def collects_def lex_at_def)
qed


end
