(* ===== verification/Json_Accepting.thy ===== *)
theory Json_Accepting
  imports Json_Reading
begin

unbundle bit_operations_syntax

text \<open>
  The parser reads every text of the grammar, and the value it builds is the one the grammar
  gives. The proof follows the loop of \<open>sax_parse_internal\<close> through the text of each value
  (\<open>parses\<close>), with the place in the value under construction that the next event writes to
  (\<open>slot\<close>).
\<close>

section \<open>Places in the value under construction\<close>

lemma get_at_append: "get_at j (p @ q) = (case get_at j p of None \<Rightarrow> None | Some v \<Rightarrow> get_at v q)"
  by (induction j p rule: get_at.induct) (auto split: option.splits)

lemma update_at_append: "update_at f j (p @ q) = update_at (\<lambda>v. update_at f v q) j p"
  by (induction "\<lambda>v. update_at f v q" j p rule: update_at.induct) (auto split: option.splits)

text \<open>\<open>R v\<close> is the root with the value \<open>v\<close> at the place \<open>p\<close>.\<close>

definition place :: "path \<Rightarrow> (json \<Rightarrow> json) \<Rightarrow> bool" where
  "place p R \<longleftrightarrow> (\<forall>v. get_at (R v) p = Some v \<and> (\<forall>f. update_at f (R v) p = R (f v)))"

text \<open>The next value goes to \<open>p\<close>.\<close>

definition slot :: "dom \<Rightarrow> path \<Rightarrow> (json \<Rightarrow> json) \<Rightarrow> bool" where
  "slot d p R \<longleftrightarrow> place p R \<and> (\<forall>v. handle_value v d = (p, d\<lparr>dom_root := R v\<rparr>))"

lemma place_root: "place [] (\<lambda>v. v)"
  by (simp add: place_def)

lemma slot_root: "slot (dom_new r) [] (\<lambda>v. v)"
  by (simp add: slot_def place_root handle_value_def dom_new_def)

lemma place_Idx:
  assumes "place p R"
  shows "place (p @ [Idx (length xs)]) (\<lambda>v. R (Json_Array (xs @ [v])))"
  using assms by (simp add: place_def get_at_append update_at_append)

lemma place_Key:
  assumes "place p R"
  shows "place (p @ [Key k]) (\<lambda>v. R (Json_Object (map_assign m k v)))"
proof -
  have "map_assign (map_assign m k v) k w = map_assign m k w" for v w
    by (induction m) auto
  with assms show ?thesis by (simp add: place_def get_at_append update_at_append)
qed

text \<open>Inside an open array or object at \<open>p\<close>.\<close>

definition inside :: "dom \<Rightarrow> path \<Rightarrow> (json \<Rightarrow> json) \<Rightarrow> json \<Rightarrow> path list \<Rightarrow> bool" where
  "inside d p R v refs \<longleftrightarrow> place p R \<and> dom_root d = R v \<and> dom_refs d = p # refs"

lemma slot_array:
  assumes "inside d p R (Json_Array xs) refs"
  shows "slot d (p @ [Idx (length xs)]) (\<lambda>v. R (Json_Array (xs @ [v])))"
  using assms place_Idx by (simp add: slot_def inside_def handle_value_def place_def)

lemma map_assign_same: "map_ok m \<Longrightarrow> map_find m k = Some v \<Longrightarrow> map_assign m k v = m"
  by (induction m) (auto simp: map_ok_Cons map_find_in_set, force)

lemma slot_object:
  assumes "inside d p R (Json_Object m) refs" and "map_ok m"
  shows "slot (dom_key k d) (p @ [Key k]) (\<lambda>v. R (Json_Object (map_assign m k v)))"
proof -
  define v0 where "v0 = (case map_find m k of None \<Rightarrow> Json_Null | Some v \<Rightarrow> v)"
  have "insert_null k (Json_Object m) = Json_Object (map_assign m k v0)"
    using map_assign_same [OF assms(2), of k] by (simp add: insert_null_def v0_def split: option.splits)
  then have "dom_key k d = d\<lparr>dom_root := R (Json_Object (map_assign m k v0)), dom_element := Some (p @ [Key k])\<rparr>"
    using assms(1) by (simp add: dom_key_def inside_def place_def)
  then show ?thesis
    using assms place_Key [of p R k m]
    by (auto simp: slot_def inside_def handle_value_def place_def)
qed

lemma inside_start:
  assumes "slot d p R"
  shows "inside (dom_start_object d) p R (Json_Object []) (dom_refs d)"
    "inside (dom_start_array d) p R (Json_Array []) (dom_refs d)"
  using assms by (simp_all add: slot_def inside_def dom_start_object_def dom_start_array_def)

lemma dom_key_refs [simp]: "dom_refs (dom_key k d) = dom_refs d"
  by (simp add: dom_key_def split: list.splits)

text \<open>The value at a slot is complete.\<close>

definition filled :: "dom \<Rightarrow> (json \<Rightarrow> json) \<Rightarrow> json \<Rightarrow> path list \<Rightarrow> bool" where
  "filled d R v refs \<longleftrightarrow> dom_root d = R v \<and> dom_refs d = refs"

lemma filled_value: "slot d p R \<Longrightarrow> filled (dom_value v d) R v (dom_refs d)"
  by (simp add: slot_def filled_def dom_value_def)

lemma filled_end: "inside d p R v refs \<Longrightarrow> filled (dom_end d) R v refs"
  by (simp add: inside_def filled_def dom_end_def)

section \<open>Values\<close>

text \<open>What can follow a value.\<close>

definition follows :: "string \<Rightarrow> bool" where
  "follows s \<longleftrightarrow> number_ends s"

text \<open>The parser is between two tokens, or right before one, and reads numbers with the decimal
  point \<open>point\<close>. Reading the value \<open>v\<close> from the text \<open>t\<close> takes the loop from the first token of the
  value to the evaluation of the state after it.\<close>

definition lex_point :: "char \<Rightarrow> parser \<Rightarrow> string \<Rightarrow> bool" where
  "lex_point point p s \<longleftrightarrow> lex_at (ps_lexer p) s \<and> lx_decimal_point (ps_lexer p) = point"

definition starts_point :: "char \<Rightarrow> parser \<Rightarrow> string \<Rightarrow> bool" where
  "starts_point point p s \<longleftrightarrow> starts_text (ps_lexer p) s \<and> lx_decimal_point (ps_lexer p) = point"

definition parses :: "char \<Rightarrow> json \<Rightarrow> string \<Rightarrow> bool" where
  "parses point v t \<longleftrightarrow>
     (\<forall>(p :: parser) s d q R states. starts_point point p (t @ s) \<and> follows s \<and> slot d q R \<longrightarrow>
        (\<exists>p' d'. sax_parse_internal False states (get_token p) d = sax_parse_internal True states p' d' \<and>
           lex_point point p' s \<and> filled d' R v (dom_refs d) \<and>
           ps_last_token (get_token p) \<noteq> Tok_end_array))"

lemma sax_value:
  assumes "parse_value states p d = Inr (p', d')"
  shows "sax_parse_internal False states p d = sax_parse_internal True states p' d'"
  using assms by (simp add: sax_parse_internal.simps [of False states p d]
      sax_parse_internal.simps [of True states p' d'] parse_turn_def)

lemma lexes_get_token:
  "lexes (ps_lexer p) t Q s \<Longrightarrow> \<exists>l1. get_token p = \<lparr>ps_last_token = t, ps_lexer = l1\<rparr> \<and> Q l1 \<and> lex_at l1 s"
  by (auto simp: lexes_def get_token_def)

lemma lexes_get_token_point:
  assumes "lexes (ps_lexer p) t Q s" and "lx_decimal_point (ps_lexer p) = point"
  shows "\<exists>l1. get_token p = \<lparr>ps_last_token = t, ps_lexer = l1\<rparr> \<and> Q l1 \<and> lex_point point (get_token p) s"
proof -
  obtain l1 where "get_token p = \<lparr>ps_last_token = t, ps_lexer = l1\<rparr>" "Q l1" "lex_at l1 s"
    using lexes_get_token [OF assms(1)] by blast
  then show ?thesis using get_token_point [of p] assms(2) by (simp add: lex_point_def)
qed

lemma parsesI:
  assumes "\<And>(p :: parser) s. starts_point point p (t @ s) \<Longrightarrow> follows s \<Longrightarrow>
    \<exists>tok Q. lexes (ps_lexer p) tok Q s \<and> tok \<noteq> Tok_end_array \<and>
      (\<forall>l1 states d. Q l1 \<longrightarrow> parse_value states \<lparr>ps_last_token = tok, ps_lexer = l1\<rparr> d =
         Inr (\<lparr>ps_last_token = tok, ps_lexer = l1\<rparr>, dom_value v d))"
  shows "parses point v t"
  unfolding parses_def
proof (intro allI impI, elim conjE)
  fix p :: parser and s d q R states
  assume a: "starts_point point p (t @ s)" "follows s" "slot d q R"
  obtain tok Q where tq: "lexes (ps_lexer p) tok Q s" "tok \<noteq> Tok_end_array"
      "\<forall>l1 states d. Q l1 \<longrightarrow> parse_value states \<lparr>ps_last_token = tok, ps_lexer = l1\<rparr> d =
         Inr (\<lparr>ps_last_token = tok, ps_lexer = l1\<rparr>, dom_value v d)"
    using assms [OF a(1,2)] by blast
  then show "\<exists>p' d'. sax_parse_internal False states (get_token p) d = sax_parse_internal True states p' d' \<and>
           lex_point point p' s \<and> filled d' R v (dom_refs d) \<and> ps_last_token (get_token p) \<noteq> Tok_end_array"
    using lexes_get_token_point [OF tq(1), of point] a(1) sax_value filled_value [OF a(3)]
    unfolding starts_point_def by fastforce
qed

lemma sax_continue:
  "parse_turn skip states p d = Continue skip' states' p' d' \<Longrightarrow>
   sax_parse_internal skip states p d = sax_parse_internal skip' states' p' d'"
  by (simp add: sax_parse_internal.simps [of skip states p d])

lemma starts_text_at:
  assumes "lex_at l (w @ t @ s)" "list_all white w" "nonblank t"
  shows "starts_text l (t @ s)"
proof (cases t)
  case (Cons c r)
  then show ?thesis
    using starts_at [of l w c "r @ s"] assms by (simp add: starts_text_def nonblank_def)
qed (use assms(3) in \<open>simp add: nonblank_def\<close>)

lemma starts_point_at: "lex_point point p (w @ t @ s) \<Longrightarrow> list_all white w \<Longrightarrow> nonblank t \<Longrightarrow> starts_point point p (t @ s)"
  using starts_text_at [of "ps_lexer p" w t s] by (simp add: lex_point_def starts_point_def)

lemma follows_white:
  "list_all white w \<Longrightarrow> follows (c # s) \<Longrightarrow> follows (w @ c # s)"
  by (cases w) (auto simp: follows_def number_ends_def white_def is_digit_char_def)

lemma follows_marks [simp]:
  "follows (CHR '','' # s)" "follows (CHR '']'' # s)" "follows (CHR ''}'' # s)" "follows []"
  by (simp_all add: follows_def number_ends_def is_digit_char_def)

text \<open>Reading one of the structural characters.\<close>

lemma get_token_mark:
  assumes "lex_point point p (w @ c # s)" and "list_all white w"
    and "(c, t) \<in> {(CHR ''['', Tok_begin_array), (CHR '']'', Tok_end_array), (CHR ''{'', Tok_begin_object),
      (CHR ''}'', Tok_end_object), (CHR '':'', Tok_name_separator), (CHR '','', Tok_value_separator)}"
  shows "\<exists>l1. get_token p = \<lparr>ps_last_token = t, ps_lexer = l1\<rparr> \<and> lex_point point (get_token p) s"
proof -
  have "\<not> white c" using assms(3) by (auto simp: white_def)
  then have "starts (ps_lexer p) c s" using starts_at [of "ps_lexer p" w c s] assms(1,2) by (simp add: lex_point_def)
  then have "lexes (ps_lexer p) t (\<lambda>_. True) s"
    using assms(3) lexes_structural by blast
  then show ?thesis using lexes_get_token_point [of p t "\<lambda>_. True" s point] assms(1) by (simp add: lex_point_def)
qed

lemma follows_marks' [simp]: "follows (CHR '':'' # s)"
  by (simp add: follows_def number_ends_def is_digit_char_def)

lemma get_token_string_at:
  assumes "starts_point point p ((dq @ kt @ dq) @ s)" and "string_text k kt"
  shows "\<exists>l1. get_token p = \<lparr>ps_last_token = Tok_value_string, ps_lexer = l1\<rparr> \<and> lx_token_buffer l1 = k \<and>
    lex_point point (get_token p) s"
  using lexes_get_token_point [OF lexes_string [OF _ assms(2)]] assms(1) unfolding starts_point_def by blast

lemma parses_scalar:
  "parses point Json_Null ''null''" "parses point (Json_Boolean True) ''true''" "parses point (Json_Boolean False) ''false''"
  by (rule parsesI, rule exI [of _ Tok_literal_null], rule exI [of _ "\<lambda>_. True"],
      auto simp: starts_point_def starts_text_def parse_value_def intro!: lexes_literal)
    (rule parsesI, rule exI [of _ Tok_literal_true], rule exI [of _ "\<lambda>_. True"],
      auto simp: starts_point_def starts_text_def parse_value_def intro!: lexes_literal,
     rule parsesI, rule exI [of _ Tok_literal_false], rule exI [of _ "\<lambda>_. True"],
      auto simp: starts_point_def starts_text_def parse_value_def intro!: lexes_literal)

lemma parses_string: "string_text str t \<Longrightarrow> parses point (Json_String str) (dq @ t @ dq)"
  by (rule parsesI, rule exI [of _ Tok_value_string], rule exI [of _ "\<lambda>l1. lx_token_buffer l1 = str"])
    (auto simp: starts_point_def parse_value_def intro!: lexes_string)

lemma parses_number:
  assumes "number_parts w f x" and "v = parts_value point neg w f x" and "finite_number v"
  shows "parses point v (parts_text (CHR ''.'') neg w f x)"
proof (rule parsesI)
  fix p :: parser and s
  assume a: "starts_point point p (parts_text (CHR ''.'') neg w f x @ s)" "follows s"
  obtain t where t: "t \<in> {Tok_value_unsigned, Tok_value_integer, Tok_value_float}"
      "lexes (ps_lexer p) t (\<lambda>l1. token_value (t, l1) = v) s"
    using lexes_number [OF _ assms(1)] a assms(2) unfolding starts_point_def follows_def by metis
  have "parse_value states \<lparr>ps_last_token = t, ps_lexer = l1\<rparr> d = Inr (\<lparr>ps_last_token = t, ps_lexer = l1\<rparr>, dom_value v d)"
    if "token_value (t, l1) = v" for l1 states d
    using t(1) that assms(3) by (auto simp: parse_value_def)
  then show "\<exists>tok Q. lexes (ps_lexer p) tok Q s \<and> tok \<noteq> Tok_end_array \<and>
      (\<forall>l1 states d. Q l1 \<longrightarrow> parse_value states \<lparr>ps_last_token = tok, ps_lexer = l1\<rparr> d =
         Inr (\<lparr>ps_last_token = tok, ps_lexer = l1\<rparr>, dom_value v d))"
    using t by blast
qed

section \<open>Arrays and objects\<close>

text \<open>An empty array or object.\<close>

lemma parses_empty:
  assumes "list_all white ws"
  shows "parses point (Json_Array []) (CHR ''['' # ws @ '']'')" "parses point (Json_Object []) (CHR ''{'' # ws @ ''}'')"
proof -
  have step: "\<exists>p' d'. sax_parse_internal False states (get_token p) d = sax_parse_internal True states p' d' \<and>
      lex_point point p' s \<and> filled d' R v (dom_refs d) \<and> ps_last_token (get_token p) \<noteq> Tok_end_array"
    if h: "starts_point point p (c # ws @ e # s)" "slot d q R"
      "(c, e, v) = (CHR ''['', CHR '']'', Json_Array []) \<or> (c, e, v) = (CHR ''{'', CHR ''}'', Json_Object [])"
    for p :: parser and s d q R states c e v
  proof -
    define t t2 where "t = (if c = CHR ''['' then Tok_begin_array else Tok_begin_object)"
      and "t2 = (if c = CHR ''['' then Tok_end_array else Tok_end_object)"
    have "starts (ps_lexer p) c (ws @ e # s)" using h(1) by (simp add: starts_point_def starts_text_def)
    then have "lexes (ps_lexer p) t (\<lambda>_. True) (ws @ e # s)"
      using h(3) lexes_structural unfolding t_def by auto
    then obtain l1 where l1: "get_token p = \<lparr>ps_last_token = t, ps_lexer = l1\<rparr>" "lex_point point (get_token p) (ws @ e # s)"
      using lexes_get_token_point h(1) unfolding starts_point_def by blast
    then obtain l2 where l2: "get_token (get_token p) = \<lparr>ps_last_token = t2, ps_lexer = l2\<rparr>" "lex_point point (get_token (get_token p)) s"
      using get_token_mark [of point "get_token p" ws e s t2] h(3) assms unfolding t2_def by auto
    define d' where "d' = dom_end (if c = CHR ''['' then dom_start_array d else dom_start_object d)"
    have "parse_value states (get_token p) d = Inr (get_token (get_token p), d')"
      using l1(1) l2(1) h(3) unfolding t_def t2_def d'_def
      by (auto simp: parse_value_def parse_array_start_def parse_object_start_def Let_def)
    moreover have "filled d' R v (dom_refs d)"
      using filled_end [OF inside_start(1) [OF h(2)]] filled_end [OF inside_start(2) [OF h(2)]] h(3)
      unfolding d'_def by auto
    moreover have "t \<noteq> Tok_end_array" by (simp add: t_def)
    ultimately show ?thesis using sax_value l1(1) l2 by fastforce
  qed
  show "parses point (Json_Array []) (CHR ''['' # ws @ '']'')" unfolding parses_def using step by auto
  show "parses point (Json_Object []) (CHR ''{'' # ws @ ''}'')" unfolding parses_def using step by auto
qed

text \<open>The elements of an array up to its bracket, from before the first token of the next one;
  \<open>xs\<close> are those read before.\<close>

definition parses_elements :: "char \<Rightarrow> json list \<Rightarrow> string \<Rightarrow> bool" where
  "parses_elements point vs t \<longleftrightarrow>
     (\<forall>(p :: parser) s d q R xs refs states.
        lex_point point p (t @ CHR '']'' # s) \<and> inside d q R (Json_Array xs) refs \<longrightarrow>
        (\<exists>p' d'. sax_parse_internal False (True # states) (get_token p) d = sax_parse_internal True states p' d' \<and>
           lex_point point p' s \<and> filled d' R (Json_Array (xs @ vs)) refs \<and>
           ps_last_token (get_token p) \<noteq> Tok_end_array))"

lemma parses_element:
  assumes "parses point v t" and "nonblank t" and "list_all white ws" and "lex_point point p (ws @ t @ s)" and "follows s"
    and "inside d q R (Json_Array xs) refs"
  obtains p' d' where "sax_parse_internal False (True # states) (get_token p) d = sax_parse_internal True (True # states) p' d'"
    "lex_point point p' s" "inside d' q R (Json_Array (xs @ [v])) refs" "ps_last_token (get_token p) \<noteq> Tok_end_array"
proof -
  have "starts_point point p (t @ s)" by (rule starts_point_at [OF assms(4,3,2)])
  then obtain p' d' where r: "sax_parse_internal False (True # states) (get_token p) d = sax_parse_internal True (True # states) p' d'"
      "lex_point point p' s" "filled d' (\<lambda>v. R (Json_Array (xs @ [v]))) v (dom_refs d)" "ps_last_token (get_token p) \<noteq> Tok_end_array"
    using assms(1,5) slot_array [OF assms(6)] unfolding parses_def by blast
  have "inside d' q R (Json_Array (xs @ [v])) refs" using assms(6) r(3) by (simp add: inside_def filled_def)
  then show ?thesis using that r by blast
qed

lemma elements_last:
  assumes "parses point v t" and "nonblank t" and "list_all white ws" and "list_all white ws'"
  shows "parses_elements point [v] (ws @ t @ ws')"
  unfolding parses_elements_def
proof (intro allI impI, elim conjE)
  fix p :: parser and s d q R xs refs states
  assume a: "lex_point point p ((ws @ t @ ws') @ CHR '']'' # s)" "inside d q R (Json_Array xs) refs"
  then have l: "lex_point point p (ws @ t @ ws' @ CHR '']'' # s)" by simp
  obtain p' d' where r: "sax_parse_internal False (True # states) (get_token p) d = sax_parse_internal True (True # states) p' d'"
      "lex_point point p' (ws' @ CHR '']'' # s)" "inside d' q R (Json_Array (xs @ [v])) refs" "ps_last_token (get_token p) \<noteq> Tok_end_array"
    using parses_element [OF assms(1-3) l follows_white [OF assms(4) follows_marks(2)] a(2), of states] .
  obtain l1 where l1: "get_token p' = \<lparr>ps_last_token = Tok_end_array, ps_lexer = l1\<rparr>" "lex_point point (get_token p') s"
    using get_token_mark [OF r(2) assms(4), of Tok_end_array] by auto
  have "parse_turn True (True # states) p' d' = Continue True states (get_token p') (dom_end d')"
    using l1(1) by (simp add: parse_turn_def parse_state_def)
  then show "\<exists>p' d'. sax_parse_internal False (True # states) (get_token p) d = sax_parse_internal True states p' d' \<and>
           lex_point point p' s \<and> filled d' R (Json_Array (xs @ [v])) refs \<and> ps_last_token (get_token p) \<noteq> Tok_end_array"
    using sax_continue l1(2) filled_end [OF r(3)] r(1,4) by fastforce
qed

lemma elements_more:
  assumes "parses point v t" and "nonblank t" and "list_all white ws" and "list_all white ws'" and "parses_elements point vs u"
  shows "parses_elements point (v # vs) (ws @ t @ ws' @ CHR '','' # u)"
  unfolding parses_elements_def
proof (intro allI impI, elim conjE)
  fix p :: parser and s d q R xs refs states
  assume a: "lex_point point p ((ws @ t @ ws' @ CHR '','' # u) @ CHR '']'' # s)" "inside d q R (Json_Array xs) refs"
  then have l: "lex_point point p (ws @ t @ ws' @ CHR '','' # u @ CHR '']'' # s)" by simp
  obtain p' d' where r: "sax_parse_internal False (True # states) (get_token p) d = sax_parse_internal True (True # states) p' d'"
      "lex_point point p' (ws' @ CHR '','' # u @ CHR '']'' # s)" "inside d' q R (Json_Array (xs @ [v])) refs"
      "ps_last_token (get_token p) \<noteq> Tok_end_array"
    using parses_element [OF assms(1-3) l follows_white [OF assms(4) follows_marks(1)] a(2), of states] .
  obtain l1 where l1: "get_token p' = \<lparr>ps_last_token = Tok_value_separator, ps_lexer = l1\<rparr>"
      "lex_point point (get_token p') (u @ CHR '']'' # s)"
    using get_token_mark [OF r(2) assms(4), of Tok_value_separator] by auto
  obtain p2 d2 where r2: "sax_parse_internal False (True # states) (get_token (get_token p')) d' = sax_parse_internal True states p2 d2"
      "lex_point point p2 s" "filled d2 R (Json_Array ((xs @ [v]) @ vs)) refs"
    using assms(5) [unfolded parses_elements_def, rule_format, of "get_token p'" s d' q R "xs @ [v]" refs states] l1(2) r(3) by blast
  have "parse_turn True (True # states) p' d' = Continue False (True # states) (get_token (get_token p')) d'"
    using l1(1) by (simp add: parse_turn_def parse_state_def)
  note turn = sax_continue [OF this]
  have "sax_parse_internal False (True # states) (get_token p) d = sax_parse_internal True states p2 d2"
    unfolding r(1) turn r2(1) by (rule refl)
  then show "\<exists>p' d'. sax_parse_internal False (True # states) (get_token p) d = sax_parse_internal True states p' d' \<and>
           lex_point point p' s \<and> filled d' R (Json_Array (xs @ v # vs)) refs \<and> ps_last_token (get_token p) \<noteq> Tok_end_array"
    using r2(2,3) r(4) by auto
qed

lemma parses_array:
  assumes "parses_elements point vs t"
  shows "parses point (Json_Array vs) (CHR ''['' # t @ '']'')"
  unfolding parses_def
proof (intro allI impI, elim conjE)
  fix p :: parser and s d q R states
  assume a: "starts_point point p ((CHR ''['' # t @ '']'') @ s)" "follows s" "slot d q R"
  then have "starts (ps_lexer p) (CHR ''['') (t @ CHR '']'' # s)" by (simp add: starts_point_def starts_text_def)
  then obtain l1 where l1: "get_token p = \<lparr>ps_last_token = Tok_begin_array, ps_lexer = l1\<rparr>"
      "lex_point point (get_token p) (t @ CHR '']'' # s)"
    using lexes_get_token_point [OF lexes_structural(1)] a(1) unfolding starts_point_def by blast
  obtain p' d' where r: "sax_parse_internal False (True # states) (get_token (get_token p)) (dom_start_array d) = sax_parse_internal True states p' d'"
      "lex_point point p' s" "filled d' R (Json_Array ([] @ vs)) (dom_refs d)" "ps_last_token (get_token (get_token p)) \<noteq> Tok_end_array"
    using assms l1(2) inside_start(2) [OF a(3)] unfolding parses_elements_def by blast
  have "parse_turn False states (get_token p) d = Continue False (True # states) (get_token (get_token p)) (dom_start_array d)"
    using l1(1) r(4) by (simp add: parse_turn_def parse_value_def parse_array_start_def Let_def)
  note turn = sax_continue [OF this]
  show "\<exists>p' d'. sax_parse_internal False states (get_token p) d = sax_parse_internal True states p' d' \<and>
           lex_point point p' s \<and> filled d' R (Json_Array vs) (dom_refs d) \<and> ps_last_token (get_token p) \<noteq> Tok_end_array"
    unfolding turn r(1) using r(2,3) l1(1) by auto
qed

text \<open>The members of an object up to its brace, from before the key of the next one;
  \<open>m\<close> holds those read before.\<close>

abbreviation assign_members :: "(string, json) std_map \<Rightarrow> (string \<times> json) list \<Rightarrow> (string, json) std_map" where
  "assign_members m kvs \<equiv> foldl (\<lambda>m kv. map_assign m (fst kv) (snd kv)) m kvs"

definition parses_members :: "char \<Rightarrow> (string \<times> json) list \<Rightarrow> string \<Rightarrow> bool" where
  "parses_members point kvs t \<longleftrightarrow>
     (\<forall>(p :: parser) s d q R m refs states.
        lex_point point p (t @ CHR ''}'' # s) \<and> inside d q R (Json_Object m) refs \<and> map_ok m \<longrightarrow>
        (\<exists>p' d' k. ps_last_token (get_token p) = Tok_value_string \<and> lx_token_buffer (ps_lexer (get_token p)) = k \<and>
           ps_last_token (get_token (get_token p)) = Tok_name_separator \<and>
           sax_parse_internal False (False # states) (get_token (get_token (get_token p))) (dom_key k d) =
             sax_parse_internal True states p' d' \<and>
           lex_point point p' s \<and> filled d' R (Json_Object (assign_members m kvs)) refs))"

lemma parses_member:
  assumes "string_text k kt" and "parses point v t" and "nonblank t"
    and "list_all white ws" and "list_all white ws1" and "list_all white ws2"
    and "lex_point point p (ws @ dq @ kt @ dq @ ws1 @ CHR '':'' # ws2 @ t @ s)" and "follows s"
    and "inside d q R (Json_Object m) refs" and "map_ok m"
  obtains p' d' where "ps_last_token (get_token p) = Tok_value_string" "lx_token_buffer (ps_lexer (get_token p)) = k"
    "ps_last_token (get_token (get_token p)) = Tok_name_separator"
    "sax_parse_internal False (False # states) (get_token (get_token (get_token p))) (dom_key k d) =
       sax_parse_internal True (False # states) p' d'"
    "lex_point point p' s" "inside d' q R (Json_Object (map_assign m k v)) refs"
proof -
  have nb: "nonblank (dq @ kt @ dq)" by (simp add: nonblank_def white_def)
  have "starts_point point p ((dq @ kt @ dq) @ ws1 @ CHR '':'' # ws2 @ t @ s)"
    using starts_point_at [OF _ assms(4) nb, of point p "ws1 @ CHR '':'' # ws2 @ t @ s"] assms(7) by simp
  then obtain l1 where l1: "get_token p = \<lparr>ps_last_token = Tok_value_string, ps_lexer = l1\<rparr>" "lx_token_buffer l1 = k"
      "lex_point point (get_token p) (ws1 @ CHR '':'' # ws2 @ t @ s)"
    using get_token_string_at [OF _ assms(1)] by blast
  obtain l2 where l2: "get_token (get_token p) = \<lparr>ps_last_token = Tok_name_separator, ps_lexer = l2\<rparr>"
      "lex_point point (get_token (get_token p)) (ws2 @ t @ s)"
    using get_token_mark [OF l1(3) assms(5), of Tok_name_separator] by auto
  have "starts_point point (get_token (get_token p)) (t @ s)" by (rule starts_point_at [OF l2(2) assms(6,3)])
  then obtain p' d' where r: "sax_parse_internal False (False # states) (get_token (get_token (get_token p))) (dom_key k d) =
       sax_parse_internal True (False # states) p' d'" "lex_point point p' s"
      "filled d' (\<lambda>v. R (Json_Object (map_assign m k v))) v (dom_refs (dom_key k d))"
    using assms(2,8) slot_object [OF assms(9,10)] unfolding parses_def by blast
  have "inside d' q R (Json_Object (map_assign m k v)) refs" using assms(9) r(3) by (simp add: inside_def filled_def)
  then show ?thesis using that l1 l2 r by simp
qed

lemma members_last:
  assumes "string_text k kt" and "parses point v t" and "nonblank t"
    and "list_all white ws" and "list_all white ws1" and "list_all white ws2" and "list_all white ws'"
  shows "parses_members point [(k, v)] (ws @ dq @ kt @ dq @ ws1 @ CHR '':'' # ws2 @ t @ ws')"
  unfolding parses_members_def
proof (intro allI impI, elim conjE)
  fix p :: parser and s d q R m refs states
  assume a: "lex_point point p ((ws @ dq @ kt @ dq @ ws1 @ CHR '':'' # ws2 @ t @ ws') @ CHR ''}'' # s)"
    "inside d q R (Json_Object m) refs" "map_ok m"
  then have l: "lex_point point p (ws @ dq @ kt @ dq @ ws1 @ CHR '':'' # ws2 @ t @ ws' @ CHR ''}'' # s)" by simp
  obtain p' d' where r: "ps_last_token (get_token p) = Tok_value_string" "lx_token_buffer (ps_lexer (get_token p)) = k"
    "ps_last_token (get_token (get_token p)) = Tok_name_separator"
    "sax_parse_internal False (False # states) (get_token (get_token (get_token p))) (dom_key k d) =
       sax_parse_internal True (False # states) p' d'"
    "lex_point point p' (ws' @ CHR ''}'' # s)" "inside d' q R (Json_Object (map_assign m k v)) refs"
    using parses_member [OF assms(1-6) l follows_white [OF assms(7) follows_marks(3)] a(2,3), of states] .
  obtain l1 where l1: "get_token p' = \<lparr>ps_last_token = Tok_end_object, ps_lexer = l1\<rparr>" "lex_point point (get_token p') s"
    using get_token_mark [OF r(5) assms(7), of Tok_end_object] by auto
  have "parse_turn True (False # states) p' d' = Continue True states (get_token p') (dom_end d')"
    using l1(1) by (simp add: parse_turn_def parse_state_def)
  then show "\<exists>p' d' ka. ps_last_token (get_token p) = Tok_value_string \<and> lx_token_buffer (ps_lexer (get_token p)) = ka \<and>
           ps_last_token (get_token (get_token p)) = Tok_name_separator \<and>
           sax_parse_internal False (False # states) (get_token (get_token (get_token p))) (dom_key ka d) =
             sax_parse_internal True states p' d' \<and>
           lex_point point p' s \<and> filled d' R (Json_Object (assign_members m [(k, v)])) refs"
    using sax_continue l1(2) filled_end [OF r(6)] r(1-4) by fastforce
qed

lemma members_more:
  assumes "string_text k kt" and "parses point v t" and "nonblank t"
    and "list_all white ws" and "list_all white ws1" and "list_all white ws2" and "list_all white ws'"
    and "parses_members point kvs u"
  shows "parses_members point ((k, v) # kvs) (ws @ dq @ kt @ dq @ ws1 @ CHR '':'' # ws2 @ t @ ws' @ CHR '','' # u)"
  unfolding parses_members_def
proof (intro allI impI, elim conjE)
  fix p :: parser and s d q R m refs states
  assume a: "lex_point point p ((ws @ dq @ kt @ dq @ ws1 @ CHR '':'' # ws2 @ t @ ws' @ CHR '','' # u) @ CHR ''}'' # s)"
    "inside d q R (Json_Object m) refs" "map_ok m"
  then have l: "lex_point point p (ws @ dq @ kt @ dq @ ws1 @ CHR '':'' # ws2 @ t @ ws' @ CHR '','' # u @ CHR ''}'' # s)" by simp
  obtain p' d' where r: "ps_last_token (get_token p) = Tok_value_string" "lx_token_buffer (ps_lexer (get_token p)) = k"
    "ps_last_token (get_token (get_token p)) = Tok_name_separator"
    "sax_parse_internal False (False # states) (get_token (get_token (get_token p))) (dom_key k d) =
       sax_parse_internal True (False # states) p' d'"
    "lex_point point p' (ws' @ CHR '','' # u @ CHR ''}'' # s)" "inside d' q R (Json_Object (map_assign m k v)) refs"
    using parses_member [OF assms(1-6) l follows_white [OF assms(7) follows_marks(1)] a(2,3), of states] .
  obtain l1 where l1: "get_token p' = \<lparr>ps_last_token = Tok_value_separator, ps_lexer = l1\<rparr>"
      "lex_point point (get_token p') (u @ CHR ''}'' # s)"
    using get_token_mark [OF r(5) assms(7), of Tok_value_separator] by auto
  obtain p2 d2 k2 where r2: "ps_last_token (get_token (get_token p')) = Tok_value_string"
      "lx_token_buffer (ps_lexer (get_token (get_token p'))) = k2"
      "ps_last_token (get_token (get_token (get_token p'))) = Tok_name_separator"
      "sax_parse_internal False (False # states) (get_token (get_token (get_token (get_token p')))) (dom_key k2 d') =
        sax_parse_internal True states p2 d2"
      "lex_point point p2 s" "filled d2 R (Json_Object (assign_members (map_assign m k v) kvs)) refs"
    using assms(8) [unfolded parses_members_def, rule_format, of "get_token p'" s d' q R "map_assign m k v" refs states]
      l1(2) r(6) map_ok_assign [OF a(3), of k v] by auto
  have "parse_turn True (False # states) p' d' =
      Continue False (False # states) (get_token (get_token (get_token (get_token p')))) (dom_key k2 d')"
    using l1(1) r2(1-3) by (simp add: parse_turn_def parse_state_def)
  note turn = sax_continue [OF this]
  have "sax_parse_internal False (False # states) (get_token (get_token (get_token p))) (dom_key k d) = sax_parse_internal True states p2 d2"
    unfolding r(4) turn r2(4) by (rule refl)
  then show "\<exists>p' d' ka. ps_last_token (get_token p) = Tok_value_string \<and> lx_token_buffer (ps_lexer (get_token p)) = ka \<and>
           ps_last_token (get_token (get_token p)) = Tok_name_separator \<and>
           sax_parse_internal False (False # states) (get_token (get_token (get_token p))) (dom_key ka d) =
             sax_parse_internal True states p' d' \<and>
           lex_point point p' s \<and> filled d' R (Json_Object (assign_members m ((k, v) # kvs))) refs"
    using r2(5,6) r(1-3) by auto
qed

lemma parses_object:
  assumes "parses_members point kvs t"
  shows "parses point (Json_Object (assign_members [] kvs)) (CHR ''{'' # t @ ''}'')"
  unfolding parses_def
proof (intro allI impI, elim conjE)
  fix p :: parser and s d q R states
  assume a: "starts_point point p ((CHR ''{'' # t @ ''}'') @ s)" "follows s" "slot d q R"
  then have "starts (ps_lexer p) (CHR ''{'') (t @ CHR ''}'' # s)" by (simp add: starts_point_def starts_text_def)
  then obtain l1 where l1: "get_token p = \<lparr>ps_last_token = Tok_begin_object, ps_lexer = l1\<rparr>"
      "lex_point point (get_token p) (t @ CHR ''}'' # s)"
    using lexes_get_token_point [OF lexes_structural(3)] a(1) unfolding starts_point_def by blast
  let ?p1 = "get_token p"
  obtain p' d' k where r: "ps_last_token (get_token ?p1) = Tok_value_string" "lx_token_buffer (ps_lexer (get_token ?p1)) = k"
      "ps_last_token (get_token (get_token ?p1)) = Tok_name_separator"
      "sax_parse_internal False (False # states) (get_token (get_token (get_token ?p1))) (dom_key k (dom_start_object d)) =
         sax_parse_internal True states p' d'"
      "lex_point point p' s" "filled d' R (Json_Object (assign_members [] kvs)) (dom_refs d)"
    using assms [unfolded parses_members_def, rule_format, of ?p1 s "dom_start_object d" q R "[]" "dom_refs d" states]
      l1(2) inside_start(1) [OF a(3)] by auto
  have "parse_turn False states ?p1 d =
      Continue False (False # states) (get_token (get_token (get_token ?p1))) (dom_key k (dom_start_object d))"
    using l1(1) r(1-3) by (simp add: parse_turn_def parse_value_def parse_object_start_def Let_def)
  note turn = sax_continue [OF this]
  show "\<exists>p' d'. sax_parse_internal False states (get_token p) d = sax_parse_internal True states p' d' \<and>
           lex_point point p' s \<and> filled d' R (Json_Object (assign_members [] kvs)) (dom_refs d) \<and>
           ps_last_token (get_token p) \<noteq> Tok_end_array"
    unfolding turn r(4) using r(5,6) l1(1) by auto
qed

section \<open>Documents\<close>

lemma grammar_parses:
  "json_grammar point v t \<Longrightarrow> parses point v t"
  "elements_grammar point vs t \<Longrightarrow> parses_elements point vs t"
  "members_grammar point kvs t \<Longrightarrow> parses_members point kvs t"
proof (induction rule: json_grammar_elements_grammar_members_grammar.inducts)
  case (jg_number w f x v neg)
  then show ?case by (simp only: parses_number)
qed (assumption | rule parses_scalar parses_string parses_empty parses_array parses_object elements_last elements_more
    members_last members_more | erule json_grammar_nonblank)+

text \<open>The lexer at the beginning of its input: a byte order mark is skipped.\<close>

lemma starts_document:
  assumes "bom = [] \<or> bom = byte_order_mark" and "list_all white ws" and "nonblank (c # s)"
  shows "starts (lexer_new point (bom @ ws @ c # s)) c s"
proof -
  let ?l = "lexer_new point (bom @ ws @ c # s)"
  have r: "reads ?l (bom @ ws @ c # s)" by (simp add: reads_def lx_remaining_def lexer_new_def)
  obtain l1 where l1: "skip_bom ?l = (True, l1)" "reads l1 (ws @ c # s)"
  proof (cases "bom = []")
    case True
    obtain b u where u: "ws @ c # s = b # u" "(of_char b :: nat) \<noteq> 0xEF"
      using assms(2,3) by (cases ws) (auto simp: white_def nonblank_def)
    have g: "lx_current (lx_get ?l) = of_char b" "reads (lx_get ?l) u"
      using lx_get_Cons [of ?l b u] r True u(1) by simp_all
    then have "skip_bom ?l = (True, lx_unget (lx_get ?l))" using u(2) by (simp add: skip_bom_def Let_def)
    moreover have "reads (lx_unget (lx_get ?l)) (b # u)" using g by (intro reads_unget) auto
    ultimately show ?thesis using that u(1) by simp
  next
    case False
    then have b: "bom = [CHR 0xEF, CHR 0xBB, CHR 0xBF]" using assms(1) by (simp add: byte_order_mark_def)
    have g1: "lx_current (lx_get ?l) = 0xEF" "reads (lx_get ?l) ([CHR 0xBB, CHR 0xBF] @ ws @ c # s)"
      using lx_get_Cons [of ?l "CHR 0xEF"] r b by simp_all
    have g2: "lx_current (lx_get (lx_get ?l)) = 0xBB" "reads (lx_get (lx_get ?l)) ([CHR 0xBF] @ ws @ c # s)"
      using lx_get_Cons [of "lx_get ?l" "CHR 0xBB"] g1(2) by simp_all
    have g3: "lx_current (lx_get (lx_get (lx_get ?l))) = 0xBF" "reads (lx_get (lx_get (lx_get ?l))) (ws @ c # s)"
      using lx_get_Cons [of "lx_get (lx_get ?l)" "CHR 0xBF"] g2(2) by simp_all
    show ?thesis using that [of "lx_get (lx_get (lx_get ?l))"] g1(1) g2(1) g3 by (simp add: skip_bom_def Let_def)
  qed
  have "begun (skip_whitespace l1) c s"
    using skip_whitespace_reads [OF assms(2) _ l1(2)] assms(3) by (simp add: nonblank_def)
  moreover have "lx_decimal_point l1 = lx_decimal_point ?l"
  proof -
    have "lx_decimal_point (snd (skip_bom ?l)) = lx_decimal_point ?l" by (simp add: skip_bom_def Let_def)
    then show ?thesis by (simp add: l1(1))
  qed
  ultimately show ?thesis
    using l1(1) by (auto simp: starts_def scan_def lexer_new_def)
qed

text \<open>After the value: white space up to the end of the input, or up to a NUL, which the lexer
  takes for the end whatever follows it.\<close>

definition input_ends :: "string \<Rightarrow> bool" where
  "input_ends s \<longleftrightarrow> s = [] \<or> hd s = CHR 0x00"

lemma skip_whitespace_end:
  assumes "list_all white ws" and "reads l (ws @ s)" and "input_ends s"
  shows "lx_current (skip_whitespace l) = 0 \<or> lx_current (skip_whitespace l) = eof"
  using assms
proof (induction ws arbitrary: l)
  case Nil
  then show ?case
    using lx_get_Nil [of l] lx_get_Cons [of l "CHR 0x00" "tl s"]
    by (cases s) (auto simp: skip_whitespace.simps [of l] Let_def input_ends_def eof_def)
next
  case (Cons b ws)
  then have "reads (lx_get l) (ws @ s)" "lx_current (lx_get l) = of_char b"
    using lx_get_Cons [of l b "ws @ s"] by auto
  then show ?case using Cons by (auto simp: skip_whitespace.simps [of l] Let_def white_def)
qed

lemma get_token_end:
  assumes "lex_at (ps_lexer p) (ws @ s)" and "list_all white ws" and "input_ends s"
  shows "ps_last_token (get_token p) = Tok_end_of_input"
  using skip_whitespace_end [OF assms(2) _ assms(3), of "ps_lexer p"] assms(1)
  by (auto simp: get_token_def scan_def lex_at_def scan_token_def Let_def is_digit_def eof_def)

lemma follows_end: "list_all white ws \<Longrightarrow> input_ends s \<Longrightarrow> follows (ws @ s)"
  by (cases ws; cases s) (auto simp: follows_def number_ends_def white_def is_digit_char_def input_ends_def)

lemma document_accepted:
  assumes "json_document point v doc" and "input_ends rest"
  shows "json_parse point (doc @ rest) = Inr v"
proof -
  obtain bom ws t ws' where doc: "doc = bom @ ws @ t @ ws'" "bom = [] \<or> bom = byte_order_mark" "list_all white ws"
      "list_all white ws'" "json_grammar point v t"
    using assms(1) unfolding json_document_def by blast
  let ?p = "\<lparr>ps_last_token = Tok_uninitialized, ps_lexer = lexer_new point (doc @ rest)\<rparr>"
  obtain c u where t: "t = c # u" "nonblank t" using json_grammar_nonblank [OF doc(5)] by (cases t) (auto simp: nonblank_def)
  have "starts (lexer_new point (doc @ rest)) c (u @ ws' @ rest)"
    using starts_document [OF doc(2,3), of c "u @ ws' @ rest"] t doc(1) by (auto simp: nonblank_def)
  then have "starts_point point ?p (t @ ws' @ rest)"
    by (simp add: t(1) starts_point_def starts_text_def lexer_new_def)
  then obtain p' d' where r: "sax_parse_internal False [] (get_token ?p) (dom_new Json_Null) = sax_parse_internal True [] p' d'"
     "lex_point point p' (ws' @ rest)" "filled d' (\<lambda>v. v) v (dom_refs (dom_new Json_Null))"
    using grammar_parses(1) [OF doc(5)] slot_root follows_end [OF doc(4) assms(2)] unfolding parses_def by blast
  have "sax_parse_internal True [] p' d' = Inr (p', d')"
    by (simp add: sax_parse_internal.simps [of True "[]" p' d'] parse_turn_def parse_state_def)
  moreover have "ps_last_token (get_token p') = Tok_end_of_input"
    using r(2) get_token_end [OF _ doc(4) assms(2)] unfolding lex_point_def by blast
  ultimately show ?thesis
    using r(1,3) by (simp add: json_parse_def parser_new_def filled_def Let_def)
qed

end
