(* ===== verification/Json_Roundtrip.thy ===== *)
theory Json_Roundtrip
  imports Json_Accepting
begin

unbundle bit_operations_syntax

text \<open>
  The round trip of values: what the serializer prints for a value, compact or indented, is a
  text of the grammar that denotes the value, so that the parser reads it back.
\<close>

section \<open>Values\<close>

text \<open>The values that can be printed and read back, with \<open>point\<close> as the decimal point of the
  reader.\<close>

fun rt_ok :: "char \<Rightarrow> json \<Rightarrow> bool" where
  "rt_ok point (Json_Object m) \<longleftrightarrow> map_ok m \<and> list_all (\<lambda>kv. utf8_valid (fst kv) \<and> rt_ok point (snd kv)) m"
| "rt_ok point (Json_Array xs) \<longleftrightarrow> list_all (rt_ok point) xs"
| "rt_ok point (Json_String s) \<longleftrightarrow> utf8_valid s"
| "rt_ok point (Json_Float x) \<longleftrightarrow> double_ok x \<and> isfinite x \<and> point_ok point"
| "rt_ok point Json_Discarded \<longleftrightarrow> False"
| "rt_ok point _ \<longleftrightarrow> True"

text \<open>What is read back: a signed integer that is not negative becomes an unsigned one.\<close>

fun reread :: "json \<Rightarrow> json" where
  "reread (Json_Object m) = Json_Object (map (\<lambda>kv. (fst kv, reread (snd kv))) m)"
| "reread (Json_Array xs) = Json_Array (map reread xs)"
| "reread (Json_Integer w) = (if sint w < 0 then Json_Integer w else Json_Unsigned w)"
| "reread v = v"

section \<open>Printed strings and numbers\<close>

lemma utf8_run_split:
  "utf8_run rs s \<Longrightarrow> \<exists>bs t. s = bs @ t \<and> utf8_run [] t \<and> list_all2 in_range rs bs"
proof (induction rs arbitrary: s)
  case (Cons r rs)
  then obtain b s' where s: "s = b # s'" by (cases s) auto
  then obtain bs t where "s' = bs @ t" "utf8_run [] t" "list_all2 in_range rs bs"
    using Cons.IH [of s'] Cons.prems by auto
  then have "s = (b # bs) @ t \<and> utf8_run [] t \<and> list_all2 in_range (r # rs) (b # bs)"
    using s Cons.prems by (simp add: in_range_def [of r])
  then show ?case by blast
qed auto

lemma hex_val_digit: "d < 16 \<Longrightarrow> hex_val (hex_digit 0x61 d) = Some (int d)"
  by (auto simp: hex_val_def hex_digit_def)

lemma hex_quad_hex4:
  assumes "n < 0x10000"
  shows "hex_quad (hex4 n) (int n)"
proof -
  define a3 a2 a1 a0 where a: "a3 = n div 4096 mod 16" "a2 = n div 256 mod 16" "a1 = n div 16 mod 16" "a0 = n mod 16"
  have lt: "a3 < 16" "a2 < 16" "a1 < 16" "a0 < 16" by (simp_all add: a)
  have "n div 4096 mod 16 = n div 4096" using assms by simp
  moreover have "n div 16 div 16 = n div 256" "n div 256 div 16 = n div 4096"
    by (simp_all add: div_mult2_eq [symmetric])
  ultimately have "n = a3 * 4096 + a2 * 256 + a1 * 16 + a0"
    using div_mult_mod_eq [of n 16] div_mult_mod_eq [of "n div 16" 16] div_mult_mod_eq [of "n div 256" 16]
    unfolding a by linarith
  moreover have "hex4 n = [hex_digit 0x61 a3, hex_digit 0x61 a2, hex_digit 0x61 a1, hex_digit 0x61 a0]"
    by (simp add: hex4_def a)
  ultimately show ?thesis
    unfolding hex_quad_def using hex_val_digit [OF lt(1)] hex_val_digit [OF lt(2)] hex_val_digit [OF lt(3)] hex_val_digit [OF lt(4)]
    by (intro exI conjI) (assumption | simp)+
qed

lemma char_codes:
  "(of_char c :: nat) = 0x08 \<longleftrightarrow> c = CHR 0x08"
  "(of_char c :: nat) = 0x09 \<longleftrightarrow> c = CHR 0x09"
  "(of_char c :: nat) = 0x0A \<longleftrightarrow> c = CHR 0x0A"
  "(of_char c :: nat) = 0x0C \<longleftrightarrow> c = CHR 0x0C"
  "(of_char c :: nat) = 0x0D \<longleftrightarrow> c = CHR 0x0D"
  "(of_char c :: nat) = 0x22 \<longleftrightarrow> c = CHR 0x22"
  "(of_char c :: nat) = 0x5C \<longleftrightarrow> c = CHR 0x5C"
  using of_char_eq_iff [of c "CHR 0x08", where 'a = nat]
    of_char_eq_iff [of c "CHR 0x09", where 'a = nat]
    of_char_eq_iff [of c "CHR 0x0A", where 'a = nat]
    of_char_eq_iff [of c "CHR 0x0C", where 'a = nat]
    of_char_eq_iff [of c "CHR 0x0D", where 'a = nat]
    of_char_eq_iff [of c "CHR 0x22", where 'a = nat]
    of_char_eq_iff [of c "CHR 0x5C", where 'a = nat]
  by simp_all

lemma esc_byte_cases:
  assumes "(of_char c :: nat) < 0x80"
  obtains (short) e where "esc_byte c = [CHR 0x5C, e]" "escaped e = Some c"
    | (long) "esc_byte c = [CHR 0x5C, CHR ''u''] @ hex4 (of_char c)" "(of_char c :: nat) \<le> 0x1F"
    | (plain) "esc_byte c = [c]" "0x20 \<le> (of_char c :: nat)" "c \<noteq> CHR 0x22" "c \<noteq> CHR 0x5C"
proof -
  let ?n = "of_char c :: nat"
  consider "?n \<in> {0x08, 0x09, 0x0A, 0x0C, 0x0D, 0x22, 0x5C}"
    | "?n \<le> 0x1F" "?n \<notin> {0x08, 0x09, 0x0A, 0x0C, 0x0D, 0x22, 0x5C}"
    | "0x1F < ?n" "?n \<notin> {0x08, 0x09, 0x0A, 0x0C, 0x0D, 0x22, 0x5C}" by force
  then show thesis
  proof cases
    case 1
    then have "c \<in> {CHR 0x08, CHR 0x09, CHR 0x0A, CHR 0x0C, CHR 0x0D, CHR 0x22, CHR 0x5C}"
      by (simp add: char_codes)
    then have "\<exists>e. esc_byte c = [CHR 0x5C, e] \<and> escaped e = Some c"
      by (auto simp: esc_byte_def escape_codepoint_def escaped_def)
    then show thesis using short by blast
  next
    case 2
    then show thesis using long by (simp add: esc_byte_def escape_codepoint_def)
  next
    case 3
    then have "c \<noteq> CHR 0x22" "c \<noteq> CHR 0x5C" by auto
    then show thesis using plain 3 by (simp add: esc_byte_def escape_codepoint_def)
  qed
qed

lemma cont_bytes_plain:
  assumes "list_all2 in_range rs bs" and "list_all (\<lambda>r. 0x80 \<le> fst r) rs"
  shows "concat (map esc_byte bs) = bs"
  using assms by (induction rule: list_all2_induct) (auto simp: esc_byte_big in_range_def)

lemma utf8_ranges_low: "utf8_ranges c = Some rs \<Longrightarrow> list_all (\<lambda>r. 0x80 \<le> fst r) rs"
  by (auto simp: utf8_ranges_def split: if_splits)

lemma esc_byte_text:
  assumes "(of_char c :: nat) < 0x80" and "string_text str t"
  shows "string_text (c # str) (esc_byte c @ t)"
  using assms(1)
proof (cases rule: esc_byte_cases)
  case (short e)
  then show ?thesis using st_escape assms(2) by simp
next
  case long
  have "hex_quad (hex4 (of_char c)) (int (of_char c))" using hex_quad_hex4 [of "of_char c"] long(2) by simp
  moreover have "codepoint_ok (int (of_char c))" "map char_of (utf8_encode (int (of_char c))) = [c]"
    using long(2) by (simp_all add: codepoint_ok_def utf8_encode_def)
  ultimately show ?thesis using st_unicode [of "hex4 (of_char c)" "int (of_char c)" str t] assms(2) long(1) by simp
next
  case plain
  then show ?thesis using st_plain [OF _ assms(1) _ _ assms(2)] by simp
qed

lemma escaped_text: "utf8_valid str \<Longrightarrow> string_text str (concat (map esc_byte str))"
proof (induction str rule: length_induct)
  case (1 str)
  show ?case
  proof (cases str)
    case Nil
    then show ?thesis by (simp add: st_end)
  next
    case (Cons c cs)
    show ?thesis
    proof (cases "(of_char c :: nat) < 0x80")
      case True
      then have "utf8_valid cs" using "1.prems" Cons by (simp add: utf8_valid_def)
      then show ?thesis using "1.IH" esc_byte_text [OF True] Cons by simp
    next
      case False
      obtain rs where rs: "utf8_ranges (of_char c) = Some rs" "utf8_run rs cs"
        using "1.prems" Cons False by (auto simp: utf8_valid_def split: option.splits)
      obtain bs t where bs: "cs = bs @ t" "utf8_valid t" "list_all2 in_range rs bs"
        using utf8_run_split [OF rs(2)] by (auto simp: utf8_valid_def)
      have "string_text t (concat (map esc_byte t))" using "1.IH" bs(1,2) Cons by simp
      then have "string_text (c # bs @ t) (c # bs @ concat (map esc_byte t))" by (rule st_utf8 [OF rs(1) bs(3)])
      then show ?thesis
        using Cons False bs(1) cont_bytes_plain [OF bs(3) utf8_ranges_low [OF rs(1)]] by (simp add: esc_byte_big)
    qed
  qed
qed

lemma to_string_nat_Cons:
  assumes "0 < n"
  obtains d ds where "to_string_nat n = d # ds" "0x31 \<le> (of_char d :: nat)" "of_char d \<le> (0x39 :: nat)"
    "list_all is_digit_char ds"
proof -
  have "\<exists>d ds. to_string_nat n = d # ds \<and> 0x31 \<le> (of_char d :: nat) \<and> of_char d \<le> (0x39 :: nat)"
    using assms
  proof (induction n rule: to_string_nat.induct)
    case (1 n)
    show ?case
    proof (cases "n < 10")
      case True
      with "1.prems" show ?thesis
        by (simp add: to_string_nat.simps [of n] of_char_digit_char)
    next
      case False
      with "1.IH" have "\<exists>d ds. to_string_nat (n div 10) = d # ds \<and> 0x31 \<le> (of_char d :: nat) \<and> of_char d \<le> (0x39 :: nat)"
        by simp
      with False show ?thesis by (auto simp: to_string_nat.simps [of n])
    qed
  qed
  then show ?thesis using that to_string_nat_is_digit [of n] by force
qed

lemma to_string_parts: "number_parts (to_string_nat n) None []"
proof (cases "n = 0")
  case True
  then show ?thesis by (simp add: number_parts_def to_string_nat.simps [of 0] digit_char_0 digit_text_def is_digit_char_def exponent_part_def)
next
  case False
  then obtain d ds where "to_string_nat n = d # ds" "0x31 \<le> (of_char d :: nat)" "of_char d \<le> (0x39 :: nat)" "list_all is_digit_char ds"
    using to_string_nat_Cons [of n] by blast
  then show ?thesis by (auto simp: number_parts_def digit_text_def is_digit_char_def exponent_part_def)
qed

lemma grammar_unsigned: "json_grammar point (Json_Unsigned w) (to_string_int (uint w))"
proof -
  have t: "to_string_int (uint w) = parts_text (CHR ''.'') False (to_string_nat (unat w)) None []"
    by (simp add: to_string_int_def nat_uint_eq parts_text_def sign_text_def tail_part_def)
  have "unat w < 2 ^ 64" by (rule order_less_le_trans [OF unsigned_less]) simp
  then have v: "Json_Unsigned w = parts_value point False (to_string_nat (unat w)) None []"
    by (simp add: parts_value_def digits_value_to_string)
  show ?thesis unfolding t by (rule jg_number [OF to_string_parts v]) simp
qed

lemma grammar_negative:
  assumes "sint w < 0"
  shows "json_grammar point (Json_Integer w) (to_string_int (sint w))"
proof -
  let ?n = "nat (- sint w)"
  have t: "to_string_int (sint w) = parts_text (CHR ''.'') True (to_string_nat ?n) None []"
    using assms by (simp add: to_string_int_def parts_text_def sign_text_def tail_part_def)
  have "?n \<le> 2 ^ 63" using sint_range_size [of w] by (auto simp: word_size)
  moreover have "- int ?n = sint w" using assms by simp
  ultimately have v: "Json_Integer w = parts_value point True (to_string_nat ?n) None []"
    by (simp add: parts_value_def digits_value_to_string)
  show ?thesis unfolding t by (rule jg_number [OF to_string_parts v]) simp
qed

lemma grammar_signed: "json_grammar point (reread (Json_Integer w)) (to_string_int (sint w))"
proof (cases "sint w < 0")
  case False
  then have "0 \<le> sint w" "sint w < 2 ^ 64" using sint_range_size [of w] by (simp_all add: word_size)
  then have "sint w = uint w" by (simp add: uint_sint take_bit_int_eq_self)
  then show ?thesis using False grammar_unsigned [of point w] by simp
qed (simp add: grammar_negative)

lemma dump_float_number:
  assumes "double_ok x" and "isfinite x"
  obtains neg w f y where "dump_float x = (if neg then ''-'' else []) @ number_text (CHR ''.'') w f y" "number_ok w f y"
    "point_ok point \<Longrightarrow> strtod point ((if neg then ''-'' else []) @ number_text point w f y) = x"
proof (cases x)
  case (Dbl neg m e)
  obtain w f y where t: "to_chars neg m e = (if neg then ''-'' else []) @ number_text (CHR ''.'') w f y" "number_ok w f y"
      "\<forall>p q. 0 < q \<and> real p / real q = number_value w f y \<longrightarrow> nearest_double neg p q = Dbl neg m e"
    using to_chars_nearest [of neg m e] assms(1) Dbl by auto
  have "strtod point ((if neg then ''-'' else []) @ number_text point w f y) = x" if "point_ok point"
    using strtod_number [OF t(2) that, of neg] t(3) Dbl by metis
  then show ?thesis using that t(1,2) Dbl by (simp add: dump_float_def)
qed (use assms(2) in simp)

text \<open>The exponent that the serializer prints is one of the grammar.\<close>

abbreviation exponent_text :: "(bool \<times> string) option \<Rightarrow> string" where
  "exponent_text y \<equiv> (case y of None \<Rightarrow> [] | Some (neg, ds) \<Rightarrow> CHR ''e'' # (if neg then CHR ''-'' else CHR ''+'') # ds)"

lemma number_text_parts:
  assumes "number_ok w f y"
  shows "number_parts w f (exponent_text y)" "f \<noteq> None \<or> exponent_text y \<noteq> []"
    "(if neg then ''-'' else []) @ number_text point w f y = parts_text point neg w f (exponent_text y)"
proof -
  have "exponent_part (exponent_text y)"
  proof (cases y)
    case (Some ne)
    obtain n es where ne: "ne = (n, es)" by (cases ne)
    then have "digit_text es" using assms Some by (simp add: number_ok_def)
    then show ?thesis unfolding exponent_part_def Some ne
      by (intro disjI2 exI [of _ "CHR ''e''"] exI [of _ "if n then ''-'' else ''+''"] exI [of _ es]) auto
  qed (simp add: exponent_part_def)
  then show "number_parts w f (exponent_text y)" using assms by (simp add: number_parts_def number_ok_def)
  show "f \<noteq> None \<or> exponent_text y \<noteq> []" using assms by (auto simp: number_ok_def split: option.splits)
  show "(if neg then ''-'' else []) @ number_text point w f y = parts_text point neg w f (exponent_text y)"
    by (simp add: number_text_def parts_text_def sign_text_def tail_part_def)
qed

lemma grammar_float:
  assumes "double_ok x" and "isfinite x" and "point_ok point"
  shows "json_grammar point (Json_Float x) (dump_float x)"
proof -
  obtain neg w f y where t: "dump_float x = (if neg then ''-'' else []) @ number_text (CHR ''.'') w f y" "number_ok w f y"
    "strtod point ((if neg then ''-'' else []) @ number_text point w f y) = x"
    using dump_float_number [OF assms(1,2)] assms(3) by metis
  note n = number_text_parts [OF t(2)]
  have v: "Json_Float x = parts_value point neg w f (exponent_text y)"
    using n(2) t(3) n(3) [of neg point] by (auto simp: parts_value_def)
  show ?thesis unfolding t(1) n(3) by (rule jg_number [OF n(1) v]) (use assms(2) in simp)
qed

section \<open>Printed arrays and objects\<close>

definition tail_text :: "string \<Rightarrow> string list \<Rightarrow> string" where
  "tail_text w ts = concat (map (\<lambda>t. CHR '','' # w @ t) ts)"

lemma tail_text_simps [simp]:
  "tail_text w [] = []" "tail_text w (t # ts) = CHR '','' # w @ t @ tail_text w ts"
  by (simp_all add: tail_text_def)

lemma join_tail: "join z (map f (x # xs)) = f x @ concat (map (\<lambda>y. z @ f y) xs)"
  by (induction xs arbitrary: x) auto

lemma white_blanks: "list_all white (blanks n)"
  by (simp add: blanks_def white_def list_all_iff)

lemma white_nl: "list_all white nl"
  by (simp add: nl_def white_def)

lemma bracketed_form:
  obtains w w2 where "list_all white w" "list_all white w2"
    "bracketed step i l r (x # xs) = l # w @ x @ tail_text w xs @ w2 @ [r]"
proof (cases step)
  case None
  then show thesis
    using that [of "[]" "[]"] join_tail [of "'',''" "\<lambda>x. x" x xs] by (simp add: bracketed_def tail_text_def)
next
  case (Some k)
  then show thesis
    using that [of "nl @ blanks (i + k)" "nl @ blanks i"] white_blanks white_nl
      join_tail [of "'','' @ nl" "\<lambda>x. blanks (i + k) @ x" x xs]
    by (simp add: bracketed_def tail_text_def)
qed

lemma colon_form: obtains wc where "list_all white wc" "colon step = CHR '':'' # wc"
  using that [of "[]"] that [of "'' ''"] by (cases step) (auto simp: colon_def white_def)

lemma elements_tail:
  assumes "list_all2 (json_grammar point) (v # vs) (t # ts)" and "list_all white w" and "list_all white w2"
  shows "elements_grammar point (v # vs) (w @ t @ tail_text w ts @ w2)"
  using assms(1)
proof (induction vs arbitrary: v t ts)
  case Nil
  then show ?case using eg_last [of point v t w w2] assms(2,3) by simp
next
  case (Cons v' vs)
  then obtain t' ts' where ts: "ts = t' # ts'" "json_grammar point v t" "list_all2 (json_grammar point) (v' # vs) (t' # ts')"
    by (cases ts) auto
  then show ?case
    using eg_more [OF ts(2) assms(2), of "[]" "v' # vs" "w @ t' @ tail_text w ts' @ w2"] Cons.IH by simp
qed

text \<open>A member of an object: its key, the colon, its value.\<close>

definition member_text :: "string \<Rightarrow> string \<Rightarrow> string \<Rightarrow> string" where
  "member_text wc k t = quoted k @ CHR '':'' # wc @ t"

lemma members_tail:
  assumes "list_all2 (\<lambda>kv t. utf8_valid (fst kv) \<and> json_grammar point (snd kv) t) (kv # kvs) (t # ts)"
    and "list_all white w" and "list_all white w2" and "list_all white wc"
  shows "members_grammar point (kv # kvs)
    (w @ member_text wc (fst kv) t @ tail_text w (map2 (\<lambda>kv t. member_text wc (fst kv) t) kvs ts) @ w2)"
  using assms(1)
proof (induction kvs arbitrary: kv t ts)
  case Nil
  then show ?case
    using mg_last [OF escaped_text, of "fst kv" point "snd kv" t w "[]" wc w2] assms(2-4) by (simp add: member_text_def quoted_def)
next
  case (Cons kv' kvs)
  then obtain t' ts' where ts: "ts = t' # ts'" "utf8_valid (fst kv)" "json_grammar point (snd kv) t"
      "list_all2 (\<lambda>kv t. utf8_valid (fst kv) \<and> json_grammar point (snd kv) t) (kv' # kvs) (t' # ts')"
    by (cases ts) auto
  then show ?case
    using mg_more [OF escaped_text [OF ts(2)] ts(3) assms(2) _ assms(4), of "[]" "[]" "kv' # kvs"] Cons.IH [OF ts(4)]
    by (simp add: member_text_def quoted_def)
qed

lemma map_assign_last:
  "(\<And>k'. k' \<in> fst ` set m \<Longrightarrow> k' < k) \<Longrightarrow> map_assign m k v = m @ [(k, v)]"
  by (induction m) auto

lemma assign_sorted: "map_ok (m @ kvs) \<Longrightarrow> assign_members m kvs = m @ kvs"
proof (induction kvs arbitrary: m)
  case (Cons kv kvs)
  have "map_assign m (fst kv) (snd kv) = m @ [kv]"
    using Cons.prems map_assign_last [of m "fst kv" "snd kv"] by (auto simp: map_ok_def sorted_wrt_append)
  then show ?case using Cons by simp
qed simp

lemma map2_map_self: "map2 f (map g xs) (map h xs) = map (\<lambda>x. f (g x) (h x)) xs"
  by (induction xs) auto

section \<open>The round trip\<close>

lemma json_text_grammar: "rt_ok point v \<Longrightarrow> json_grammar point (reread v) (json_text step i v)"
proof (induction step i v rule: json_text.induct)
  case (1 step i m)
  show ?case
  proof (cases m)
    case Nil
    then show ?thesis using jg_no_members [of "[]"] by (simp add: bracketed_def)
  next
    case (Cons kv kvs)
    let ?t = "\<lambda>kv. json_text step (deeper step i) (snd kv)"
    let ?r = "\<lambda>kv. (fst kv, reread (snd kv))"
    obtain wc where wc: "list_all white wc" "colon step = CHR '':'' # wc" by (rule colon_form)
    have items: "map (\<lambda>kv. quoted (fst kv) @ colon step @ ?t kv) m =
        member_text wc (fst (?r kv)) (?t kv) # map2 (\<lambda>kv t. member_text wc (fst kv) t) (map ?r kvs) (map ?t kvs)"
      by (simp add: Cons member_text_def wc(2) map2_map_self)
    obtain w w2 where w: "list_all white w" "list_all white w2"
        "json_text step i (Json_Object m) = CHR ''{'' # w @ member_text wc (fst (?r kv)) (?t kv) @
           tail_text w (map2 (\<lambda>kv t. member_text wc (fst kv) t) (map ?r kvs) (map ?t kvs)) @ w2 @ [CHR ''}'']"
      unfolding json_text.simps items by (rule bracketed_form)
    have "list_all2 (\<lambda>kv t. utf8_valid (fst kv) \<and> json_grammar point (snd kv) t) (map ?r m) (map ?t m)"
      using "1.IH" "1.prems" by (auto simp: list_all2_map1 list_all2_map2 list_all_iff list.rel_refl_strong)
    then have "members_grammar point (map ?r m) (w @ member_text wc (fst (?r kv)) (?t kv) @
           tail_text w (map2 (\<lambda>kv t. member_text wc (fst kv) t) (map ?r kvs) (map ?t kvs)) @ w2)"
      using members_tail [of point "?r kv" "map ?r kvs" "?t kv" "map ?t kvs" w w2 wc] w wc by (simp add: Cons)
    note g = jg_object [OF this]
    have "map_ok ([] @ map ?r m)" using "1.prems" by (simp add: map_ok_def comp_def)
    from assign_sorted [OF this] show ?thesis using g w(3) by simp
  qed
next
  case (2 step i xs)
  show ?case
  proof (cases xs)
    case Nil
    then show ?thesis using jg_no_elements [of "[]"] by (simp add: bracketed_def)
  next
    case (Cons x ys)
    let ?t = "json_text step (deeper step i)"
    obtain w w2 where w: "list_all white w" "list_all white w2"
        "json_text step i (Json_Array xs) = CHR ''['' # w @ ?t x @ tail_text w (map ?t ys) @ w2 @ [CHR '']'']"
      unfolding json_text.simps Cons list.map by (rule bracketed_form)
    have "list_all2 (json_grammar point) (map reread xs) (map ?t xs)"
      using "2.IH" "2.prems" by (auto simp: list_all2_map1 list_all2_map2 list_all_iff list.rel_refl_strong)
    then have "elements_grammar point (map reread xs) (w @ ?t x @ tail_text w (map ?t ys) @ w2)"
      using elements_tail [of point "reread x" "map reread ys" "?t x" "map ?t ys" w w2] w by (simp add: Cons)
    from jg_array [OF this] show ?thesis using w(3) by simp
  qed
next
  case (3 step i s)
  then show ?case using jg_string [OF escaped_text, of s] by (simp add: quoted_def)
qed (simp_all add: jg_null jg_true jg_false grammar_unsigned grammar_signed [simplified] grammar_float)

lemma json_parse_text_reread:
  assumes "rt_ok point v"
  shows "json_parse point (json_text step i v) = Inr (reread v)"
proof -
  have "json_document point (reread v) (json_text step i v)"
    unfolding json_document_def
    by (intro exI [of _ "[]"] exI [of _ "json_text step i v"]) (simp add: json_text_grammar [OF assms])
  from document_accepted [OF this, of "[]"] show ?thesis by (simp add: input_ends_def)
qed

text \<open>Values without floating point numbers, whose signed integers are negative, are read back as
  they were under any decimal point.\<close>

fun rt_plain :: "json \<Rightarrow> bool" where
  "rt_plain (Json_Object m) \<longleftrightarrow> map_ok m \<and> list_all (\<lambda>kv. utf8_valid (fst kv) \<and> rt_plain (snd kv)) m"
| "rt_plain (Json_Array xs) \<longleftrightarrow> list_all rt_plain xs"
| "rt_plain (Json_String s) \<longleftrightarrow> utf8_valid s"
| "rt_plain (Json_Integer w) \<longleftrightarrow> sint w < 0"
| "rt_plain (Json_Float x) \<longleftrightarrow> False"
| "rt_plain Json_Discarded \<longleftrightarrow> False"
| "rt_plain _ \<longleftrightarrow> True"

lemma rt_plain_ok: "rt_plain v \<Longrightarrow> rt_ok point v \<and> reread v = v"
  by (induction v rule: rt_plain.induct) (auto simp: list_all_iff intro!: map_idI prod_eqI)

lemma json_parse_text: "rt_plain v \<Longrightarrow> json_parse point (json_text step i v) = Inr v"
  using json_parse_text_reread [of point v] rt_plain_ok by simp

lemma rt_ok_utf8: "rt_ok point v \<Longrightarrow> json_utf8 v"
  by (induction v rule: json_utf8.induct) (auto simp: list_all_iff)

lemma json_ok_rt: "json_ok v \<Longrightarrow> json_utf8 v \<Longrightarrow> point_ok point \<Longrightarrow> rt_ok point v"
  by (induction v rule: json_utf8.induct) (auto simp: list_all_iff)

lemma dump_reread:
  assumes "rt_ok point v" and "indent \<le> 512"
  shows "\<exists>out. json_dump indent v = Inr out \<and> json_parse point out = Inr (reread v)"
  using json_dump_text [OF assms(2) rt_ok_utf8 [OF assms(1)]] json_parse_text_reread [OF assms(1)] by blast

section \<open>Properties\<close>

text \<open>C17: every value that the parser returns is well formed: the members of its objects are
  in strictly ascending key order, without duplicates, all its strings and keys are valid
  UTF-8, and its numbers with a fraction or an exponent are finite doubles, whatever bytes it
  was given.\<close>

theorem parse_wellformed:
  assumes "json_parse point input = Inr j"
  shows "json_ok j \<and> json_utf8 j"
  using json_parse_good [OF assms] by blast

theorem parse_wellformed_witness:
  "json_parse (CHR ''.'') ''{}'' = Inr (Json_Object []) \<and> json_ok (Json_Object []) \<and> json_utf8 (Json_Object [])"
proof -
  have p: "json_parse (CHR ''.'') ''{}'' = Inr (Json_Object [])" by code_simp
  with parse_wellformed [OF p] show ?thesis by blast
qed

text \<open>C8: the round trip. What \<open>dump\<close> prints for a value, compact or indented by up to 512
  blanks, \<open>parse\<close> reads back as the same value, numbers with a fraction included to the last
  bit, except that a signed integer that is not negative comes back as an unsigned one; for
  every value whose strings are valid UTF-8 and whose objects are ordered, under every decimal
  point of the locale that is neither a digit nor the letter e.\<close>

theorem dump_parse_roundtrip:
  assumes "json_ok v" and "json_utf8 v" and "point_ok point" and "indent \<le> 512"
  shows "\<exists>out. json_dump indent v = Inr out \<and> json_parse point out = Inr (reread v)"
  by (rule dump_reread [OF json_ok_rt [OF assms(1-3)] assms(4)])

theorem dump_parse_roundtrip_witness:
  "\<exists>out. json_dump 4 (Json_Object [(''k'', Json_Array [Json_Integer (- 5), Json_Float (Dbl True 6755399441055744 (- 52))])]) = Inr out \<and>
     json_parse (CHR '','') out = Inr (Json_Object [(''k'', Json_Array [Json_Integer (- 5), Json_Float (Dbl True 6755399441055744 (- 52))])])"
proof -
  let ?v = "Json_Object [(''k'', Json_Array [Json_Integer (- 5), Json_Float (Dbl True 6755399441055744 (- 52))])]"
  have "reread ?v = ?v" by simp
  then show ?thesis
    using dump_parse_roundtrip [of ?v "CHR '',''" 4]
    by (simp add: map_ok_def utf8_valid_def canonical_def point_ok_def is_digit_char_def)
qed



text \<open>C31: the parser ends. Every turn of its loop that goes on strictly decreases the number
  of bytes left to read, counted twice, plus one while the last token is not a final one.\<close>

theorem parser_loop_decreases:
  assumes "parse_turn skip states p d = Continue skip' states' p' d'"
  shows "parse_measure p' < parse_measure p"
  using assms by (rule parse_turn_measure)

theorem parser_loop_decreases_witness:
  "\<exists>p' d'. parse_turn False [] (parser_new (CHR ''.'') ''[[]]'') (dom_new Json_Null) = Continue False [True] p' d' \<and>
     parse_measure p' < parse_measure (parser_new (CHR ''.'') ''[[]]'')"
proof -
  let ?p = "parser_new (CHR ''.'') ''[[]]''"
  have "ps_last_token ?p = Tok_begin_array" "ps_last_token (get_token ?p) = Tok_begin_array" by code_simp+
  then have "parse_turn False [] ?p (dom_new Json_Null) =
      Continue False [True] (get_token ?p) (dom_start_array (dom_new Json_Null))"
    by (simp add: parse_turn_def parse_value_def parse_array_start_def Let_def)
  then show ?thesis using parser_loop_decreases by blast
qed

end
