(* ===== verification/Json_Tokens.thy ===== *)
theory Json_Tokens
  imports Json_Roundtrip
begin

unbundle bit_operations_syntax

text \<open>
  The converse of \<open>Json_Reading\<close>: every token that the lexer returns was read from its text, with
  the value that the grammar gives to that text.
\<close>

section \<open>What the lexer has read\<close>

lemma lx_get_cases:
  assumes "reads l s"
  obtains (eof) "s = []" "lx_current (lx_get l) = eof" "reads (lx_get l) []"
    | (char) c s' where "s = c # s'" "lx_current (lx_get l) = int (of_char c)" "reads (lx_get l) s'"
  using lx_get_Nil [of l] lx_get_Cons [of l] assms by (cases s) auto

lemma collects_cases:
  assumes "collects l b s"
  obtains (eof) "lx_current (lx_get l) = eof"
    | (char) c s' where "s = c # s'" "lx_current (lx_get l) = int (of_char c)" "collects (lx_get l) b s'"
proof -
  have r: "reads l s" using assms by (simp add: collects_def)
  show thesis
  proof (cases rule: lx_get_cases [OF r])
    case 1
    then show ?thesis using that(1) by blast
  next
    case (2 c s')
    then show ?thesis using that(2) collects_get(1) [of l b c s'] assms by simp
  qed
qed

lemma in_number_cases:
  assumes "in_number l s"
  obtains (eof) "s = []" "lx_current (lx_get l) = eof" "lex_at (lx_unget (lx_get l)) s"
    | (char) c s' where "s = c # s'" "lx_current (lx_get l) = int (of_char c)" "lex_at (lx_unget (lx_get l)) s"
      "\<And>b. in_number (took b l) s'"
proof -
  have pos: "0 < lx_chars_read l" and r: "reads l s" using assms by (auto simp: in_number_def)
  show thesis
  proof (cases rule: lx_get_cases [OF r])
    case 1
    then show ?thesis using that(1) reads_unget_eof [of "lx_get l"] pos by (simp add: lex_at_def)
  next
    case (2 c s')
    then have "reads (lx_unget (lx_get l)) (c # s')" by (intro reads_unget) simp_all
    moreover have "in_number (took b l) s'" for b using took_in_number(2) [of l c s' b] assms 2(1) by simp
    ultimately show ?thesis using that(2) 2 pos by (simp add: lex_at_def)
  qed
qed

section \<open>Strings\<close>

text \<open>A piece of a string: \<open>t\<close> is the text of \<open>str\<close> in front of the text of any string.\<close>

definition string_piece :: "string \<Rightarrow> string \<Rightarrow> bool" where
  "string_piece str t \<longleftrightarrow> (\<forall>str' t'. string_text str' t' \<longrightarrow> string_text (str @ str') (t @ t'))"

lemma string_pieces:
  "0x20 \<le> (of_char c :: nat) \<Longrightarrow> of_char c < (0x80 :: nat) \<Longrightarrow> c \<noteq> CHR 0x22 \<Longrightarrow> c \<noteq> CHR 0x5C \<Longrightarrow> string_piece [c] [c]"
  "utf8_ranges (of_char c) = Some rs \<Longrightarrow> list_all2 in_range rs bs \<Longrightarrow> string_piece (c # bs) (c # bs)"
  "escaped e = Some c \<Longrightarrow> string_piece [c] [CHR 0x5C, e]"
  "hex_quad hs n \<Longrightarrow> codepoint_ok n \<Longrightarrow> string_piece (map char_of (utf8_encode n)) (CHR 0x5C # CHR ''u'' # hs)"
  using st_plain st_utf8 st_escape st_unicode by (auto simp: string_piece_def)

lemma string_piece_pair:
  assumes "hex_quad hs hi" "hex_quad gs lo" "0xD800 \<le> hi" "hi \<le> 0xDBFF" "0xDC00 \<le> lo" "lo \<le> 0xDFFF"
  shows "string_piece (map char_of (utf8_encode (0x10000 + 0x400 * (hi - 0xD800) + (lo - 0xDC00))))
    (CHR 0x5C # CHR ''u'' # hs @ CHR 0x5C # CHR ''u'' # gs)"
  unfolding string_piece_def using st_pair [OF assms] by simp

lemma next_bytes_loop_read:
  assumes "next_bytes_loop rs l = (True, l1)" and "collects l b s" and "list_all (\<lambda>r. 0x80 \<le> fst r) rs"
  shows "\<exists>bs s'. s = bs @ s' \<and> list_all2 in_range rs bs \<and> collects l1 (b @ bs) s'"
  using assms
proof (induction rs arbitrary: l b s)
  case (Cons r rs)
  have r: "fst r \<le> lx_current (lx_get l)" "lx_current (lx_get l) \<le> snd r"
      "next_bytes_loop rs (lx_add (lx_current (lx_get l)) (lx_get l)) = (True, l1)"
    using Cons.prems(1) by (auto simp: Let_def split: if_splits)
  show ?case
  proof (cases rule: collects_cases [OF Cons.prems(2)])
    case 1
    then show ?thesis using r(1) Cons.prems(3) by (simp add: eof_def)
  next
    case (2 c s')
    then obtain bs s2 where "s' = bs @ s2" "list_all2 in_range rs bs" "collects l1 ((b @ [c]) @ bs) s2"
      using Cons.IH [OF r(3), of "b @ [c]" s'] collects_add [OF 2(3), of "int (of_char c)"] Cons.prems(3) by auto
    then have "s = (c # bs) @ s2 \<and> list_all2 in_range (r # rs) (c # bs) \<and> collects l1 (b @ c # bs) s2"
      using 2(1,2) r(1,2) by (simp add: in_range_def [of r])
    then show ?thesis by blast
  qed
qed simp

lemma get_codepoint_loop_read:
  assumes "get_codepoint_loop fs cp l = (n, l1)" and "n \<noteq> - 1" and "collects l b s"
  shows "\<exists>hs xs s'. s = hs @ s' \<and> list_all2 (\<lambda>h x. hex_val h = Some x) hs xs \<and> length xs = length fs \<and>
    n = cp + sum_list (map2 push_bit fs xs) \<and> collects l1 b s'"
  using assms
proof (induction fs arbitrary: cp l s)
  case (Cons f fs)
  show ?case
  proof (cases rule: collects_cases [OF Cons.prems(3)])
    case 1
    then show ?thesis using Cons.prems(1,2) by (simp add: Let_def eof_def)
  next
    case (2 c s')
    obtain x where x: "hex_val c = Some x" "get_codepoint_loop fs (cp + push_bit f x) (lx_get l) = (n, l1)"
      using Cons.prems(1,2) 2(2) by (auto simp: hex_val_def Let_def split: if_splits)
    obtain hs xs s2 where "s' = hs @ s2" "list_all2 (\<lambda>h x. hex_val h = Some x) hs xs" "length xs = length fs"
        "n = cp + push_bit f x + sum_list (map2 push_bit fs xs)" "collects l1 b s2"
      using Cons.IH [OF x(2) Cons.prems(2) 2(3)] by blast
    then have "s = (c # hs) @ s2 \<and> list_all2 (\<lambda>h x. hex_val h = Some x) (c # hs) (x # xs) \<and> length (x # xs) = length (f # fs) \<and>
        n = cp + sum_list (map2 push_bit (f # fs) (x # xs)) \<and> collects l1 b s2"
      using 2(1) x(1) by simp
    then show ?thesis by blast
  qed
qed simp

lemma get_codepoint_read:
  assumes "get_codepoint l = (n, l1)" and "n \<noteq> - 1" and "collects l b s"
  obtains hs s' where "s = hs @ s'" "hex_quad hs n" "collects l1 b s'"
proof -
  obtain hs xs s' where r: "s = hs @ s'" "list_all2 (\<lambda>h x. hex_val h = Some x) hs xs" "length xs = 4"
      "n = 0 + sum_list (map2 push_bit [12, 8, 4, 0] xs)" "collects l1 b s'"
    using get_codepoint_loop_read [OF assms(1) [unfolded get_codepoint_def] assms(2,3)] by auto
  obtain x3 x2 x1 x0 where x: "xs = [x3, x2, x1, x0]" using r(3) by (auto simp: numeral_eq_Suc length_Suc_conv)
  have "hex_quad hs n" using r(2,4) unfolding x hex_quad_def by (auto simp: list_all2_Cons2 push_bit_eq_mult)
  then show thesis using that r(1,5) by blast
qed

lemma byte_codes:
  "(of_char c :: nat) = 0x22 \<longleftrightarrow> c = CHR 0x22"
  "(of_char c :: nat) = 0x5C \<longleftrightarrow> c = CHR 0x5C"
  "(of_char c :: nat) = 0x2F \<longleftrightarrow> c = CHR 0x2F"
  "(of_char c :: nat) = 0x62 \<longleftrightarrow> c = CHR 0x62"
  "(of_char c :: nat) = 0x66 \<longleftrightarrow> c = CHR 0x66"
  "(of_char c :: nat) = 0x6E \<longleftrightarrow> c = CHR 0x6E"
  "(of_char c :: nat) = 0x72 \<longleftrightarrow> c = CHR 0x72"
  "(of_char c :: nat) = 0x74 \<longleftrightarrow> c = CHR 0x74"
  "(of_char c :: nat) = 0x75 \<longleftrightarrow> c = CHR 0x75"
  using of_char_eq_iff [of c "CHR 0x22", where 'a = nat]
    of_char_eq_iff [of c "CHR 0x5C", where 'a = nat]
    of_char_eq_iff [of c "CHR 0x2F", where 'a = nat]
    of_char_eq_iff [of c "CHR 0x62", where 'a = nat]
    of_char_eq_iff [of c "CHR 0x66", where 'a = nat]
    of_char_eq_iff [of c "CHR 0x6E", where 'a = nat]
    of_char_eq_iff [of c "CHR 0x72", where 'a = nat]
    of_char_eq_iff [of c "CHR 0x74", where 'a = nat]
    of_char_eq_iff [of c "CHR 0x75", where 'a = nat]
  by (simp_all del: of_char_eq_iff)

lemma escape_read:
  assumes "scan_escape l = Inl l'" and "collects l b s" and "lx_current (lx_get l) \<noteq> 0x75"
  shows "\<exists>e c s'. s = e # s' \<and> escaped e = Some c \<and> collects l' (b @ [c]) s'"
proof (cases rule: collects_cases [OF assms(2)])
  case 1
  then show ?thesis using assms(1) by (simp add: scan_escape_def Let_def eof_def lx_fail_def)
next
  case (2 e s')
  have "e \<in> {CHR 0x22, CHR 0x5C, CHR 0x2F, CHR 0x62, CHR 0x66, CHR 0x6E, CHR 0x72, CHR 0x74}"
    using assms(1,3) 2(2) by (auto simp: scan_escape_def Let_def byte_codes split: if_splits)
  then have "\<exists>c. escaped e = Some c \<and> l' = lx_add (of_char c) (lx_get l)"
    using assms(1) 2(2) unfolding insert_iff empty_iff
    by (elim disjE) (simp_all add: scan_escape_def Let_def escaped_def)
  then obtain c where c: "escaped e = Some c" "l' = lx_add (of_char c) (lx_get l)" by blast
  have "collects l' (b @ [c]) s'" using collects_add [OF 2(3), of "of_char c"] c(2) by simp
  then show ?thesis using 2(1) c(1) by blast
qed

lemma unicode_read:
  assumes "scan_unicode_escape l = Inl l'" and "collects l b s"
  obtains str t s' where "s = t @ s'" "string_piece str (CHR 0x5C # CHR ''u'' # t)" "collects l' (b @ str) s'"
proof -
  obtain n l1 where g: "get_codepoint l = (n, l1)" by (cases "get_codepoint l")
  have n: "n \<noteq> - 1" using assms(1) g by (auto simp: scan_unicode_escape_def)
  obtain hs s1 where hs: "s = hs @ s1" "hex_quad hs n" "collects l1 b s1" using get_codepoint_read [OF g n assms(2)] .
  have range: "0 \<le> n" "n \<le> 0xFFFF" using hex_quad_range [OF hs(2)] by auto
  show thesis
  proof (cases "0xD800 \<le> n \<and> n \<le> 0xDBFF")
    case False
    then have l': "l' = add_codepoint n l1" "codepoint_ok n"
      using assms(1) g n range by (auto simp: scan_unicode_escape_def codepoint_ok_def split: if_splits)
    show thesis by (rule that [OF hs(1) string_pieces(4) [OF hs(2) l'(2)]])
        (use collects_codepoint [OF hs(3) l'(2)] l'(1) in simp)
  next
    case True
    obtain lo l4 where g4: "get_codepoint (lx_get (lx_get l1)) = (lo, l4)" by (cases "get_codepoint (lx_get (lx_get l1))")
    have c: "lx_current (lx_get l1) = 0x5C" "lx_current (lx_get (lx_get l1)) = 0x75" "0xDC00 \<le> lo" "lo \<le> 0xDFFF"
        "l' = add_codepoint (push_bit 10 n + lo - 0x35FDC00) l4"
      using assms(1) g g4 n True by (auto simp: scan_unicode_escape_def Let_def split: if_splits)
    obtain s2 where s2: "s1 = CHR 0x5C # s2" "collects (lx_get l1) b s2"
      using c(1) by (cases rule: collects_cases [OF hs(3)]) (auto simp: eof_def byte_codes)
    obtain s3 where s3: "s2 = CHR 0x75 # s3" "collects (lx_get (lx_get l1)) b s3"
      using c(2) by (cases rule: collects_cases [OF s2(2)]) (auto simp: eof_def byte_codes)
    have "lo \<noteq> - 1" using c(3) by simp
    then obtain gs s4 where gs: "s3 = gs @ s4" "hex_quad gs lo" "collects l4 b s4" using get_codepoint_read [OF g4 _ s3(2)] by blast
    let ?n = "0x10000 + 0x400 * (n - 0xD800) + (lo - 0xDC00)"
    have k: "push_bit 10 n + lo - 0x35FDC00 = ?n" "codepoint_ok ?n"
      using True c(3,4) by (simp_all add: push_bit_eq_mult codepoint_ok_def)
    show thesis
    proof (rule that [OF _ string_piece_pair [OF hs(2) gs(2)]])
      show "s = (hs @ CHR 0x5C # CHR ''u'' # gs) @ s4" using hs(1) s2(1) s3(1) gs(1) by simp
      show "collects l' (b @ map char_of (utf8_encode ?n)) s4" unfolding c(5) k(1) by (rule collects_codepoint [OF gs(3) k(2)])
    qed (use True c(3,4) in auto)
  qed
qed

lemma scan_string_step_read:
  assumes "scan_string_step l = Inl l'" and "collects l b s"
  obtains str t s' where "s = t @ s'" "string_piece str t" "collects l' (b @ str) s'"
proof (cases rule: collects_cases [OF assms(2)])
  case 1
  then show ?thesis using assms(1) by (simp add: scan_string_step_def Let_def)
next
  case (2 c s1)
  consider "c = CHR 0x5C" "scan_escape (lx_get l) = Inl l'"
    | "0x20 \<le> (of_char c :: nat)" "of_char c < (0x80 :: nat)" "c \<noteq> CHR 0x22" "c \<noteq> CHR 0x5C" "l' = lx_add (of_char c) (lx_get l)"
    | "scan_utf8 (lx_get l) = Inl l'"
    using assms(1) 2(2) by (auto simp: scan_string_step_def Let_def byte_codes split: if_splits)
  then show ?thesis
  proof cases
    case e: 1
    show ?thesis
    proof (cases "lx_current (lx_get (lx_get l)) = 0x75")
      case True
      then obtain s2 where s2: "s1 = CHR 0x75 # s2" "collects (lx_get (lx_get l)) b s2"
        by (cases rule: collects_cases [OF 2(3)]) (auto simp: eof_def byte_codes)
      have "scan_unicode_escape (lx_get (lx_get l)) = Inl l'" using e(2) True by (simp add: scan_escape_def Let_def)
      then obtain str t s' where "s2 = t @ s'" "string_piece str (CHR 0x5C # CHR ''u'' # t)" "collects l' (b @ str) s'"
        using unicode_read [OF _ s2(2)] by blast
      then show ?thesis using that [of "CHR 0x5C # CHR ''u'' # t" s' str] 2(1) e(1) s2(1) by simp
    next
      case False
      then obtain x c' s' where "s1 = x # s'" "escaped x = Some c'" "collects l' (b @ [c']) s'"
        using escape_read [OF e(2) 2(3)] by blast
      then show ?thesis using that [of "[CHR 0x5C, x]" s' "[c']"] string_pieces(3) 2(1) e(1) by simp
    qed
  next
    case p: 2
    then show ?thesis using that [of "[c]" s1 "[c]"] string_pieces(1) [OF p(1-4)] 2(1) collects_add [OF 2(3), of "of_char c"] by simp
  next
    case u: 3
    then obtain rs where rs: "utf8_ranges (of_char c) = Some rs" "next_bytes_loop rs (lx_add (of_char c) (lx_get l)) = (True, l')"
      using 2(2) by (auto simp: scan_utf8_def next_byte_in_range_def split: option.splits prod.splits if_splits)
    have "collects (lx_add (of_char c) (lx_get l)) (b @ [c]) s1" using collects_add [OF 2(3), of "of_char c"] by simp
    then obtain bs s' where "s1 = bs @ s'" "list_all2 in_range rs bs" "collects l' ((b @ [c]) @ bs) s'"
      using next_bytes_loop_read [OF rs(2) _ utf8_ranges_low [OF rs(1)]] by blast
    then show ?thesis using that [of "c # bs" s' "c # bs"] string_pieces(2) [OF rs(1)] 2(1) by simp
  qed
qed

lemma scan_string_step_done:
  assumes "scan_string_step l = Inr (Tok_value_string, l1)"
  shows "lx_current (lx_get l) = 0x22 \<and> l1 = lx_get l"
proof -
  have u: "scan_unicode_escape k \<noteq> Inr (Tok_value_string, l1)" for k
    by (auto simp: scan_unicode_escape_def Let_def lx_fail_def split: prod.splits if_splits)
  then have "scan_escape k \<noteq> Inr (Tok_value_string, l1)" for k
    by (auto simp: scan_escape_def Let_def lx_fail_def split: if_splits)
  moreover have "scan_utf8 k \<noteq> Inr (Tok_value_string, l1)" for k
    by (auto simp: scan_utf8_def lx_fail_def split: prod.splits option.splits if_splits)
  ultimately show ?thesis using assms by (auto simp: scan_string_step_def Let_def lx_fail_def split: if_splits)
qed

lemma scan_string_loop_read:
  assumes "scan_string_loop l = (Tok_value_string, l1)" and "collects l b s"
  shows "\<exists>str t s'. s = t @ dq @ s' \<and> string_text str t \<and> collects l1 (b @ str) s'"
  using assms
proof (induction l arbitrary: b s rule: scan_string_loop.induct)
  case (1 l)
  show ?case
  proof (cases "scan_string_step l")
    case (Inl l')
    obtain str t s' where p: "s = t @ s'" "string_piece str t" "collects l' (b @ str) s'"
      using scan_string_step_read [OF Inl "1.prems"(2)] .
    have "scan_string_loop l' = (Tok_value_string, l1)" using "1.prems"(1) scan_string_loop_Inl [OF Inl] by simp
    then obtain str2 t2 s2 where q: "s' = t2 @ dq @ s2" "string_text str2 t2" "collects l1 ((b @ str) @ str2) s2"
      using "1.IH" [OF Inl _ p(3)] by blast
    then have "s = (t @ t2) @ dq @ s2 \<and> string_text (str @ str2) (t @ t2) \<and> collects l1 (b @ str @ str2) s2"
      using p(1,2) by (simp add: string_piece_def)
    then show ?thesis by blast
  next
    case (Inr r)
    have r: "scan_string_step l = Inr (Tok_value_string, l1)" using "1.prems"(1) Inr by (simp add: scan_string_loop.simps [of l])
    have quote: "lx_current (lx_get l) = 0x22" "l1 = lx_get l" using scan_string_step_done [OF r] by blast+
    obtain s' where "s = CHR 0x22 # s'" "collects l1 b s'"
      using quote by (cases rule: collects_cases [OF "1.prems"(2)]) (auto simp: eof_def byte_codes)
    then have "s = [] @ dq @ s' \<and> string_text [] [] \<and> collects l1 (b @ []) s'" using st_end by simp
    then show ?thesis by blast
  qed
qed

section \<open>Numbers\<close>

lemma done_not_error: "fst (scan_number_done t l) \<noteq> Tok_parse_error"
  by (simp add: scan_number_done_def Let_def split: option.splits)

lemma number_read_done:
  assumes "in_number l s"
  shows "number_read t (scan_number_done t (lx_get l)) l [] s"
  by (cases rule: in_number_cases [OF assms]) (auto simp: number_read_def)

lemma eof_not_digit: "\<not> is_digit eof"
  by (simp add: is_digit_def eof_def)

lemma any2_was_read:
  assumes "in_number l s"
  shows "\<exists>ds s'. s = ds @ s' \<and> list_all is_digit_char ds \<and> number_read t (scan_number_any2 t l) l ds s'"
  using assms
proof (induction t l arbitrary: s rule: scan_number_any2.induct)
  case (1 t l)
  show ?case
  proof (cases "is_digit (lx_current (lx_get l))")
    case True
    obtain c s1 where c: "s = c # s1" "lx_current (lx_get l) = int (of_char c)" "in_number (took c l) s1"
      using True by (cases rule: in_number_cases [OF "1.prems"]) (auto simp: eof_not_digit)
    obtain ds s' where d: "s1 = ds @ s'" "list_all is_digit_char ds" "number_read t (scan_number_any2 t (took c l)) (took c l) ds s'"
      using "1.IH" [OF refl, of s1] True c(2,3) by auto
    have "scan_number_any2 t l = scan_number_any2 t (took c l)"
      using True c(2) by (simp add: scan_number_any2.simps [of t l] Let_def)
    then have "s = (c # ds) @ s' \<and> list_all is_digit_char (c # ds) \<and> number_read t (scan_number_any2 t l) l (c # ds) s'"
      using c(1,2) d number_read_took [OF d(3)] True by simp
    then show ?thesis by blast
  next
    case False
    then have "scan_number_any2 t l = scan_number_done t (lx_get l)" by (simp add: scan_number_any2.simps [of t l] Let_def)
    then have "s = [] @ s \<and> list_all is_digit_char [] \<and> number_read t (scan_number_any2 t l) l [] s"
      using number_read_done [OF "1.prems"] by simp
    then show ?thesis by blast
  qed
qed

text \<open>A digit is next, and digits follow.\<close>

lemma digits_was_read:
  assumes "in_number l s" and "is_digit (lx_current (lx_get l))"
  shows "\<exists>ds s'. s = ds @ s' \<and> digit_text ds \<and>
    number_read t (scan_number_any2 t (lx_add (lx_current (lx_get l)) (lx_get l))) l ds s'"
proof -
  obtain c s1 where c: "s = c # s1" "lx_current (lx_get l) = int (of_char c)" "in_number (took c l) s1"
    using assms(2) by (cases rule: in_number_cases [OF assms(1)]) (auto simp: eof_not_digit)
  obtain ds s' where d: "s1 = ds @ s'" "list_all is_digit_char ds" "number_read t (scan_number_any2 t (took c l)) (took c l) ds s'"
    using any2_was_read [OF c(3)] by blast
  then have "s = (c # ds) @ s' \<and> digit_text (c # ds) \<and>
      number_read t (scan_number_any2 t (lx_add (lx_current (lx_get l)) (lx_get l))) l (c # ds) s'"
    using c(1,2) assms(2) number_read_took [OF d(3)] by (simp add: digit_text_def)
  then show ?thesis by blast
qed

text \<open>The characters of a number other than its digits.\<close>

lemma sign_codes:
  "(of_char c :: nat) = 0x2B \<longleftrightarrow> c = CHR 0x2B"
  "(of_char c :: nat) = 0x2D \<longleftrightarrow> c = CHR 0x2D"
  "(of_char c :: nat) = 0x65 \<longleftrightarrow> c = CHR 0x65"
  "(of_char c :: nat) = 0x45 \<longleftrightarrow> c = CHR 0x45"
  "(of_char c :: nat) = 0x2E \<longleftrightarrow> c = CHR 0x2E"
  using of_char_eq_iff [of c "CHR 0x2B", where 'a = nat]
    of_char_eq_iff [of c "CHR 0x2D", where 'a = nat]
    of_char_eq_iff [of c "CHR 0x65", where 'a = nat]
    of_char_eq_iff [of c "CHR 0x45", where 'a = nat]
    of_char_eq_iff [of c "CHR 0x2E", where 'a = nat]
  by (simp_all del: of_char_eq_iff)

lemma exponent_was_read:
  assumes "in_number l s" and "fst (scan_number_exponent l) \<noteq> Tok_parse_error"
  shows "\<exists>sg ds s'. s = sg @ ds @ s' \<and> (sg = [] \<or> sg = ''+'' \<or> sg = ''-'') \<and> digit_text ds \<and>
    number_read Tok_value_float (scan_number_exponent l) l (sg @ ds) s'"
proof (cases "is_digit (lx_current (lx_get l))")
  case True
  then have "scan_number_exponent l = scan_number_any2 Tok_value_float (lx_add (lx_current (lx_get l)) (lx_get l))"
    by (auto simp: scan_number_exponent_def Let_def is_digit_def)
  moreover obtain ds s' where "s = ds @ s'" "digit_text ds"
      "number_read Tok_value_float (scan_number_any2 Tok_value_float (lx_add (lx_current (lx_get l)) (lx_get l))) l ds s'"
    using digits_was_read [OF assms(1) True] by blast
  ultimately have "s = [] @ ds @ s' \<and> digit_text ds \<and> number_read Tok_value_float (scan_number_exponent l) l ([] @ ds) s'" by simp
  then show ?thesis by blast
next
  case False
  then have sg: "lx_current (lx_get l) = 0x2B \<or> lx_current (lx_get l) = 0x2D"
    using assms(2) by (auto simp: scan_number_exponent_def Let_def lx_fail_def split: if_splits)
  obtain c s1 where c: "s = c # s1" "lx_current (lx_get l) = int (of_char c)" "in_number (took c l) s1"
    using sg by (cases rule: in_number_cases [OF assms(1)]) (auto simp: eof_def)
  have cc: "[c] = ''+'' \<or> [c] = ''-''" using sg c(2) by (simp add: sign_codes)
  have e: "scan_number_exponent l = scan_number_sign Tok_value_float (took c l)"
    using sg c(2) by (auto simp: scan_number_exponent_def Let_def)
  have d: "is_digit (lx_current (lx_get (took c l)))"
    using assms(2) unfolding e by (auto simp: scan_number_sign_def Let_def lx_fail_def split: if_splits)
  obtain ds s' where r: "s1 = ds @ s'" "digit_text ds" "number_read Tok_value_float (scan_number_exponent l) (took c l) ds s'"
    using digits_was_read [OF c(3) d, of Tok_value_float] d unfolding e scan_number_sign_def Let_def by auto
  then have "s = [c] @ ds @ s' \<and> number_read Tok_value_float (scan_number_exponent l) l ([c] @ ds) s'"
    using c(1) number_read_took [OF r(3)] by simp
  then show ?thesis using r(2) cc by blast
qed

text \<open>A letter of an exponent is next, or the number ends.\<close>

lemma exponent_part_was_read:
  assumes "in_number l s" and "lx_current (lx_get l) = 0x65 \<or> lx_current (lx_get l) = 0x45"
    and "fst (scan_number_exponent (lx_add (lx_current (lx_get l)) (lx_get l))) \<noteq> Tok_parse_error"
  shows "\<exists>x s'. s = x @ s' \<and> exponent_part x \<and> x \<noteq> [] \<and>
    number_read Tok_value_float (scan_number_exponent (lx_add (lx_current (lx_get l)) (lx_get l))) l x s'"
proof -
  obtain c s1 where c: "s = c # s1" "lx_current (lx_get l) = int (of_char c)" "in_number (took c l) s1"
    using assms(2) by (cases rule: in_number_cases [OF assms(1)]) (auto simp: eof_def)
  have cc: "c = CHR ''e'' \<or> c = CHR ''E''" using assms(2) c(2) by (simp add: sign_codes)
  obtain sg ds s' where r: "s1 = sg @ ds @ s'" "sg = [] \<or> sg = ''+'' \<or> sg = ''-''" "digit_text ds"
      "number_read Tok_value_float (scan_number_exponent (took c l)) (took c l) (sg @ ds) s'"
    using exponent_was_read [OF c(3)] assms(3) c(2) by auto
  have "exponent_part (c # sg @ ds)" unfolding exponent_part_def using cc r(2,3) by blast
  moreover have "s = (c # sg @ ds) @ s'" using c(1) r(1) by simp
  ultimately show ?thesis using number_read_took [OF r(4)] c(2) by (metis list.distinct(1))
qed

lemma decimal2_was_read:
  assumes "in_number l s" and "fst (scan_number_decimal2 Tok_value_float l) \<noteq> Tok_parse_error"
  shows "\<exists>ds x s'. s = ds @ x @ s' \<and> list_all is_digit_char ds \<and> exponent_part x \<and>
    number_read Tok_value_float (scan_number_decimal2 Tok_value_float l) l (ds @ x) s'"
  using assms
proof (induction "Tok_value_float" l arbitrary: s rule: scan_number_decimal2.induct)
  case (1 l)
  let ?c = "lx_current (lx_get l)"
  consider "is_digit ?c" | "\<not> is_digit ?c" "?c = 0x65 \<or> ?c = 0x45" | "\<not> is_digit ?c" "?c \<noteq> 0x65" "?c \<noteq> 0x45" by blast
  then show ?case
  proof cases
    case digit: 1
    obtain c s1 where c: "s = c # s1" "lx_current (lx_get l) = int (of_char c)" "in_number (took c l) s1"
      using digit by (cases rule: in_number_cases [OF "1.prems"(1)]) (auto simp: eof_not_digit)
    have e: "scan_number_decimal2 Tok_value_float l = scan_number_decimal2 Tok_value_float (took c l)"
      using digit c(2) by (simp add: scan_number_decimal2.simps [of _ l] Let_def)
    obtain ds x s' where d: "s1 = ds @ x @ s'" "list_all is_digit_char ds" "exponent_part x"
        "number_read Tok_value_float (scan_number_decimal2 Tok_value_float (took c l)) (took c l) (ds @ x) s'"
      using "1.hyps" [OF refl refl digit, of s1] c(2,3) "1.prems"(2) e by auto
    have "s = (c # ds) @ x @ s' \<and> list_all is_digit_char (c # ds) \<and> exponent_part x \<and>
        number_read Tok_value_float (scan_number_decimal2 Tok_value_float l) l ((c # ds) @ x) s'"
      using c(1,2) d number_read_took [OF d(4)] digit e by simp
    then show ?thesis by blast
  next
    case ex: 2
    then have e: "scan_number_decimal2 Tok_value_float l = scan_number_exponent (lx_add ?c (lx_get l))"
      by (simp add: scan_number_decimal2.simps [of _ l] Let_def)
    obtain x s' where "s = x @ s'" "exponent_part x" "number_read Tok_value_float (scan_number_decimal2 Tok_value_float l) l x s'"
      using exponent_part_was_read [OF "1.prems"(1) ex(2)] "1.prems"(2) unfolding e by blast
    then have "s = [] @ x @ s' \<and> list_all is_digit_char [] \<and> exponent_part x \<and>
        number_read Tok_value_float (scan_number_decimal2 Tok_value_float l) l ([] @ x) s'" by simp
    then show ?thesis by blast
  next
    case 3
    then have "scan_number_decimal2 Tok_value_float l = scan_number_done Tok_value_float (lx_get l)"
      by (simp add: scan_number_decimal2.simps [of _ l] Let_def)
    then have "s = [] @ [] @ s \<and> list_all is_digit_char [] \<and> exponent_part [] \<and>
        number_read Tok_value_float (scan_number_decimal2 Tok_value_float l) l ([] @ []) s"
      using number_read_done [OF "1.prems"(1)] by (simp add: exponent_part_def)
    then show ?thesis by blast
  qed
qed

lemma decimal1_was_read:
  assumes "in_number l s" and "fst (scan_number_decimal1 l) \<noteq> Tok_parse_error"
  shows "\<exists>ds x s'. s = ds @ x @ s' \<and> digit_text ds \<and> exponent_part x \<and>
    number_read Tok_value_float (scan_number_decimal1 l) l (ds @ x) s'"
proof -
  have digit: "is_digit (lx_current (lx_get l))"
    using assms(2) by (auto simp: scan_number_decimal1_def Let_def lx_fail_def split: if_splits)
  obtain c s1 where c: "s = c # s1" "lx_current (lx_get l) = int (of_char c)" "in_number (took c l) s1"
    using digit by (cases rule: in_number_cases [OF assms(1)]) (auto simp: eof_not_digit)
  have e: "scan_number_decimal1 l = scan_number_decimal2 Tok_value_float (took c l)"
    using digit c(2) by (simp add: scan_number_decimal1_def Let_def)
  obtain ds x s' where d: "s1 = ds @ x @ s'" "list_all is_digit_char ds" "exponent_part x"
      "number_read Tok_value_float (scan_number_decimal1 l) (took c l) (ds @ x) s'"
    using decimal2_was_read [OF c(3)] assms(2) unfolding e by blast
  have "s = (c # ds) @ x @ s' \<and> digit_text (c # ds) \<and> exponent_part x \<and>
      number_read Tok_value_float (scan_number_decimal1 l) l ((c # ds) @ x) s'"
    using c(1,2) d number_read_took [OF d(4)] digit by (simp add: digit_text_def)
  then show ?thesis by blast
qed

text \<open>What follows the digits before the decimal point.\<close>

definition tail_ok :: "string option \<Rightarrow> string \<Rightarrow> bool" where
  "tail_ok f x \<longleftrightarrow> (\<forall>ds. f = Some ds \<longrightarrow> digit_text ds) \<and> exponent_part x"

lemma zero_was_read:
  assumes "in_number l s" and "fst (scan_number_zero t l) \<noteq> Tok_parse_error"
  shows "\<exists>f x s'. s = tail_part (CHR ''.'') f x @ s' \<and> tail_ok f x \<and>
    number_read (tail_type t f x) (scan_number_zero t l) l (tail_part (lx_decimal_point l) f x) s'"
proof -
  let ?c = "lx_current (lx_get l)"
  consider "?c = 0x2E" | "?c = 0x65 \<or> ?c = 0x45" | "?c \<noteq> 0x2E" "?c \<noteq> 0x65" "?c \<noteq> 0x45" by blast
  then show ?thesis
  proof cases
    case 1
    obtain c s1 where c: "s = c # s1" "?c = int (of_char c)" "in_number (took (lx_decimal_point l) l) s1"
      using 1 by (cases rule: in_number_cases [OF assms(1)]) (auto simp: eof_def)
    have cc: "c = CHR ''.''" using 1 c(2) by (simp add: sign_codes)
    have e: "scan_number_zero t l = scan_number_decimal1 (took (lx_decimal_point l) l)"
      using 1 by (simp add: scan_number_zero_def Let_def)
    obtain ds x s' where d: "s1 = ds @ x @ s'" "digit_text ds" "exponent_part x"
        "number_read Tok_value_float (scan_number_zero t l) (took (lx_decimal_point l) l) (ds @ x) s'"
      using decimal1_was_read [OF c(3)] assms(2) unfolding e by blast
    have "s = tail_part (CHR ''.'') (Some ds) x @ s' \<and> tail_ok (Some ds) x \<and>
        number_read (tail_type t (Some ds) x) (scan_number_zero t l) l (tail_part (lx_decimal_point l) (Some ds) x) s'"
      using c(1) cc d(1-3) number_read_took [OF d(4)] by (simp add: tail_part_def tail_ok_def tail_type_def)
    then show ?thesis by blast
  next
    case 2
    then have e: "scan_number_zero t l = scan_number_exponent (lx_add ?c (lx_get l))"
      by (auto simp: scan_number_zero_def Let_def)
    obtain x s' where "s = x @ s'" "exponent_part x" "x \<noteq> []" "number_read Tok_value_float (scan_number_zero t l) l x s'"
      using exponent_part_was_read [OF assms(1) 2] assms(2) unfolding e by blast
    then have "s = tail_part (CHR ''.'') None x @ s' \<and> tail_ok None x \<and>
        number_read (tail_type t None x) (scan_number_zero t l) l (tail_part (lx_decimal_point l) None x) s'"
      by (simp add: tail_part_def tail_ok_def tail_type_def)
    then show ?thesis by blast
  next
    case 3
    then have "scan_number_zero t l = scan_number_done t (lx_get l)" by (simp add: scan_number_zero_def Let_def)
    then have "s = tail_part (CHR ''.'') None [] @ s \<and> tail_ok None [] \<and>
        number_read (tail_type t None []) (scan_number_zero t l) l (tail_part (lx_decimal_point l) None []) s"
      using number_read_done [OF assms(1)] by (simp add: tail_part_def tail_ok_def tail_type_def exponent_part_def)
    then show ?thesis by blast
  qed
qed

lemma any1_was_read:
  assumes "in_number l s" and "fst (scan_number_any1 t l) \<noteq> Tok_parse_error"
  shows "\<exists>ds f x s'. s = ds @ tail_part (CHR ''.'') f x @ s' \<and> list_all is_digit_char ds \<and> tail_ok f x \<and>
    number_read (tail_type t f x) (scan_number_any1 t l) l (ds @ tail_part (lx_decimal_point l) f x) s'"
  using assms
proof (induction t l arbitrary: s rule: scan_number_any1.induct)
  case (1 t l)
  show ?case
  proof (cases "is_digit (lx_current (lx_get l))")
    case digit: True
    obtain c s1 where c: "s = c # s1" "lx_current (lx_get l) = int (of_char c)" "in_number (took c l) s1"
      using digit by (cases rule: in_number_cases [OF "1.prems"(1)]) (auto simp: eof_not_digit)
    have e: "scan_number_any1 t l = scan_number_any1 t (took c l)"
      using digit c(2) by (simp add: scan_number_any1.simps [of t l] Let_def)
    obtain ds f x s' where d: "s1 = ds @ tail_part (CHR ''.'') f x @ s'" "list_all is_digit_char ds" "tail_ok f x"
        "number_read (tail_type t f x) (scan_number_any1 t (took c l)) (took c l) (ds @ tail_part (lx_decimal_point l) f x) s'"
      using "1.IH" [OF refl refl digit, of s1] c(2,3) "1.prems"(2) e by auto
    have "s = (c # ds) @ tail_part (CHR ''.'') f x @ s' \<and> list_all is_digit_char (c # ds) \<and>
        number_read (tail_type t f x) (scan_number_any1 t l) l ((c # ds) @ tail_part (lx_decimal_point l) f x) s'"
      using c(1,2) d(1,2) number_read_took [OF d(4)] digit e by simp
    then show ?thesis using d(3) by blast
  next
    case False
    then have e: "scan_number_any1 t l = scan_number_zero t l"
      by (simp add: scan_number_any1.simps [of t l] scan_number_zero_def Let_def)
    obtain f x s' where "s = tail_part (CHR ''.'') f x @ s'" "tail_ok f x"
        "number_read (tail_type t f x) (scan_number_any1 t l) l (tail_part (lx_decimal_point l) f x) s'"
      using zero_was_read [OF "1.prems"(1)] "1.prems"(2) unfolding e by blast
    then have "s = [] @ tail_part (CHR ''.'') f x @ s' \<and> list_all is_digit_char [] \<and> tail_ok f x \<and>
        number_read (tail_type t f x) (scan_number_any1 t l) l ([] @ tail_part (lx_decimal_point l) f x) s'" by simp
    then show ?thesis by blast
  qed
qed

lemma number_partsI: "digit_text w \<Longrightarrow> (hd w = CHR ''0'' \<Longrightarrow> w = ''0'') \<Longrightarrow> tail_ok f x \<Longrightarrow> number_parts w f x"
  by (auto simp: number_parts_def tail_ok_def)

text \<open>The first digit has been read and is in the buffer.\<close>

lemma whole_was_read:
  assumes "in_number l s" and "is_digit_char c"
    and "fst (if int (of_char c) = 0x30 then scan_number_zero t l else scan_number_any1 t l) \<noteq> Tok_parse_error"
  obtains w f x s' where "s = w @ tail_part (CHR ''.'') f x @ s'" "number_parts (c # w) f x"
    "number_read (tail_type t f x) (if int (of_char c) = 0x30 then scan_number_zero t l else scan_number_any1 t l) l
       (w @ tail_part (lx_decimal_point l) f x) s'"
proof (cases "c = CHR ''0''")
  case True
  obtain f x s' where r: "s = tail_part (CHR ''.'') f x @ s'" "tail_ok f x"
      "number_read (tail_type t f x) (scan_number_zero t l) l (tail_part (lx_decimal_point l) f x) s'"
    using zero_was_read [OF assms(1), of t] assms(3) True by auto
  have "number_parts (c # []) f x" using True r(2) by (intro number_partsI) (simp_all add: digit_text_def is_digit_char_def)
  then show ?thesis using that [of "[]" f x s'] r True by simp
next
  case False
  then have z: "int (of_char c) \<noteq> 0x30" using digit_char_zero [OF assms(2)] by simp
  obtain ds f x s' where r: "s = ds @ tail_part (CHR ''.'') f x @ s'" "list_all is_digit_char ds" "tail_ok f x"
      "number_read (tail_type t f x) (scan_number_any1 t l) l (ds @ tail_part (lx_decimal_point l) f x) s'"
    using any1_was_read [OF assms(1), of t] assms(3) z by auto
  have "number_parts (c # ds) f x" using False r(2,3) assms(2) by (intro number_partsI) (simp_all add: digit_text_def)
  then show ?thesis using that [of ds f x s'] r z by simp
qed

lemma scan_number_was_read:
  assumes "begun l c s" and "c = CHR ''-'' \<or> is_digit_char c" and "fst (scan_number l) \<noteq> Tok_parse_error"
  obtains neg w f x s' where "c # s = parts_text (CHR ''.'') neg w f x @ s'" "number_parts w f x"
    "number_read (number_type neg f x) (scan_number l) (lx_reset l) (parts_text (lx_decimal_point l) neg w f x) s'"
proof -
  let ?l1 = "lx_add (lx_current l) (lx_reset l)"
  note b = begun_add [OF assms(1)]
  have i: "in_number ?l1 s" using b(1,2) by (simp add: in_number_def)
  have cur: "lx_current (lx_reset l) = lx_current l" by (simp add: lx_reset_def)
  show thesis
  proof (cases "c = CHR ''-''")
    case True
    have e: "scan_number l = scan_number_minus ?l1" using b(4) True by (simp add: scan_number_def Let_def cur)
    have d: "0x30 \<le> lx_current (lx_get ?l1)" "lx_current (lx_get ?l1) \<le> 0x39"
      using assms(3) unfolding e by (auto simp: scan_number_minus_def Let_def lx_fail_def split: if_splits)
    obtain c' s1 where c': "s = c' # s1" "lx_current (lx_get ?l1) = int (of_char c')" "in_number (took c' ?l1) s1"
      using d by (cases rule: in_number_cases [OF i]) (auto simp: eof_def)
    have dc: "is_digit_char c'" using d c'(2) by (simp add: is_digit_char_def)
    have e2: "scan_number l = (if int (of_char c') = 0x30 then scan_number_zero Tok_value_integer (took c' ?l1)
        else scan_number_any1 Tok_value_integer (took c' ?l1))"
      using d c'(2) unfolding e by (auto simp: scan_number_minus_def Let_def)
    obtain w f x s' where r: "s1 = w @ tail_part (CHR ''.'') f x @ s'" "number_parts (c' # w) f x"
        "number_read (tail_type Tok_value_integer f x) (scan_number l) (took c' ?l1) (w @ tail_part (lx_decimal_point (took c' ?l1)) f x) s'"
      using whole_was_read [OF c'(3) dc, of Tok_value_integer, folded e2, OF assms(3)] .
    show thesis
    proof (rule that [of True "c' # w" f x s', OF _ r(2)])
      show "c # s = parts_text (CHR ''.'') True (c' # w) f x @ s'"
        using True c'(1) r(1) by (simp add: parts_text_def sign_text_def)
      show "number_read (number_type True f x) (scan_number l) (lx_reset l) (parts_text (lx_decimal_point l) True (c' # w) f x) s'"
        using r(3) b(3) True by (simp add: number_read_def number_type_def parts_text_def sign_text_def)
    qed
  next
    case False
    then have dc: "is_digit_char c" using assms(2) by simp
    have "int (of_char c) \<noteq> 0x2D" using dc by (auto simp: is_digit_char_def)
    then have e2: "scan_number l = (if int (of_char c) = 0x30 then scan_number_zero Tok_value_unsigned ?l1
        else scan_number_any1 Tok_value_unsigned ?l1)"
      using b(4) by (simp add: scan_number_def Let_def cur)
    obtain w f x s' where r: "s = w @ tail_part (CHR ''.'') f x @ s'" "number_parts (c # w) f x"
        "number_read (tail_type Tok_value_unsigned f x) (scan_number l) ?l1 (w @ tail_part (lx_decimal_point ?l1) f x) s'"
      using whole_was_read [OF i dc, of Tok_value_unsigned, folded e2, OF assms(3)] .
    show thesis
    proof (rule that [of False "c # w" f x s', OF _ r(2)])
      show "c # s = parts_text (CHR ''.'') False (c # w) f x @ s'" using r(1) by (simp add: parts_text_def sign_text_def)
      show "number_read (number_type False f x) (scan_number l) (lx_reset l) (parts_text (lx_decimal_point l) False (c # w) f x) s'"
        using r(3) b(3) by (simp add: number_read_def number_type_def parts_text_def sign_text_def)
    qed
  qed
qed

section \<open>Tokens\<close>

text \<open>The text of a token, with the value that the lexer holds for it.\<close>

definition number_token_text :: "char \<Rightarrow> token_type \<Rightarrow> lexer \<Rightarrow> string \<Rightarrow> bool" where
  "number_token_text point tok l t \<longleftrightarrow> (\<exists>neg w f x. t = parts_text (CHR ''.'') neg w f x \<and> number_parts w f x \<and>
     token_value (tok, l) = parts_value point neg w f x)"

fun token_text :: "char \<Rightarrow> token_type \<Rightarrow> lexer \<Rightarrow> string \<Rightarrow> bool" where
  "token_text point Tok_begin_array l t = (t = ''['')"
| "token_text point Tok_end_array l t = (t = '']'')"
| "token_text point Tok_begin_object l t = (t = ''{'')"
| "token_text point Tok_end_object l t = (t = ''}'')"
| "token_text point Tok_name_separator l t = (t = '':'')"
| "token_text point Tok_value_separator l t = (t = '','')"
| "token_text point Tok_literal_true l t = (t = ''true'')"
| "token_text point Tok_literal_false l t = (t = ''false'')"
| "token_text point Tok_literal_null l t = (t = ''null'')"
| "token_text point Tok_value_string l t = (\<exists>u. t = dq @ u @ dq \<and> string_text (lx_token_buffer l) u)"
| "token_text point Tok_value_unsigned l t = number_token_text point Tok_value_unsigned l t"
| "token_text point Tok_value_integer l t = number_token_text point Tok_value_integer l t"
| "token_text point Tok_value_float l t = number_token_text point Tok_value_float l t"
| "token_text point _ l t = False"

lemma literal_was_read:
  assumes "scan_literal_loop xs t l = (t', l1)" and "t' \<noteq> Tok_parse_error" and "lex_at l s"
  shows "\<exists>s'. s = xs @ s' \<and> t' = t \<and> lex_at l1 s'"
  using assms
proof (induction xs arbitrary: l s)
  case (Cons x xs)
  have c: "lx_current (lx_get l) = of_char x" "scan_literal_loop xs t (lx_get l) = (t', l1)"
    using Cons.prems(1,2) by (auto simp: Let_def lx_fail_def split: if_splits)
  have r: "reads l s" "0 < lx_chars_read l" using Cons.prems(3) by (auto simp: lex_at_def)
  obtain s1 where "s = x # s1" "lex_at (lx_get l) s1"
    using c(1) r(2) by (cases rule: lx_get_cases [OF r(1)]) (auto simp: lex_at_def of_char_neq_eof)
  then show ?case using Cons.IH [OF c(2) Cons.prems(2)] by auto
qed simp

lemma skip_whitespace_was_read:
  assumes "reads l s"
  obtains (eof) "list_all white s" "lx_current (skip_whitespace l) = eof"
    | (char) ws c s' where "s = ws @ c # s'" "list_all white ws" "\<not> white c" "begun (skip_whitespace l) c s'"
proof -
  have "(list_all white s \<and> lx_current (skip_whitespace l) = eof) \<or>
      (\<exists>ws c s'. s = ws @ c # s' \<and> list_all white ws \<and> \<not> white c \<and> begun (skip_whitespace l) c s')"
    using assms
  proof (induction s arbitrary: l)
    case Nil
    then show ?case using lx_get_Nil [OF Nil] by (simp add: skip_whitespace.simps [of l] Let_def eof_def)
  next
    case (Cons c s)
    note g = lx_get_Cons [OF Cons.prems]
    show ?case
    proof (cases "white c")
      case True
      then have e: "skip_whitespace l = skip_whitespace (lx_get l)"
        using g(1) by (auto simp: skip_whitespace.simps [of l] Let_def white_def)
      show ?thesis using Cons.IH [OF g(2)] True unfolding e by (metis append_Cons list.pred_inject(2))
    next
      case False
      then show ?thesis using skip_whitespace_reads [of "[]" c l s] Cons.prems by (metis append_Nil list.pred_inject(1))
    qed
  qed
  then show thesis using that by blast
qed

lemma mark_codes:
  "(of_char c :: nat) = 0x5B \<longleftrightarrow> c = CHR 0x5B"
  "(of_char c :: nat) = 0x5D \<longleftrightarrow> c = CHR 0x5D"
  "(of_char c :: nat) = 0x7B \<longleftrightarrow> c = CHR 0x7B"
  "(of_char c :: nat) = 0x7D \<longleftrightarrow> c = CHR 0x7D"
  "(of_char c :: nat) = 0x3A \<longleftrightarrow> c = CHR 0x3A"
  "(of_char c :: nat) = 0x2C \<longleftrightarrow> c = CHR 0x2C"
  "(of_char c :: nat) = 0x74 \<longleftrightarrow> c = CHR 0x74"
  "(of_char c :: nat) = 0x66 \<longleftrightarrow> c = CHR 0x66"
  "(of_char c :: nat) = 0x6E \<longleftrightarrow> c = CHR 0x6E"
  "(of_char c :: nat) = 0x22 \<longleftrightarrow> c = CHR 0x22"
  "(of_char c :: nat) = 0x2D \<longleftrightarrow> c = CHR 0x2D"
  using of_char_eq_iff [of c "CHR 0x5B", where 'a = nat]
    of_char_eq_iff [of c "CHR 0x5D", where 'a = nat]
    of_char_eq_iff [of c "CHR 0x7B", where 'a = nat]
    of_char_eq_iff [of c "CHR 0x7D", where 'a = nat]
    of_char_eq_iff [of c "CHR 0x3A", where 'a = nat]
    of_char_eq_iff [of c "CHR 0x2C", where 'a = nat]
    of_char_eq_iff [of c "CHR 0x74", where 'a = nat]
    of_char_eq_iff [of c "CHR 0x66", where 'a = nat]
    of_char_eq_iff [of c "CHR 0x6E", where 'a = nat]
    of_char_eq_iff [of c "CHR 0x22", where 'a = nat]
    of_char_eq_iff [of c "CHR 0x2D", where 'a = nat]
  by (simp_all del: of_char_eq_iff)

lemma scan_string_token: "fst (scan_string l) = Tok_value_string \<or> fst (scan_string l) = Tok_parse_error"
proof -
  have u: "scan_unicode_escape k = Inr r \<Longrightarrow> fst r = Tok_parse_error" for k r
    by (auto simp: scan_unicode_escape_def Let_def lx_fail_def split: prod.splits if_splits)
  then have e: "scan_escape k = Inr r \<Longrightarrow> fst r = Tok_parse_error" for k r
    by (auto simp: scan_escape_def Let_def lx_fail_def split: if_splits)
  have b: "scan_utf8 k = Inr r \<Longrightarrow> fst r = Tok_parse_error" for k r
    by (auto simp: scan_utf8_def lx_fail_def split: prod.splits option.splits if_splits)
  have "scan_string_step k = Inr r \<Longrightarrow> fst r = Tok_value_string \<or> fst r = Tok_parse_error" for k r
    using e b by (auto simp: scan_string_step_def Let_def lx_fail_def split: if_splits)
  then have "fst (scan_string_loop k) = Tok_value_string \<or> fst (scan_string_loop k) = Tok_parse_error" for k
    by (induction k rule: scan_string_loop.induct) (subst (1 2) scan_string_loop.simps, auto split: sum.splits)
  then show ?thesis by (simp add: scan_string_def)
qed

lemma scan_token_was_read:
  assumes "begun l c s" and "scan_token l = (t, l1)" and "t \<noteq> Tok_parse_error" and "t \<noteq> Tok_end_of_input"
  obtains u s' where "c # s = u @ s'" "token_text (lx_decimal_point l) t l1 u" "lex_at l1 s'"
proof -
  have cur: "lx_current l = int (of_char c)" and at: "lex_at l s" using assms(1) by (auto simp: begun_def lex_at_def)
  consider (mark) "(c, t) \<in> {(CHR ''['', Tok_begin_array), (CHR '']'', Tok_end_array), (CHR ''{'', Tok_begin_object),
      (CHR ''}'', Tok_end_object), (CHR '':'', Tok_name_separator), (CHR '','', Tok_value_separator)}" "l1 = l"
    | (literal) r lt where "(c, r, lt) \<in> {(CHR ''t'', ''rue'', Tok_literal_true), (CHR ''f'', ''alse'', Tok_literal_false),
        (CHR ''n'', ''ull'', Tok_literal_null)}" "scan_literal_loop r lt l = (t, l1)"
    | (str) "c = CHR 0x22" "scan_string l = (t, l1)"
    | (num) "c = CHR ''-'' \<or> is_digit_char c" "scan_number l = (t, l1)"
    using assms(2-4) cur
    by (auto simp: scan_token_def Let_def lx_fail_def scan_literal_def mark_codes split: if_splits)
  then show thesis
  proof cases
    case mark
    then show thesis using that [of "[c]" s] at by auto
  next
    case literal
    obtain s' where s': "s = r @ s'" "t = lt" "lex_at l1 s'" using literal_was_read [OF literal(2) assms(3) at] by blast
    show thesis using that [of "c # r" s'] s' literal(1) by auto
  next
    case str
    have "t = Tok_value_string" using scan_string_token [of l] str(2) assms(3) by simp
    then have "scan_string_loop (lx_reset l) = (Tok_value_string, l1)" using str(2) by (simp add: scan_string_def)
    moreover have "collects (lx_reset l) [] s" using assms(1) by (simp add: begun_def collects_def)
    ultimately obtain k u s' where r: "s = u @ dq @ s'" "string_text k u" "collects l1 ([] @ k) s'"
      using scan_string_loop_read by blast
    show thesis using that [of "dq @ u @ dq" s'] r str(1) \<open>t = Tok_value_string\<close> by (auto simp: collects_def lex_at_def)
  next
    case num
    have "fst (scan_number l) \<noteq> Tok_parse_error" using num(2) assms(3) by simp
    then obtain neg w f x s' where r: "c # s = parts_text (CHR ''.'') neg w f x @ s'" "number_parts w f x"
        "number_read (number_type neg f x) (scan_number l) (lx_reset l) (parts_text (lx_decimal_point l) neg w f x) s'"
      using scan_number_was_read [OF assms(1) num(1)] by metis
    obtain l2 where l2: "scan_number l = scan_number_done (number_type neg f x) l2" "lex_at (lx_unget l2) s'"
        "lx_token_buffer l2 = parts_text (lx_decimal_point l2) neg w f x" "lx_decimal_point l2 = lx_decimal_point l"
      using r(3) by (auto simp: number_read_def)
    note v = scan_number_done_value [OF l2(3) r(2)]
    have d: "scan_number_done (number_type neg f x) l2 = (t, l1)" using l2(1) num(2) by simp
    have "token_value (t, l1) = parts_value (lx_decimal_point l) neg w f x" and tv: "t \<in> {Tok_value_unsigned, Tok_value_integer, Tok_value_float}"
        "lex_at l1 s'"
      using v(1,2) v(3) [of s'] l2(2,4) unfolding d by simp_all
    then have "number_token_text (lx_decimal_point l) t l1 (parts_text (CHR ''.'') neg w f x)"
      using r(2) unfolding number_token_text_def by blast
    then show thesis using that [OF r(1)] tv by auto
  qed
qed

text \<open>The token that the parser gets: white space before it, and its text.\<close>

lemma get_token_was_read:
  assumes "lex_point point p s" and "ps_last_token (get_token p) \<noteq> Tok_parse_error"
    and "ps_last_token (get_token p) \<noteq> Tok_end_of_input"
  obtains ws t s' where "s = ws @ t @ s'" "list_all white ws"
    "token_text point (ps_last_token (get_token p)) (ps_lexer (get_token p)) t" "lex_point point (get_token p) s'"
proof -
  let ?l = "ps_lexer p"
  have r: "reads ?l s" "0 < lx_chars_read ?l" "lx_decimal_point ?l = point"
    using assms(1) by (auto simp: lex_point_def lex_at_def)
  have g: "get_token p = \<lparr>ps_last_token = fst (scan_token (skip_whitespace ?l)), ps_lexer = snd (scan_token (skip_whitespace ?l))\<rparr>"
    using r(2) by (simp add: get_token_def scan_def case_prod_beta)
  show thesis
  proof (cases rule: skip_whitespace_was_read [OF r(1)])
    case 1
    then show thesis using assms(3) g by (simp add: scan_token_def Let_def is_digit_def eof_def)
  next
    case (2 ws c s1)
    obtain u s' where u: "c # s1 = u @ s'"
        "token_text (lx_decimal_point (skip_whitespace ?l)) (ps_last_token (get_token p)) (ps_lexer (get_token p)) u"
        "lex_at (ps_lexer (get_token p)) s'"
      using scan_token_was_read [OF 2(4), of "ps_last_token (get_token p)" "ps_lexer (get_token p)"] assms(2,3) g by auto
    show thesis using that [OF _ 2(2), of u s'] u 2(1) r(3) get_token_point [of p] by (simp add: lex_point_def)
  qed
qed

end
