(* ===== verification/Json_Soundness.thy ===== *)
theory Json_Soundness
  imports Json_Tokens
begin

text \<open>
  The converse of \<open>Json_Accepting\<close>: what the parser accepts is a text of the grammar, with the
  value that the grammar gives it. The loop of the parser is followed with the list of the
  containers that are open, each with a hole where the next value goes.
\<close>

section \<open>Open containers\<close>

datatype hole = In_Array "json list" | In_Object "(string, json) std_map" string

fun fill :: "hole \<Rightarrow> json \<Rightarrow> json" where
  "fill (In_Array xs) v = Json_Array (xs @ [v])"
| "fill (In_Object m k) v = Json_Object (map_assign m k v)"

fun hole_ok :: "hole \<Rightarrow> bool" where
  "hole_ok (In_Array xs) = True"
| "hole_ok (In_Object m k) = map_ok m"

fun is_array :: "hole \<Rightarrow> bool" where
  "is_array (In_Array xs) = True"
| "is_array (In_Object m k) = False"

text \<open>The root with a value in the innermost hole, the path of that hole, and the paths of the
  containers.\<close>

fun plug :: "hole list \<Rightarrow> json \<Rightarrow> json" where
  "plug [] v = v"
| "plug (h # hs) v = plug hs (fill h v)"

fun hole_path :: "hole list \<Rightarrow> path" where
  "hole_path [] = []"
| "hole_path (In_Array xs # hs) = hole_path hs @ [Idx (length xs)]"
| "hole_path (In_Object m k # hs) = hole_path hs @ [Key k]"

fun hole_refs :: "hole list \<Rightarrow> path list" where
  "hole_refs [] = []"
| "hole_refs (h # hs) = hole_path hs # hole_refs hs"

lemma plug_eq: "plug (h # hs) = (\<lambda>v. plug hs (fill h v))"
  by (rule ext) simp

lemma place_holes: "place (hole_path hs) (plug hs)"
proof (induction hs rule: hole_path.induct)
  case 1
  show ?case using place_root by (simp add: plug.simps(1) [abs_def])
next
  case (2 xs hs)
  then show ?case using place_Idx [OF 2, of xs] by (simp add: plug_eq)
next
  case (3 m k hs)
  then show ?case using place_Key [OF 3, of k m] by (simp add: plug_eq)
qed

text \<open>The parser needs a value for the innermost hole; the parser has just put one there.\<close>

definition expects :: "hole list \<Rightarrow> dom \<Rightarrow> bool" where
  "expects hs d \<longleftrightarrow> slot d (hole_path hs) (plug hs) \<and> dom_refs d = hole_refs hs \<and> list_all hole_ok hs"

definition supplied :: "hole list \<Rightarrow> json \<Rightarrow> dom \<Rightarrow> bool" where
  "supplied hs v d \<longleftrightarrow> dom_root d = plug hs v \<and> dom_refs d = hole_refs hs \<and> list_all hole_ok hs"

lemma supplied_inside: "supplied (h # hs) v d \<Longrightarrow> inside d (hole_path hs) (plug hs) (fill h v) (hole_refs hs)"
  by (simp add: supplied_def inside_def place_holes)

lemma expects_root: "expects [] (dom_new r)"
  using slot_root [of r] by (simp add: expects_def dom_new_def plug.simps(1) [abs_def])

lemma expects_value: "expects hs d \<Longrightarrow> supplied hs v (dom_value v d)"
  using filled_value [of d "hole_path hs" "plug hs" v] by (simp add: expects_def supplied_def filled_def)

lemma expects_array:
  assumes "expects hs d"
  shows "expects (In_Array [] # hs) (dom_start_array d)" "supplied hs (Json_Array []) (dom_end (dom_start_array d))"
proof -
  note i = inside_start(2) [of d "hole_path hs" "plug hs"]
  show "expects (In_Array [] # hs) (dom_start_array d)"
    using slot_array [OF i] i assms by (simp add: expects_def plug_eq inside_def)
  show "supplied hs (Json_Array []) (dom_end (dom_start_array d))"
    using filled_end [OF i] assms by (simp add: expects_def supplied_def filled_def)
qed

lemma expects_object:
  assumes "expects hs d"
  shows "expects (In_Object [] k # hs) (dom_key k (dom_start_object d))" "supplied hs (Json_Object []) (dom_end (dom_start_object d))"
proof -
  note i = inside_start(1) [of d "hole_path hs" "plug hs"]
  show "expects (In_Object [] k # hs) (dom_key k (dom_start_object d))"
    using slot_object [OF i, of k] i assms by (simp add: expects_def plug_eq inside_def)
  show "supplied hs (Json_Object []) (dom_end (dom_start_object d))"
    using filled_end [OF i] assms by (simp add: expects_def supplied_def filled_def)
qed

lemma supplied_end: "supplied (h # hs) v d \<Longrightarrow> supplied hs (fill h v) (dom_end d)"
  by (simp add: supplied_def dom_end_def)

lemma supplied_more:
  "supplied (In_Array xs # hs) v d \<Longrightarrow> expects (In_Array (xs @ [v]) # hs) d"
  "supplied (In_Object m k # hs) v d \<Longrightarrow> expects (In_Object (map_assign m k v) k' # hs) (dom_key k' d)"
proof -
  show "expects (In_Array (xs @ [v]) # hs) d" if "supplied (In_Array xs # hs) v d"
    using slot_array [of d "hole_path hs" "plug hs" "xs @ [v]" "hole_refs hs"] supplied_inside [OF that] that
    by (simp add: expects_def supplied_def plug_eq)
  show "expects (In_Object (map_assign m k v) k' # hs) (dom_key k' d)" if "supplied (In_Object m k # hs) v d"
    using slot_object [of d "hole_path hs" "plug hs" "map_assign m k v" "hole_refs hs" k'] supplied_inside [OF that] that
    by (simp add: expects_def supplied_def plug_eq)
qed

section \<open>The text that closes the containers\<close>

text \<open>After the value \<open>v\<close> was put into the innermost hole, the text closes all containers and
  gives the root.\<close>

inductive closes :: "char \<Rightarrow> hole list \<Rightarrow> json \<Rightarrow> string \<Rightarrow> json \<Rightarrow> bool" for point :: char where
  cl_root: "closes point [] v [] v"
| cl_array: "list_all white ws \<Longrightarrow> closes point hs (Json_Array (xs @ [v])) t r \<Longrightarrow>
    closes point (In_Array xs # hs) v (ws @ CHR '']'' # t) r"
| cl_element: "list_all white ws \<Longrightarrow> list_all white ws1 \<Longrightarrow> json_grammar point v' u \<Longrightarrow>
    closes point (In_Array (xs @ [v]) # hs) v' t r \<Longrightarrow>
    closes point (In_Array xs # hs) v (ws @ CHR '','' # ws1 @ u @ t) r"
| cl_object: "list_all white ws \<Longrightarrow> closes point hs (Json_Object (map_assign m k v)) t r \<Longrightarrow>
    closes point (In_Object m k # hs) v (ws @ CHR ''}'' # t) r"
| cl_member: "list_all white ws \<Longrightarrow> list_all white ws1 \<Longrightarrow> list_all white ws2 \<Longrightarrow> list_all white ws3 \<Longrightarrow>
    string_text k' kt \<Longrightarrow> json_grammar point v' u \<Longrightarrow> closes point (In_Object (map_assign m k v) k' # hs) v' t r \<Longrightarrow>
    closes point (In_Object m k # hs) v (ws @ CHR '','' # ws1 @ dq @ kt @ dq @ ws2 @ CHR '':'' # ws3 @ u @ t) r"

inductive_cases closes_rootE: "closes point [] v t r"

lemma closes_array:
  assumes "closes point hs0 v cs r" and "hs0 = In_Array xs # hs" and "json_grammar point v t" and "list_all white ws0"
  shows "\<exists>vs u cs'. ws0 @ t @ cs = u @ CHR '']'' # cs' \<and> elements_grammar point (v # vs) u \<and>
    closes point hs (Json_Array (xs @ v # vs)) cs' r"
  using assms
proof (induction arbitrary: xs t ws0 rule: closes.induct)
  case (cl_array ws hs1 ys v cs r)
  then have "ws0 @ t @ ws @ CHR '']'' # cs = (ws0 @ t @ ws) @ CHR '']'' # cs \<and> elements_grammar point (v # []) (ws0 @ t @ ws) \<and>
      closes point hs (Json_Array (xs @ v # [])) cs r"
    using eg_last [of point v t ws0 ws] by simp
  then show ?case by blast
next
  case (cl_element ws ws1 v' u ys v hs1 cs r)
  have x: "ys = xs" "hs1 = hs" using cl_element.prems(1) by simp_all
  obtain vs u2 cs' where r: "ws1 @ u @ cs = u2 @ CHR '']'' # cs'" "elements_grammar point (v' # vs) u2"
      "closes point hs (Json_Array ((xs @ [v]) @ v' # vs)) cs' r"
    using cl_element.IH [of "xs @ [v]" u ws1] cl_element.hyps(2,3) x by blast
  have "ws0 @ t @ ws @ CHR '','' # ws1 @ u @ cs = (ws0 @ t @ ws @ CHR '','' # u2) @ CHR '']'' # cs' \<and>
      elements_grammar point (v # v' # vs) (ws0 @ t @ ws @ CHR '','' # u2) \<and> closes point hs (Json_Array (xs @ v # v' # vs)) cs' r"
    using r eg_more [OF cl_element.prems(2,3) cl_element.hyps(1) r(2)] by simp
  then show ?case by blast
qed simp_all

lemma closes_object:
  assumes "closes point hs0 v cs r" and "hs0 = In_Object m k # hs" and "json_grammar point v t" and "string_text k kt"
    and "list_all white ws0" and "list_all white ws4" and "list_all white ws5"
  shows "\<exists>kvs u cs'. ws0 @ dq @ kt @ dq @ ws4 @ CHR '':'' # ws5 @ t @ cs = u @ CHR ''}'' # cs' \<and> members_grammar point kvs u \<and>
    closes point hs (Json_Object (assign_members m kvs)) cs' r"
  using assms
proof (induction arbitrary: m k t kt ws0 ws4 ws5 rule: closes.induct)
  case (cl_object ws hs1 m1 k1 v cs r)
  then have "ws0 @ dq @ kt @ dq @ ws4 @ CHR '':'' # ws5 @ t @ ws @ CHR ''}'' # cs =
        (ws0 @ dq @ kt @ dq @ ws4 @ CHR '':'' # ws5 @ t @ ws) @ CHR ''}'' # cs \<and>
      members_grammar point [(k, v)] (ws0 @ dq @ kt @ dq @ ws4 @ CHR '':'' # ws5 @ t @ ws) \<and>
      closes point hs (Json_Object (assign_members m [(k, v)])) cs r"
    using mg_last [of k kt point v t ws0 ws4 ws5 ws] by simp
  then show ?case by blast
next
  case (cl_member ws ws1 ws2 ws3 k' kt' v' u m1 k1 v hs1 cs r)
  have x: "m1 = m" "k1 = k" "hs1 = hs" using cl_member.prems(1) by simp_all
  obtain kvs u2 cs' where r: "ws1 @ dq @ kt' @ dq @ ws2 @ CHR '':'' # ws3 @ u @ cs = u2 @ CHR ''}'' # cs'" "members_grammar point kvs u2"
      "closes point hs (Json_Object (assign_members (map_assign m k v) kvs)) cs' r"
    using cl_member.IH [of "map_assign m k v" k' u kt' ws1 ws2 ws3] cl_member.hyps(2-6) x by blast
  have "ws0 @ dq @ kt @ dq @ ws4 @ CHR '':'' # ws5 @ t @ ws @ CHR '','' # ws1 @ dq @ kt' @ dq @ ws2 @ CHR '':'' # ws3 @ u @ cs =
        (ws0 @ dq @ kt @ dq @ ws4 @ CHR '':'' # ws5 @ t @ ws @ CHR '','' # u2) @ CHR ''}'' # cs' \<and>
      members_grammar point ((k, v) # kvs) (ws0 @ dq @ kt @ dq @ ws4 @ CHR '':'' # ws5 @ t @ ws @ CHR '','' # u2) \<and>
      closes point hs (Json_Object (assign_members m ((k, v) # kvs))) cs' r"
    using r(1,3) mg_more [OF cl_member.prems(3,2,4,5,6) cl_member.hyps(1) r(2)] by simp
  then show ?case by blast
qed simp_all

section \<open>The loop of the parser\<close>

text \<open>The token of \<open>p\<close> begins a value; the value at \<open>p\<close> is complete.\<close>

definition sound_value :: "char \<Rightarrow> parser \<Rightarrow> bool" where
  "sound_value point p \<longleftrightarrow>
     (\<forall>hs d u s pf df. sax_parse_internal False (map is_array hs) p d = Inr (pf, df) \<and> expects hs d \<and>
        token_text point (ps_last_token p) (ps_lexer p) u \<and> lex_point point p s \<longrightarrow>
        (\<exists>t v cs s'. u @ s = t @ cs @ s' \<and> json_grammar point v t \<and> closes point hs v cs (dom_root df) \<and> lex_point point pf s'))"

definition sound_state :: "char \<Rightarrow> parser \<Rightarrow> bool" where
  "sound_state point p \<longleftrightarrow>
     (\<forall>hs v d s pf df. sax_parse_internal True (map is_array hs) p d = Inr (pf, df) \<and> supplied hs v d \<and> lex_point point p s \<longrightarrow>
        (\<exists>cs s'. s = cs @ s' \<and> closes point hs v cs (dom_root df) \<and> lex_point point pf s'))"

lemma sound_stateD:
  assumes "sound_state point p" and "sax_parse_internal True (map is_array hs) p d = Inr (pf, df)" and "supplied hs v d"
    and "lex_point point p s"
  obtains cs s' where "s = cs @ s'" "closes point hs v cs (dom_root df)" "lex_point point pf s'"
  using assms unfolding sound_state_def by blast

lemma sax_turn:
  assumes "sax_parse_internal skip states p d = Inr (pf, df)"
  obtains skip' states' p' d' where "parse_turn skip states p d = Continue skip' states' p' d'"
      "sax_parse_internal skip' states' p' d' = Inr (pf, df)" "parse_measure p' < parse_measure p"
    | "parse_turn skip states p d = Return pf df"
  using assms parse_turn_measure
  by (cases "parse_turn skip states p d") (auto simp: sax_parse_internal.simps [of skip states p d])

lemma sax_value_token:
  assumes "sax_parse_internal False states p d = Inr (pf, df)"
  shows "ps_last_token p \<noteq> Tok_parse_error" "ps_last_token p \<noteq> Tok_end_of_input"
  using assms by (cases rule: sax_turn [OF assms]; auto simp: parse_turn_def parse_value_def)+

lemma mark_was_read:
  assumes "lex_point point p s" and "ps_last_token (get_token p) = tok"
    and "(c, tok) \<in> {(CHR ''['', Tok_begin_array), (CHR '']'', Tok_end_array), (CHR ''{'', Tok_begin_object),
      (CHR ''}'', Tok_end_object), (CHR '':'', Tok_name_separator), (CHR '','', Tok_value_separator)}"
  obtains ws s' where "s = ws @ c # s'" "list_all white ws" "lex_point point (get_token p) s'"
proof -
  have "ps_last_token (get_token p) \<noteq> Tok_parse_error" "ps_last_token (get_token p) \<noteq> Tok_end_of_input" using assms(2,3) by auto
  then obtain ws t s' where "s = ws @ t @ s'" "list_all white ws"
      "token_text point (ps_last_token (get_token p)) (ps_lexer (get_token p)) t" "lex_point point (get_token p) s'"
    using get_token_was_read [OF assms(1)] by metis
  then show thesis using that assms(2,3) by auto
qed

lemma key_was_read:
  assumes "lex_point point p s" and "ps_last_token (get_token p) = Tok_value_string"
    and "ps_last_token (get_token (get_token p)) = Tok_name_separator"
  obtains ws kt ws1 s' where "s = ws @ dq @ kt @ dq @ ws1 @ CHR '':'' # s'" "list_all white ws" "list_all white ws1"
    "string_text (lx_token_buffer (ps_lexer (get_token p))) kt" "lex_point point (get_token (get_token p)) s'"
proof -
  have "ps_last_token (get_token p) \<noteq> Tok_parse_error" "ps_last_token (get_token p) \<noteq> Tok_end_of_input" using assms(2) by auto
  then obtain ws t s1 where t: "s = ws @ t @ s1" "list_all white ws"
      "token_text point (ps_last_token (get_token p)) (ps_lexer (get_token p)) t" "lex_point point (get_token p) s1"
    using get_token_was_read [OF assms(1)] by metis
  obtain kt where kt: "t = dq @ kt @ dq" "string_text (lx_token_buffer (ps_lexer (get_token p))) kt" using t(3) assms(2) by auto
  obtain ws1 s' where "s1 = ws1 @ CHR '':'' # s'" "list_all white ws1" "lex_point point (get_token (get_token p)) s'"
    using mark_was_read [OF t(4) assms(3), of "CHR '':''"] by auto
  then show thesis using that [of ws kt ws1 s'] t(1,2) kt by simp
qed

text \<open>The next token begins a value.\<close>

lemma sound_next:
  assumes "sound_value point (get_token p)" and "sax_parse_internal False (map is_array hs) (get_token p) d = Inr (pf, df)"
    and "expects hs d" and "lex_point point p s"
  obtains ws t v cs s' where "s = ws @ t @ cs @ s'" "list_all white ws" "json_grammar point v t"
    "closes point hs v cs (dom_root df)" "lex_point point pf s'"
proof -
  obtain ws u s1 where u: "s = ws @ u @ s1" "list_all white ws"
      "token_text point (ps_last_token (get_token p)) (ps_lexer (get_token p)) u" "lex_point point (get_token p) s1"
    using get_token_was_read [OF assms(4) sax_value_token [OF assms(2)]] .
  obtain t v cs s' where r: "u @ s1 = t @ cs @ s'" "json_grammar point v t" "closes point hs v cs (dom_root df)" "lex_point point pf s'"
    using assms(1) [unfolded sound_value_def, rule_format, of hs d pf df u s1] assms(2,3) u(3,4) by blast
  show thesis by (rule that [OF _ u(2) r(2-4)]) (use u(1) r(1) in simp)
qed

lemma array_state:
  assumes IH: "\<And>p'. parse_measure p' < parse_measure p \<Longrightarrow> sound_value point p' \<and> sound_state point p'"
    and run: "sax_parse_internal True (True # map is_array hs) p d = Inr (pf, df)"
    and sup: "supplied (In_Array xs # hs) v d" and at: "lex_point point p s"
  shows "\<exists>cs s'. s = cs @ s' \<and> closes point (In_Array xs # hs) v cs (dom_root df) \<and> lex_point point pf s'"
proof (cases rule: sax_turn [OF run])
  case (1 skip' states' p' d')
  have "ps_last_token (get_token p) = Tok_value_separator \<or> ps_last_token (get_token p) = Tok_end_array"
    using 1(1) by (auto simp: parse_turn_def parse_state_def Let_def split: if_splits)
  then show ?thesis
  proof
    assume t: "ps_last_token (get_token p) = Tok_value_separator"
    then have e: "skip' = False" "states' = map is_array (In_Array (xs @ [v]) # hs)" "p' = get_token (get_token p)" "d' = d"
      using 1(1) by (auto simp: parse_turn_def parse_state_def Let_def)
    obtain ws s1 where s1: "s = ws @ CHR '','' # s1" "list_all white ws" "lex_point point (get_token p) s1"
      using mark_was_read [OF at t, of "CHR '',''"] by auto
    have sv: "sound_value point (get_token (get_token p))" using IH [OF 1(3)] e(3) by simp
    have nxt: "sax_parse_internal False (map is_array (In_Array (xs @ [v]) # hs)) (get_token (get_token p)) d = Inr (pf, df)"
      using 1(2) e by simp
    obtain ws1 u v' cs s' where r: "s1 = ws1 @ u @ cs @ s'" "list_all white ws1" "json_grammar point v' u"
        "closes point (In_Array (xs @ [v]) # hs) v' cs (dom_root df)" "lex_point point pf s'"
      using sound_next [OF sv nxt supplied_more(1) [OF sup] s1(3)] .
    have "s = (ws @ CHR '','' # ws1 @ u @ cs) @ s'" using s1(1) r(1) by simp
    then show ?thesis using cl_element [OF s1(2) r(2-4)] r(5) by blast
  next
    assume t: "ps_last_token (get_token p) = Tok_end_array"
    then have e: "skip' = True" "states' = map is_array hs" "p' = get_token p" "d' = dom_end d"
      using 1(1) by (auto simp: parse_turn_def parse_state_def Let_def)
    obtain ws s1 where s1: "s = ws @ CHR '']'' # s1" "list_all white ws" "lex_point point (get_token p) s1"
      using mark_was_read [OF at t, of "CHR '']''"] by auto
    have ss: "sound_state point (get_token p)" using IH [OF 1(3)] e(3) by simp
    have nxt: "sax_parse_internal True (map is_array hs) (get_token p) (dom_end d) = Inr (pf, df)" using 1(2) e by simp
    obtain cs s' where r: "s1 = cs @ s'" "closes point hs (Json_Array (xs @ [v])) cs (dom_root df)" "lex_point point pf s'"
      using sound_stateD [OF ss nxt supplied_end [OF sup] s1(3)] by auto
    have "s = (ws @ CHR '']'' # cs) @ s'" using s1(1) r(1) by simp
    then show ?thesis using cl_array [OF s1(2) r(2)] r(3) by blast
  qed
next
  case 2
  then show ?thesis by (auto simp: parse_turn_def parse_state_def Let_def split: if_splits)
qed

lemma object_state:
  assumes IH: "\<And>p'. parse_measure p' < parse_measure p \<Longrightarrow> sound_value point p' \<and> sound_state point p'"
    and run: "sax_parse_internal True (False # map is_array hs) p d = Inr (pf, df)"
    and sup: "supplied (In_Object m k # hs) v d" and at: "lex_point point p s"
  shows "\<exists>cs s'. s = cs @ s' \<and> closes point (In_Object m k # hs) v cs (dom_root df) \<and> lex_point point pf s'"
proof (cases rule: sax_turn [OF run])
  case (1 skip' states' p' d')
  have "ps_last_token (get_token p) = Tok_value_separator \<or> ps_last_token (get_token p) = Tok_end_object"
    using 1(1) by (auto simp: parse_turn_def parse_state_def Let_def split: if_splits)
  then show ?thesis
  proof
    assume t: "ps_last_token (get_token p) = Tok_value_separator"
    let ?p1 = "get_token p"
    let ?k = "lx_token_buffer (ps_lexer (get_token ?p1))"
    have e: "skip' = False" "states' = map is_array (In_Object (map_assign m k v) ?k # hs)"
        "p' = get_token (get_token (get_token ?p1))" "d' = dom_key ?k d"
        "ps_last_token (get_token ?p1) = Tok_value_string" "ps_last_token (get_token (get_token ?p1)) = Tok_name_separator"
      using 1(1) t by (auto simp: parse_turn_def parse_state_def Let_def split: if_splits)
    obtain ws s1 where s1: "s = ws @ CHR '','' # s1" "list_all white ws" "lex_point point ?p1 s1"
      using mark_was_read [OF at t, of "CHR '',''"] by auto
    obtain ws1 kt ws2 s2 where s2: "s1 = ws1 @ dq @ kt @ dq @ ws2 @ CHR '':'' # s2" "list_all white ws1" "list_all white ws2"
        "string_text ?k kt" "lex_point point (get_token (get_token ?p1)) s2"
      using key_was_read [OF s1(3) e(5,6)] .
    have sv: "sound_value point (get_token (get_token (get_token ?p1)))" using IH [OF 1(3)] e(3) by simp
    have nxt: "sax_parse_internal False (map is_array (In_Object (map_assign m k v) ?k # hs)) (get_token (get_token (get_token ?p1)))
        (dom_key ?k d) = Inr (pf, df)"
      using 1(2) e(1-4) by simp
    obtain ws3 u v' cs s' where r: "s2 = ws3 @ u @ cs @ s'" "list_all white ws3" "json_grammar point v' u"
        "closes point (In_Object (map_assign m k v) ?k # hs) v' cs (dom_root df)" "lex_point point pf s'"
      using sound_next [OF sv nxt supplied_more(2) [OF sup] s2(5)] .
    have "s = (ws @ CHR '','' # ws1 @ dq @ kt @ dq @ ws2 @ CHR '':'' # ws3 @ u @ cs) @ s'" using s1(1) s2(1) r(1) by simp
    then show ?thesis using cl_member [OF s1(2) s2(2,3) r(2) s2(4) r(3,4)] r(5) by blast
  next
    assume t: "ps_last_token (get_token p) = Tok_end_object"
    then have e: "skip' = True" "states' = map is_array hs" "p' = get_token p" "d' = dom_end d"
      using 1(1) by (auto simp: parse_turn_def parse_state_def Let_def)
    obtain ws s1 where s1: "s = ws @ CHR ''}'' # s1" "list_all white ws" "lex_point point (get_token p) s1"
      using mark_was_read [OF at t, of "CHR ''}''"] by auto
    have ss: "sound_state point (get_token p)" using IH [OF 1(3)] e(3) by simp
    have nxt: "sax_parse_internal True (map is_array hs) (get_token p) (dom_end d) = Inr (pf, df)" using 1(2) e by simp
    obtain cs s' where r: "s1 = cs @ s'" "closes point hs (Json_Object (map_assign m k v)) cs (dom_root df)" "lex_point point pf s'"
      using sound_stateD [OF ss nxt supplied_end [OF sup] s1(3)] by auto
    have "s = (ws @ CHR ''}'' # cs) @ s'" using s1(1) r(1) by simp
    then show ?thesis using cl_object [OF s1(2) r(2)] r(3) by blast
  qed
next
  case 2
  then show ?thesis by (auto simp: parse_turn_def parse_state_def Let_def split: if_splits)
qed

lemma state_sound:
  assumes IH: "\<And>p'. parse_measure p' < parse_measure p \<Longrightarrow> sound_value point p' \<and> sound_state point p'"
  shows "sound_state point p"
  unfolding sound_state_def
proof (intro allI impI, elim conjE)
  fix hs v d s pf df
  assume a: "sax_parse_internal True (map is_array hs) p d = Inr (pf, df)" "supplied hs v d" "lex_point point p s"
  show "\<exists>cs s'. s = cs @ s' \<and> closes point hs v cs (dom_root df) \<and> lex_point point pf s'"
  proof (cases hs)
    case Nil
    then have "pf = p" "df = d" using a(1) by (auto simp: sax_parse_internal.simps [of True] parse_turn_def parse_state_def)
    moreover have "closes point [] v [] (dom_root d)" using a(2) Nil by (simp add: supplied_def cl_root)
    ultimately show ?thesis using Nil a(3) by (metis append_Nil)
  next
    case (Cons h hs')
    then show ?thesis
      using array_state [OF IH] object_state [OF IH] a by (cases h) auto
  qed
qed

text \<open>A container begins.\<close>

lemma array_value:
  assumes IH: "\<And>p'. parse_measure p' < parse_measure p \<Longrightarrow> sound_value point p' \<and> sound_state point p'"
    and run: "sax_parse_internal False (map is_array hs) p d = Inr (pf, df)" and ex: "expects hs d"
    and tok: "ps_last_token p = Tok_begin_array" and at: "lex_point point p s"
  shows "\<exists>t v cs s'. CHR ''['' # s = t @ cs @ s' \<and> json_grammar point v t \<and> closes point hs v cs (dom_root df) \<and> lex_point point pf s'"
proof (cases "ps_last_token (get_token p) = Tok_end_array")
  case True
  obtain ws s1 where s1: "s = ws @ CHR '']'' # s1" "list_all white ws" "lex_point point (get_token p) s1"
    using mark_was_read [OF at True, of "CHR '']''"] by auto
  have "parse_value (map is_array hs) p d = Inr (get_token p, dom_end (dom_start_array d))"
    using tok True by (simp add: parse_value_def parse_array_start_def Let_def)
  from sax_value [OF this] run have r: "sax_parse_internal True (map is_array hs) (get_token p) (dom_end (dom_start_array d)) = Inr (pf, df)" by simp
  have "parse_measure (get_token p) < parse_measure p" using tok by (intro get_token_measure) (simp add: stop_token_def)
  then have "sound_state point (get_token p)" using IH by blast
  then obtain cs s' where c: "s1 = cs @ s'" "closes point hs (Json_Array []) cs (dom_root df)" "lex_point point pf s'"
    using sound_stateD [OF _ r expects_array(2) [OF ex] s1(3)] by blast
  have "CHR ''['' # s = (CHR ''['' # ws @ '']'') @ cs @ s'" using s1(1) c(1) by simp
  then show ?thesis using jg_no_elements [OF s1(2)] c(2,3) by blast
next
  case False
  then have turn: "parse_turn False (map is_array hs) p d = Continue False (map is_array (In_Array [] # hs)) (get_token p) (dom_start_array d)"
    using tok by (simp add: parse_turn_def parse_value_def parse_array_start_def Let_def)
  have run': "sax_parse_internal False (map is_array (In_Array [] # hs)) (get_token p) (dom_start_array d) = Inr (pf, df)"
    using sax_continue [OF turn] run by simp
  have sv: "sound_value point (get_token p)" using IH [OF parse_turn_measure [OF turn]] by blast
  obtain ws t v cs s' where r: "s = ws @ t @ cs @ s'" "list_all white ws" "json_grammar point v t"
      "closes point (In_Array [] # hs) v cs (dom_root df)" "lex_point point pf s'"
    using sound_next [OF sv run' expects_array(1) [OF ex] at] .
  obtain vs u cs' where u: "ws @ t @ cs = u @ CHR '']'' # cs'" "elements_grammar point (v # vs) u"
      "closes point hs (Json_Array ([] @ v # vs)) cs' (dom_root df)"
    using closes_array [OF r(4) refl r(3,2)] by blast
  have "s = (ws @ t @ cs) @ s'" using r(1) by simp
  then have "CHR ''['' # s = (CHR ''['' # u @ '']'') @ cs' @ s'" unfolding u(1) by simp
  then show ?thesis using jg_array [OF u(2)] u(3) r(5) by (metis append_Nil)
qed

lemma object_value:
  assumes IH: "\<And>p'. parse_measure p' < parse_measure p \<Longrightarrow> sound_value point p' \<and> sound_state point p'"
    and run: "sax_parse_internal False (map is_array hs) p d = Inr (pf, df)" and ex: "expects hs d"
    and tok: "ps_last_token p = Tok_begin_object" and at: "lex_point point p s"
  shows "\<exists>t v cs s'. CHR ''{'' # s = t @ cs @ s' \<and> json_grammar point v t \<and> closes point hs v cs (dom_root df) \<and> lex_point point pf s'"
proof (cases "ps_last_token (get_token p) = Tok_end_object")
  case True
  obtain ws s1 where s1: "s = ws @ CHR ''}'' # s1" "list_all white ws" "lex_point point (get_token p) s1"
    using mark_was_read [OF at True, of "CHR ''}''"] by auto
  have "parse_value (map is_array hs) p d = Inr (get_token p, dom_end (dom_start_object d))"
    using tok True by (simp add: parse_value_def parse_object_start_def Let_def)
  from sax_value [OF this] run have r: "sax_parse_internal True (map is_array hs) (get_token p) (dom_end (dom_start_object d)) = Inr (pf, df)" by simp
  have "parse_measure (get_token p) < parse_measure p" using tok by (intro get_token_measure) (simp add: stop_token_def)
  then have "sound_state point (get_token p)" using IH by blast
  then obtain cs s' where c: "s1 = cs @ s'" "closes point hs (Json_Object []) cs (dom_root df)" "lex_point point pf s'"
    using sound_stateD [OF _ r expects_object(2) [OF ex] s1(3)] by blast
  have "CHR ''{'' # s = (CHR ''{'' # ws @ ''}'') @ cs @ s'" using s1(1) c(1) by simp
  then show ?thesis using jg_no_members [OF s1(2)] c(2,3) by blast
next
  case False
  let ?k = "lx_token_buffer (ps_lexer (get_token p))"
  have key: "ps_last_token (get_token p) = Tok_value_string" "ps_last_token (get_token (get_token p)) = Tok_name_separator"
    using run tok False
    by (auto simp: sax_parse_internal.simps [of False "map is_array hs" p d] parse_turn_def parse_value_def parse_object_start_def
        Let_def split: if_splits)
  have turn: "parse_turn False (map is_array hs) p d =
      Continue False (map is_array (In_Object [] ?k # hs)) (get_token (get_token (get_token p))) (dom_key ?k (dom_start_object d))"
    using tok False key by (simp add: parse_turn_def parse_value_def parse_object_start_def Let_def)
  have run': "sax_parse_internal False (map is_array (In_Object [] ?k # hs)) (get_token (get_token (get_token p)))
      (dom_key ?k (dom_start_object d)) = Inr (pf, df)"
    using sax_continue [OF turn] run by simp
  have sv: "sound_value point (get_token (get_token (get_token p)))" using IH [OF parse_turn_measure [OF turn]] by blast
  obtain ws0 kt ws1 s1 where s1: "s = ws0 @ dq @ kt @ dq @ ws1 @ CHR '':'' # s1" "list_all white ws0" "list_all white ws1"
      "string_text ?k kt" "lex_point point (get_token (get_token p)) s1"
    using key_was_read [OF at key] .
  obtain ws t v cs s' where r: "s1 = ws @ t @ cs @ s'" "list_all white ws" "json_grammar point v t"
      "closes point (In_Object [] ?k # hs) v cs (dom_root df)" "lex_point point pf s'"
    using sound_next [OF sv run' expects_object(1) [OF ex] s1(5)] .
  obtain kvs u cs' where u: "ws0 @ dq @ kt @ dq @ ws1 @ CHR '':'' # ws @ t @ cs = u @ CHR ''}'' # cs'" "members_grammar point kvs u"
      "closes point hs (Json_Object (assign_members [] kvs)) cs' (dom_root df)"
    using closes_object [OF r(4) refl r(3) s1(4,2,3) r(2)] by blast
  have "s = (ws0 @ dq @ kt @ dq @ ws1 @ CHR '':'' # ws @ t @ cs) @ s'" using s1(1) r(1) by simp
  then have "CHR ''{'' # s = (CHR ''{'' # u @ ''}'') @ cs' @ s'" unfolding u(1) by simp
  then show ?thesis using jg_object [OF u(2)] u(3) r(5) by blast
qed

text \<open>The value of a token that is not a bracket.\<close>

fun token_json :: "token_type \<Rightarrow> lexer \<Rightarrow> json" where
  "token_json Tok_literal_null l = Json_Null"
| "token_json Tok_literal_true l = Json_Boolean True"
| "token_json Tok_literal_false l = Json_Boolean False"
| "token_json Tok_value_string l = Json_String (lx_token_buffer l)"
| "token_json t l = token_value (t, l)"

lemma number_token_grammar:
  assumes "number_token_text point t l u" and "finite_number (token_value (t, l))"
  shows "json_grammar point (token_value (t, l)) u"
proof -
  obtain neg w f x where n: "u = parts_text (CHR ''.'') neg w f x" "number_parts w f x" "token_value (t, l) = parts_value point neg w f x"
    using assms(1) unfolding number_token_text_def by blast
  show ?thesis unfolding n(1) by (rule jg_number [OF n(2,3) assms(2)])
qed

lemma scalar_grammar:
  assumes "parse_value states p d = Inr (p', d')" and "token_text point (ps_last_token p) (ps_lexer p) u"
    and "ps_last_token p \<noteq> Tok_begin_array" and "ps_last_token p \<noteq> Tok_begin_object"
  shows "p' = p \<and> d' = dom_value (token_json (ps_last_token p) (ps_lexer p)) d \<and>
    json_grammar point (token_json (ps_last_token p) (ps_lexer p)) u"
proof -
  have s: "string_text k t \<Longrightarrow> json_grammar point (Json_String k) (CHR 0x22 # t @ [CHR 0x22])" for k t
    using jg_string [of k t point] by simp
  show ?thesis
    using assms number_token_grammar [of point "ps_last_token p" "ps_lexer p" u]
    by (cases "ps_last_token p") (auto simp: parse_value_def Let_def jg_null jg_true jg_false s split: if_splits)
qed

lemma value_sound:
  assumes IH: "\<And>p'. parse_measure p' < parse_measure p \<Longrightarrow> sound_value point p' \<and> sound_state point p'"
  shows "sound_value point p"
  unfolding sound_value_def
proof (intro allI impI, elim conjE)
  fix hs d u s pf df
  assume a: "sax_parse_internal False (map is_array hs) p d = Inr (pf, df)" "expects hs d"
    "token_text point (ps_last_token p) (ps_lexer p) u" "lex_point point p s"
  show "\<exists>t v cs s'. u @ s = t @ cs @ s' \<and> json_grammar point v t \<and> closes point hs v cs (dom_root df) \<and> lex_point point pf s'"
  proof (cases "ps_last_token p = Tok_begin_array \<or> ps_last_token p = Tok_begin_object")
    case True
    then show ?thesis
      using array_value [OF IH a(1,2) _ a(4)] object_value [OF IH a(1,2) _ a(4)] a(3) by auto
  next
    case False
    let ?v = "token_json (ps_last_token p) (ps_lexer p)"
    obtain p' d' where pv: "parse_value (map is_array hs) p d = Inr (p', d')"
      using a(1,3) False by (cases "ps_last_token p")
        (auto simp: sax_parse_internal.simps [of False "map is_array hs" p d] parse_turn_def parse_value_def Let_def split: if_splits)
    have g: "p' = p" "d' = dom_value ?v d" "json_grammar point ?v u" using scalar_grammar [OF pv a(3)] False by auto
    have "sax_parse_internal True (map is_array hs) p (dom_value ?v d) = Inr (pf, df)" using sax_value [OF pv] a(1) g(1,2) by simp
    then obtain cs s' where "s = cs @ s'" "closes point hs ?v cs (dom_root df)" "lex_point point pf s'"
      using sound_stateD [OF state_sound [OF IH] _ expects_value [OF a(2)] a(4)] by blast
    then show ?thesis using g(3) by blast
  qed
qed

lemma parser_sound: "sound_value point p \<and> sound_state point p"
proof (induction "parse_measure p" arbitrary: p rule: less_induct)
  case less
  then show ?case using value_sound [of p point] state_sound [of p point] by blast
qed

section \<open>Documents\<close>

text \<open>The first token: a byte order mark is skipped.\<close>

lemma bom_codes:
  "(of_char c :: nat) = 0xEF \<longleftrightarrow> c = CHR 0xEF"
  "(of_char c :: nat) = 0xBB \<longleftrightarrow> c = CHR 0xBB"
  "(of_char c :: nat) = 0xBF \<longleftrightarrow> c = CHR 0xBF"
  using of_char_eq_iff [of c "CHR 0xEF", where 'a = nat]
    of_char_eq_iff [of c "CHR 0xBB", where 'a = nat]
    of_char_eq_iff [of c "CHR 0xBF", where 'a = nat]
  by (simp_all del: of_char_eq_iff)

lemma skip_bom_was_read:
  assumes "skip_bom (lexer_new point input) = (True, l1)"
  obtains bom s where "input = bom @ s" "bom = [] \<or> bom = byte_order_mark" "reads l1 s"
proof -
  let ?l = "lexer_new point input"
  have r: "reads ?l input" by (simp add: reads_def lx_remaining_def lexer_new_def)
  show thesis
  proof (cases "lx_current (lx_get ?l) = 0xEF")
    case False
    then have l1: "l1 = lx_unget (lx_get ?l)" using assms by (simp add: skip_bom_def Let_def)
    have "reads l1 input"
      unfolding l1 by (cases rule: lx_get_cases [OF r]) (auto intro!: reads_unget reads_unget_eof)
    then show thesis using that [of "[]" input] by simp
  next
    case True
    then have b: "lx_current (lx_get (lx_get ?l)) = 0xBB" "lx_current (lx_get (lx_get (lx_get ?l))) = 0xBF"
        "l1 = lx_get (lx_get (lx_get ?l))"
      using assms by (auto simp: skip_bom_def Let_def split: if_splits)
    obtain s1 where s1: "input = CHR 0xEF # s1" "reads (lx_get ?l) s1"
      using True by (cases rule: lx_get_cases [OF r]) (auto simp: bom_codes eof_def)
    obtain s2 where s2: "s1 = CHR 0xBB # s2" "reads (lx_get (lx_get ?l)) s2"
      using b(1) by (cases rule: lx_get_cases [OF s1(2)]) (auto simp: bom_codes eof_def)
    obtain s3 where s3: "s2 = CHR 0xBF # s3" "reads l1 s3"
      using b(2) unfolding b(3) by (cases rule: lx_get_cases [OF s2(2)]) (auto simp: bom_codes eof_def)
    show thesis using that [of byte_order_mark s3] s1(1) s2(1) s3 by (simp add: byte_order_mark_def)
  qed
qed

lemma first_token_was_read:
  assumes "ps_last_token (parser_new point input) \<noteq> Tok_parse_error" and "ps_last_token (parser_new point input) \<noteq> Tok_end_of_input"
  obtains bom ws t s where "input = bom @ ws @ t @ s" "bom = [] \<or> bom = byte_order_mark" "list_all white ws"
    "token_text point (ps_last_token (parser_new point input)) (ps_lexer (parser_new point input)) t"
    "lex_point point (parser_new point input) s"
proof -
  let ?l = "lexer_new point input"
  let ?p = "parser_new point input"
  obtain ok l1 where b: "skip_bom ?l = (ok, l1)" by fastforce
  have e: "scan ?l = (if \<not> ok then lx_fail ''invalid BOM; must be 0xEF 0xBB 0xBF if given'' l1 else scan_token (skip_whitespace l1))"
    by (simp add: scan_def b) (simp add: lexer_new_def)
  have ok: "ok"
  proof (rule ccontr)
    assume "\<not> ok"
    then show False using assms(1) by (simp add: parser_new_def get_token_def e lx_fail_def)
  qed
  have p: "?p = \<lparr>ps_last_token = fst (scan_token (skip_whitespace l1)), ps_lexer = snd (scan_token (skip_whitespace l1))\<rparr>"
    using ok by (simp add: parser_new_def get_token_def e case_prod_beta)
  obtain bom s where s: "input = bom @ s" "bom = [] \<or> bom = byte_order_mark" "reads l1 s"
    using skip_bom_was_read b ok by metis
  have pt: "lx_decimal_point (skip_whitespace l1) = point"
  proof -
    have "lx_decimal_point (snd (skip_bom ?l)) = lx_decimal_point ?l" by (simp add: skip_bom_def Let_def)
    then show ?thesis by (simp add: b) (simp add: lexer_new_def)
  qed
  have lp: "lx_decimal_point (ps_lexer ?p) = point" by (simp add: parser_new_def) (simp add: lexer_new_def)
  show thesis
  proof (cases rule: skip_whitespace_was_read [OF s(3)])
    case 1
    then show thesis using assms(2) p by (simp add: scan_token_def Let_def is_digit_def eof_def)
  next
    case (2 ws c s1)
    obtain u s' where u: "c # s1 = u @ s'"
        "token_text (lx_decimal_point (skip_whitespace l1)) (ps_last_token ?p) (ps_lexer ?p) u" "lex_at (ps_lexer ?p) s'"
      using scan_token_was_read [OF 2(4), of "ps_last_token ?p" "ps_lexer ?p"] assms p by auto
    show thesis using that [OF _ s(2) 2(2), of u s'] u 2(1) s(1) pt lp by (simp add: lex_point_def)
  qed
qed

lemma scan_number_not_end: "fst (scan_number l) \<noteq> Tok_end_of_input"
proof -
  have d: "fst (scan_number_done t k) \<noteq> Tok_end_of_input" for t k
    by (simp add: scan_number_done_def Let_def split: option.splits)
  have f: "fst (lx_fail m k) \<noteq> Tok_end_of_input" for m k by (simp add: lx_fail_def)
  have a2: "fst (scan_number_any2 t k) \<noteq> Tok_end_of_input" for t k
    by (induction t k rule: scan_number_any2.induct) (subst scan_number_any2.simps, simp add: Let_def d)
  have e: "fst (scan_number_exponent k) \<noteq> Tok_end_of_input" for k
    by (simp add: scan_number_exponent_def scan_number_sign_def Let_def a2 f)
  have d2: "fst (scan_number_decimal2 t k) \<noteq> Tok_end_of_input" for t k
    by (induction t k rule: scan_number_decimal2.induct) (subst scan_number_decimal2.simps, simp add: Let_def d e)
  have d1: "fst (scan_number_decimal1 k) \<noteq> Tok_end_of_input" for k
    by (simp add: scan_number_decimal1_def Let_def d2 f)
  have z: "fst (scan_number_zero t k) \<noteq> Tok_end_of_input" for t k
    by (simp add: scan_number_zero_def Let_def d d1 e)
  have a1: "fst (scan_number_any1 t k) \<noteq> Tok_end_of_input" for t k
    by (induction t k rule: scan_number_any1.induct) (subst scan_number_any1.simps, simp add: Let_def d d1 e)
  show ?thesis by (simp add: scan_number_def scan_number_minus_def Let_def z a1 f)
qed

lemma scan_token_end:
  assumes "fst (scan_token l) = Tok_end_of_input" and "lx_current l = int (of_char c)"
  shows "c = CHR 0x00"
proof -
  have nul: "(of_char c :: nat) = 0 \<longleftrightarrow> c = CHR 0x00"
    using of_char_eq_iff [of c "CHR 0x00", where 'a = nat] by (simp del: of_char_eq_iff)
  have literal: "t \<noteq> Tok_end_of_input \<Longrightarrow> fst (scan_literal x t l) \<noteq> Tok_end_of_input" for x t
  proof -
    have "t \<noteq> Tok_end_of_input \<Longrightarrow> fst (scan_literal_loop xs t k) \<noteq> Tok_end_of_input" for xs k
      by (induction xs arbitrary: k) (auto simp: Let_def lx_fail_def)
    then show "t \<noteq> Tok_end_of_input \<Longrightarrow> fst (scan_literal x t l) \<noteq> Tok_end_of_input" by (simp add: scan_literal_def)
  qed
  have number: "fst (scan_number l) \<noteq> Tok_end_of_input" by (rule scan_number_not_end)
  show ?thesis
    using assms literal number scan_string_token [of l]
    by (auto simp: scan_token_def Let_def lx_fail_def nul split: if_splits)
qed

lemma end_was_read:
  assumes "lex_point point p s" and "ps_last_token (get_token p) = Tok_end_of_input"
  obtains ws rest where "s = ws @ rest" "list_all white ws" "input_ends rest"
proof -
  let ?l = "ps_lexer p"
  have r: "reads ?l s" "0 < lx_chars_read ?l" using assms(1) by (auto simp: lex_point_def lex_at_def)
  have g: "fst (scan_token (skip_whitespace ?l)) = Tok_end_of_input"
    using assms(2) r(2) by (simp add: get_token_def scan_def case_prod_beta)
  show thesis
  proof (cases rule: skip_whitespace_was_read [OF r(1)])
    case 1
    then show thesis using that [of s "[]"] by (simp add: input_ends_def)
  next
    case (2 ws c s1)
    then have "lx_current (skip_whitespace ?l) = int (of_char c)" by (simp add: begun_def)
    then have "c = CHR 0x00" using g scan_token_end [of "skip_whitespace ?l" c] by simp
    then show thesis using that [of ws "c # s1"] 2(1,2) by (simp add: input_ends_def)
  qed
qed

lemma accepted_document:
  assumes "json_parse point input = Inr v"
  shows "\<exists>doc rest. input = doc @ rest \<and> json_document point v doc \<and> input_ends rest"
proof -
  let ?p = "parser_new point input"
  obtain pf df where run: "sax_parse_internal False [] ?p (dom_new Json_Null) = Inr (pf, df)"
      "ps_last_token (get_token pf) = Tok_end_of_input" "v = dom_root df"
    using assms by (auto simp: json_parse_def Let_def split: sum.splits if_splits)
  obtain bom ws t s where s: "input = bom @ ws @ t @ s" "bom = [] \<or> bom = byte_order_mark" "list_all white ws"
      "token_text point (ps_last_token ?p) (ps_lexer ?p) t" "lex_point point ?p s"
    using first_token_was_read [OF sax_value_token [OF run(1)]] .
  have "sax_parse_internal False (map is_array []) ?p (dom_new Json_Null) = Inr (pf, df)" using run(1) by simp
  then obtain u w cs s1 where u: "t @ s = u @ cs @ s1" "json_grammar point w u" "closes point [] w cs (dom_root df)" "lex_point point pf s1"
    using parser_sound [of point ?p] expects_root s(4,5) unfolding sound_value_def by blast
  have c: "cs = []" "w = v" using u(3) run(3) by (auto elim: closes_rootE)
  obtain ws' rest where e: "s1 = ws' @ rest" "list_all white ws'" "input_ends rest" using end_was_read [OF u(4) run(2)] .
  have "json_document point v (bom @ ws @ u @ ws')"
    unfolding json_document_def using s(2,3) e(2) u(2) c(2) by blast
  moreover have "input = (bom @ ws @ u @ ws') @ rest" using s(1) u(1) c(1) e(1) by simp
  ultimately show ?thesis using e(3) by blast
qed

text \<open>C7: the parser accepts exactly the JSON texts. A text is accepted, with the value
  \<open>v\<close>, if and only if it is a document of the grammar that denotes \<open>v\<close> (white space, any
  order of the members, every escape and number format of RFC 8259, an optional byte order
  mark), followed by nothing, or by a NUL and any bytes at all: the lexer takes a NUL for the
  end of its input.\<close>

theorem parser_accepts_exactly_json:
  "json_parse point input = Inr v \<longleftrightarrow>
     (\<exists>doc rest. input = doc @ rest \<and> json_document point v doc \<and> input_ends rest)"
  using accepted_document document_accepted by blast

end
