(* ===== verification/Database_Spec.thy ===== *)
theory Database_Spec
  imports Std_Containers
begin

text \<open>
  The \<open>Database\<close> interface (\<open>database.h\<close>) on which the access monitor
  \<open>AnonymBE<Database>\<close> is a template: the table of its operations, an abstract
  specification of what a store of users, keys and groups promises, and the locale
  \<open>user_store\<close> that ties the two by a simulation. A store that satisfies the
  locale gives the monitor everything it relies on; the in-memory database is shown to
  be one in \<open>Memory_Database\<close>.
\<close>

section \<open>The operations\<close>

definition KEY_SIZE :: nat where
  "KEY_SIZE = 32"

text \<open>
  The template parameter \<open>Database\<close>. Every operation takes the state of the store,
  may change it, and returns or throws. A key array (\<open>KeyArray\<close>) is the list of its
  32-byte entries.
\<close>

record 'db database_ops =
  db_init :: "string \<Rightarrow> 'db \<Rightarrow> bool result \<times> 'db"
  db_add_user_to_group :: "string \<Rightarrow> string \<Rightarrow> 'db \<Rightarrow> unit result \<times> 'db"
  db_create_user :: "string \<Rightarrow> string \<Rightarrow> 'db \<Rightarrow> unit result \<times> 'db"
  db_delete_user :: "string \<Rightarrow> 'db \<Rightarrow> unit result \<times> 'db"
  db_create_group :: "string \<Rightarrow> string \<Rightarrow> 'db \<Rightarrow> unit result \<times> 'db"
  db_is_user_part_of_group :: "string \<Rightarrow> string \<Rightarrow> 'db \<Rightarrow> bool result \<times> 'db"
  db_remove_user_from_group :: "string \<Rightarrow> string \<Rightarrow> 'db \<Rightarrow> unit result \<times> 'db"
  db_get_keys_of_group :: "string \<Rightarrow> 'db \<Rightarrow> string list result \<times> 'db"
  db_delete_all_data :: "'db \<Rightarrow> unit result \<times> 'db"

section \<open>The abstract store\<close>

record store =
  st_users :: "string \<rightharpoonup> string"
  st_groups :: "string \<rightharpoonup> string set"

text \<open>What a caller can tell of an outcome: the value, a refusal
  (\<open>std::invalid_argument\<close>), a warning (\<open>std::logic_error\<close>), another failure.\<close>

datatype 'a outcome = Done 'a | Refused | Warned | Failed

fun outcome_of :: "'a result \<Rightarrow> 'a outcome" where
  "outcome_of (Inr x) = Done x"
| "outcome_of (Inl (Invalid_Argument w)) = Refused"
| "outcome_of (Inl (Logic_Error w)) = Warned"
| "outcome_of (Inl _) = Failed"

definition spec_create_user :: "string \<Rightarrow> string \<Rightarrow> store \<Rightarrow> unit outcome \<times> store" where
  "spec_create_user u k st =
     (if u \<in> dom (st_users st) then (Refused, st)
      else (Done (), st\<lparr>st_users := (st_users st)(u \<mapsto> k)\<rparr>))"

definition spec_create_group :: "string \<Rightarrow> string \<Rightarrow> store \<Rightarrow> unit outcome \<times> store" where
  "spec_create_group g u st =
     (if g \<in> dom (st_groups st) \<or> u \<notin> dom (st_users st) then (Refused, st)
      else (Done (), st\<lparr>st_groups := (st_groups st)(g \<mapsto> {u})\<rparr>))"

definition spec_add_user_to_group :: "string \<Rightarrow> string \<Rightarrow> store \<Rightarrow> unit outcome \<times> store" where
  "spec_add_user_to_group g u st =
     (case st_groups st g of
        None \<Rightarrow> (Refused, st)
      | Some M \<Rightarrow>
          if u \<notin> dom (st_users st) then (Refused, st)
          else if u \<in> M then (Warned, st)
          else (Done (), st\<lparr>st_groups := (st_groups st)(g \<mapsto> insert u M)\<rparr>))"

definition spec_remove_user_from_group :: "string \<Rightarrow> string \<Rightarrow> store \<Rightarrow> unit outcome \<times> store" where
  "spec_remove_user_from_group g u st =
     (case st_groups st g of
        None \<Rightarrow> (Refused, st)
      | Some M \<Rightarrow>
          if u \<in> M then (Done (), st\<lparr>st_groups := (st_groups st)(g \<mapsto> M - {u})\<rparr>)
          else (Refused, st))"

definition spec_delete_user :: "string \<Rightarrow> store \<Rightarrow> unit outcome \<times> store" where
  "spec_delete_user u st =
     (Done (), \<lparr>st_users = (st_users st)(u := None),
                st_groups = (\<lambda>g. map_option (\<lambda>M. M - {u}) (st_groups st g))\<rparr>)"

definition spec_is_user_part_of_group :: "string \<Rightarrow> string \<Rightarrow> store \<Rightarrow> bool outcome" where
  "spec_is_user_part_of_group u g st =
     (case st_groups st g of None \<Rightarrow> Refused | Some M \<Rightarrow> Done (u \<in> M))"

definition empty_store :: store where
  "empty_store = \<lparr>st_users = Map.empty, st_groups = Map.empty\<rparr>"

text \<open>The keys of the members of a group.\<close>

definition group_keys :: "store \<Rightarrow> string \<Rightarrow> string set" where
  "group_keys st g = {k. \<exists>M u. st_groups st g = Some M \<and> u \<in> M \<and> st_users st u = Some k}"

section \<open>Histories of requests\<close>

text \<open>The state-changing calls a client of the store can make, and their run.\<close>

datatype db_call =
    Create_User string string
  | Delete_User string
  | Create_Group string string
  | Add_User_To_Group string string
  | Remove_User_From_Group string string
  | Delete_All_Data

fun db_apply :: "'db database_ops \<Rightarrow> db_call \<Rightarrow> 'db \<Rightarrow> unit result \<times> 'db" where
  "db_apply D (Create_User u k) = db_create_user D u k"
| "db_apply D (Delete_User u) = db_delete_user D u"
| "db_apply D (Create_Group g u) = db_create_group D g u"
| "db_apply D (Add_User_To_Group g u) = db_add_user_to_group D g u"
| "db_apply D (Remove_User_From_Group g u) = db_remove_user_from_group D g u"
| "db_apply D Delete_All_Data = db_delete_all_data D"

fun spec_apply :: "db_call \<Rightarrow> store \<Rightarrow> unit outcome \<times> store" where
  "spec_apply (Create_User u k) = spec_create_user u k"
| "spec_apply (Delete_User u) = spec_delete_user u"
| "spec_apply (Create_Group g u) = spec_create_group g u"
| "spec_apply (Add_User_To_Group g u) = spec_add_user_to_group g u"
| "spec_apply (Remove_User_From_Group g u) = spec_remove_user_from_group g u"
| "spec_apply Delete_All_Data = (\<lambda>st. (Done (), empty_store))"

fun db_run :: "'db database_ops \<Rightarrow> db_call list \<Rightarrow> 'db \<Rightarrow> unit result list \<times> 'db" where
  "db_run D [] db = ([], db)"
| "db_run D (c # cs) db =
     (let (r, db1) = db_apply D c db; (rs, db2) = db_run D cs db1 in (r # rs, db2))"

fun spec_run :: "db_call list \<Rightarrow> store \<Rightarrow> unit outcome list \<times> store" where
  "spec_run [] st = ([], st)"
| "spec_run (c # cs) st =
     (let (r, st1) = spec_apply c st; (rs, st2) = spec_run cs st1 in (r # rs, st2))"

text \<open>The service only stores keys of 32 bytes.\<close>

fun call_ok :: "db_call \<Rightarrow> bool" where
  "call_ok (Create_User u k) = (length k = KEY_SIZE)"
| "call_ok _ = True"

text \<open>The invariant of an abstract store: every member of a group is a user, and every
  key has 32 bytes.\<close>

definition store_ok :: "store \<Rightarrow> bool" where
  "store_ok st \<longleftrightarrow>
     (\<forall>g M. st_groups st g = Some M \<longrightarrow> M \<subseteq> dom (st_users st) \<and> finite M) \<and>
     (\<forall>u k. st_users st u = Some k \<longrightarrow> length k = KEY_SIZE)"

lemmas spec_defs = spec_create_user_def spec_create_group_def spec_add_user_to_group_def
  spec_remove_user_from_group_def spec_delete_user_def spec_is_user_part_of_group_def

lemma store_okI:
  assumes "\<And>g M u. st_groups st g = Some M \<Longrightarrow> u \<in> M \<Longrightarrow> u \<in> dom (st_users st)"
    and "\<And>g M. st_groups st g = Some M \<Longrightarrow> finite M"
    and "\<And>u k. st_users st u = Some k \<Longrightarrow> length k = KEY_SIZE"
  shows "store_ok st"
  unfolding store_ok_def using assms by blast

lemma store_okD:
  assumes "store_ok st"
  shows "st_groups st g = Some M \<Longrightarrow> u \<in> M \<Longrightarrow> \<exists>k. st_users st u = Some k \<and> length k = KEY_SIZE"
    and "st_groups st g = Some M \<Longrightarrow> finite M"
    and "st_users st u = Some k \<Longrightarrow> length k = KEY_SIZE"
  using assms unfolding store_ok_def by blast+

lemma store_ok_empty [simp]: "store_ok empty_store"
  by (simp add: store_ok_def empty_store_def)

lemma spec_apply_ok:
  assumes "store_ok st" and "call_ok c"
  shows "store_ok (snd (spec_apply c st))"
proof (cases c)
  case (Create_User u k)
  with assms show ?thesis
    by (auto simp: spec_create_user_def store_ok_def)
next
  case (Delete_User u)
  with assms show ?thesis
    by (fastforce simp: spec_delete_user_def store_ok_def)
next
  case (Create_Group g u)
  with assms show ?thesis
    by (auto simp: spec_create_group_def store_ok_def)
next
  case (Add_User_To_Group g u)
  with assms show ?thesis
    by (auto simp: spec_add_user_to_group_def store_ok_def split: option.splits)
next
  case (Remove_User_From_Group g u)
  with assms show ?thesis
    by (fastforce simp: spec_remove_user_from_group_def store_ok_def split: option.splits)
qed simp

lemma spec_run_ok: "store_ok st \<Longrightarrow> list_all call_ok cs \<Longrightarrow> store_ok (snd (spec_run cs st))"
proof (induction cs arbitrary: st)
  case (Cons c cs)
  from Cons.prems have "store_ok (snd (spec_apply c st))"
    by (intro spec_apply_ok) auto
  with Cons show ?case by (simp add: Let_def case_prod_beta)
qed simp

section \<open>The interface\<close>

text \<open>
  A store implements the specification through the abstraction \<open>abs\<close> wherever its
  invariant \<open>inv\<close> holds: each call keeps the invariant, and its outcome and effect are
  the specified ones.
\<close>

locale user_store =
  fixes D :: "'db database_ops"
    and inv :: "'db \<Rightarrow> bool"
    and abs :: "'db \<Rightarrow> store"
  assumes inv_store_ok: "inv db \<Longrightarrow> store_ok (abs db)"
    and apply_inv: "inv db \<Longrightarrow> call_ok c \<Longrightarrow> inv (snd (db_apply D c db))"
    and apply_sim: "inv db \<Longrightarrow> call_ok c \<Longrightarrow>
        map_prod outcome_of abs (db_apply D c db) = spec_apply c (abs db)"
    and part_of_sim: "inv db \<Longrightarrow>
        outcome_of (fst (db_is_user_part_of_group D u g db)) = spec_is_user_part_of_group u g (abs db)"
    and part_of_state: "inv db \<Longrightarrow> snd (db_is_user_part_of_group D u g db) = db"
    and keys_state: "inv db \<Longrightarrow> snd (db_get_keys_of_group D g db) = db"
    and keys_refused: "inv db \<Longrightarrow> st_groups (abs db) g = None \<or> st_groups (abs db) g = Some {} \<Longrightarrow>
        outcome_of (fst (db_get_keys_of_group D g db)) = Refused"
    and keys_done: "inv db \<Longrightarrow> st_groups (abs db) g = Some M \<Longrightarrow> M \<noteq> {} \<Longrightarrow>
        \<exists>ks. fst (db_get_keys_of_group D g db) = Inr ks \<and> set ks = group_keys (abs db) g \<and> ks \<noteq> []"
begin

lemma run_inv: "inv db \<Longrightarrow> list_all call_ok cs \<Longrightarrow> inv (snd (db_run D cs db))"
proof (induction cs arbitrary: db)
  case (Cons c cs)
  from Cons.prems have "inv (snd (db_apply D c db))"
    by (intro apply_inv) auto
  with Cons show ?case by (simp add: Let_def case_prod_beta)
qed simp

text \<open>A whole history of calls has the specified outcomes and ends in the specified store.\<close>

lemma run_sim:
  "inv db \<Longrightarrow> list_all call_ok cs \<Longrightarrow>
     map_prod (map outcome_of) abs (db_run D cs db) = spec_run cs (abs db)"
proof (induction cs arbitrary: db)
  case (Cons c cs)
  obtain r db1 where ap: "db_apply D c db = (r, db1)"
    by fastforce
  obtain rs db2 where rn: "db_run D cs db1 = (rs, db2)"
    by fastforce
  from Cons.prems ap have inv1: "inv db1"
    using apply_inv [of db c] by simp
  from Cons.prems ap have "spec_apply c (abs db) = (outcome_of r, abs db1)"
    using apply_sim [of db c] by simp
  moreover have "spec_run cs (abs db1) = (map outcome_of rs, abs db2)"
    using Cons.IH [OF inv1] Cons.prems rn by simp
  ultimately show ?case using ap rn by simp
qed simp

lemma keys_length:
  assumes "inv db" and "fst (db_get_keys_of_group D g db) = Inr ks"
  shows "\<forall>k \<in> set ks. length k = KEY_SIZE"
proof -
  from assms obtain M where M: "st_groups (abs db) g = Some M" "M \<noteq> {}"
    using keys_refused [of db g] by (cases "st_groups (abs db) g") auto
  with assms have "set ks = group_keys (abs db) g"
    using keys_done [OF assms(1) M] by auto
  then show ?thesis
    using store_okD(3) [OF inv_store_ok [OF assms(1)]] by (auto simp: group_keys_def)
qed

text \<open>Revocation: right after a member is removed, no key of the group is that member's,
  unless another member was given the same key.\<close>

lemma removed_key_gone:
  assumes "inv db" and "st_users (abs db) u = Some k"
    and distinct_keys: "\<And>v. st_users (abs db) v = Some k \<Longrightarrow> v = u"
    and "fst (db_apply D (Remove_User_From_Group g u) db) = Inr ()"
  shows "k \<notin> group_keys (abs (snd (db_apply D (Remove_User_From_Group g u) db))) g"
proof -
  have sim: "map_prod outcome_of abs (db_apply D (Remove_User_From_Group g u) db)
      = spec_remove_user_from_group g u (abs db)"
    using apply_sim [OF assms(1), of "Remove_User_From_Group g u"] by simp
  then have "fst (spec_remove_user_from_group g u (abs db)) = Done ()"
    and st: "abs (snd (db_apply D (Remove_User_From_Group g u) db)) =
      snd (spec_remove_user_from_group g u (abs db))"
    using assms(4) by (metis fst_map_prod outcome_of.simps(1), metis snd_map_prod)
  then obtain M where "st_groups (abs db) g = Some M"
    and "snd (spec_remove_user_from_group g u (abs db)) =
      (abs db)\<lparr>st_groups := (st_groups (abs db))(g \<mapsto> M - {u})\<rparr>"
    by (auto simp: spec_remove_user_from_group_def split: option.splits if_splits)
  with st show ?thesis
    using distinct_keys by (auto simp: group_keys_def)
qed

end

end
