(* ===== verification/Memory_Database.thy ===== *)
theory Memory_Database
  imports Database_Spec
begin

text \<open>
  The in-memory database (\<open>memory_database.h\<close>, \<open>memory_database.cpp\<close>): two ordered
  maps, from group names to the set of member ids and from user ids to keys. Every method
  is one definition, with its guards in the order of the code and the message of every
  exception. The lock discipline of the methods is the subject of \<open>Database_Locks\<close>;
  here each call runs alone. The theory proves the representation invariant, the
  refinement of the abstract store, and that two checks of the code never fire.
\<close>

section \<open>State and operations\<close>

record memdb =
  mdb_groups :: "(string, string std_set) std_map"
  mdb_users :: "(string, string) std_map"

definition memdb_empty :: memdb where
  "memdb_empty = \<lparr>mdb_groups = [], mdb_users = []\<rparr>"

definition mem_init :: "string \<Rightarrow> memdb \<Rightarrow> bool result \<times> memdb" where
  "mem_init initdata db = (Inr True, db)"

definition mem_add_user_to_group :: "string \<Rightarrow> string \<Rightarrow> memdb \<Rightarrow> unit result \<times> memdb" where
  "mem_add_user_to_group gname new_uid db =
     (if map_find (mdb_groups db) gname = None
      then (Inl (Invalid_Argument (''attempt to add user '' @ sq @ new_uid @ sq @ '' to'' @
              ''non existing group: '' @ sq @ gname @ sq)), db)
      else if map_find (mdb_users db) new_uid = None
      then (Inl (Invalid_Argument (''attempt to add unknown user '' @ sq @ new_uid @ sq @
              '' to group '' @ sq @ gname @ sq)), db)
      else
        let (members, inserted) = set_insert (map_index [] (mdb_groups db) gname) new_uid;
            db' = db\<lparr>mdb_groups := map_assign (mdb_groups db) gname members\<rparr>
        in if \<not> inserted
           then (Inl (Logic_Error (sq @ new_uid @ sq @ '' was already a member of '' @ ''group '' @
                   sq @ gname @ sq)), db')
           else (Inr (), db'))"

definition mem_create_user :: "string \<Rightarrow> string \<Rightarrow> memdb \<Rightarrow> unit result \<times> memdb" where
  "mem_create_user uid key db =
     (if map_find (mdb_users db) uid = None
      then (Inr (), db\<lparr>mdb_users := map_assign (mdb_users db) uid key\<rparr>)
      else (Inl (Invalid_Argument (''attempt to create an existing user: '' @ sq @ uid @ sq)), db))"

definition mem_create_group :: "string \<Rightarrow> string \<Rightarrow> memdb \<Rightarrow> unit result \<times> memdb" where
  "mem_create_group gname uid db =
     (if map_find (mdb_groups db) gname = None
      then
        if map_find (mdb_users db) uid = None
        then (Inl (Invalid_Argument (''tried to create group '' @ sq @ gname @ sq @
                '' with an unknown user:'' @ sq @ uid @ sq)), db)
        else (Inr (), db\<lparr>mdb_groups := map_assign (mdb_groups db) gname
                (fst (set_insert (map_index [] (mdb_groups db) gname) uid))\<rparr>)
      else (Inl (Invalid_Argument (''attempt to create an existing group: '' @ sq @ gname @ sq)), db))"

definition mem_delete_user :: "string \<Rightarrow> memdb \<Rightarrow> unit result \<times> memdb" where
  "mem_delete_user uid db =
     (Inr (), db\<lparr>mdb_groups := map (\<lambda>kv. (fst kv, fst (set_erase (snd kv) uid))) (mdb_groups db),
                 mdb_users := map_erase (mdb_users db) uid\<rparr>)"

definition mem_delete_all_data :: "memdb \<Rightarrow> unit result \<times> memdb" where
  "mem_delete_all_data db = (Inr (), db\<lparr>mdb_users := [], mdb_groups := []\<rparr>)"

definition mem_is_user_part_of_group :: "string \<Rightarrow> string \<Rightarrow> memdb \<Rightarrow> bool result \<times> memdb" where
  "mem_is_user_part_of_group uname gname db =
     (if map_find (mdb_groups db) gname \<noteq> None
      then (Inr (set_find (map_index [] (mdb_groups db) gname) uname), db)
      else (Inl (Invalid_Argument (''unknown group '' @ sq @ gname @ sq)), db))"

text \<open>The message of the branch that the code expects never to run.\<close>

definition hills_message :: string where
  "hills_message = ''run to the hills: '' @ ''this should not ever happen''"

definition mem_remove_user_from_group :: "string \<Rightarrow> string \<Rightarrow> memdb \<Rightarrow> unit result \<times> memdb" where
  "mem_remove_user_from_group gname uid db =
     (if map_find (mdb_groups db) gname \<noteq> None
      then
        if map_find (mdb_users db) uid = None
        then (Inl (Invalid_Argument (''tried to remove an unknown user '' @ sq @ uid @ sq @
                '' from group '' @ sq @ gname @ sq)), db)
        else if \<not> set_find (map_index [] (mdb_groups db) gname) uid
        then (Inl (Invalid_Argument (''attempt to remove user '' @ sq @ uid @ sq @ '' from group '' @
                sq @ gname @ sq @ '' to which he or she does not belong'')), db)
        else
          let (members, erased) = set_erase (map_index [] (mdb_groups db) gname) uid;
              db' = db\<lparr>mdb_groups := map_assign (mdb_groups db) gname members\<rparr>
          in if erased = 0 then (Inl (Invalid_Argument hills_message), db') else (Inr (), db')
      else (Inl (Invalid_Argument (''attempt to remove user '' @ sq @ uid @ sq @ '' from'' @
              '' inexistent group: '' @ sq @ gname @ sq)), db))"

text \<open>\<open>key.fill(0)\<close> and the \<open>memcpy\<close> of at most 32 bytes of the stored key.\<close>

definition copy_key :: "string \<Rightarrow> string" where
  "copy_key k = take (min (length k) KEY_SIZE) k @ replicate (KEY_SIZE - min (length k) KEY_SIZE) (CHR 0x00)"

fun collect_keys :: "(string, string) std_map \<Rightarrow> string std_set \<Rightarrow> string list" where
  "collect_keys us [] = []"
| "collect_keys us (uid # uids) =
     (case map_find us uid of
        None \<Rightarrow> collect_keys us uids
      | Some k \<Rightarrow> copy_key k # collect_keys us uids)"

definition mem_get_keys_of_group :: "string \<Rightarrow> memdb \<Rightarrow> string list result \<times> memdb" where
  "mem_get_keys_of_group gname db =
     (if map_find (mdb_groups db) gname \<noteq> None
      then
        if map_index [] (mdb_groups db) gname = []
        then (Inl (Invalid_Argument (''group '' @ sq @ gname @ sq @ '' is empty'')), db)
        else (Inr (collect_keys (mdb_users db) (map_index [] (mdb_groups db) gname)), db)
      else (Inl (Invalid_Argument (''unknown group '' @ sq @ gname @ sq)), db))"

text \<open>\<open>MemDatabase\<close> as an instance of the interface.\<close>

definition mem_ops :: "memdb database_ops" where
  "mem_ops = \<lparr>
     db_init = mem_init,
     db_add_user_to_group = mem_add_user_to_group,
     db_create_user = mem_create_user,
     db_delete_user = mem_delete_user,
     db_create_group = mem_create_group,
     db_is_user_part_of_group = mem_is_user_part_of_group,
     db_remove_user_from_group = mem_remove_user_from_group,
     db_get_keys_of_group = mem_get_keys_of_group,
     db_delete_all_data = mem_delete_all_data\<rparr>"

lemmas mem_defs [db_simps] = mem_init_def mem_add_user_to_group_def mem_create_user_def
  mem_create_group_def mem_delete_user_def mem_delete_all_data_def
  mem_is_user_part_of_group_def mem_remove_user_from_group_def mem_get_keys_of_group_def

section \<open>Invariant and abstraction\<close>

definition mem_abs :: "memdb \<Rightarrow> store" where
  "mem_abs db = \<lparr>st_users = map_find (mdb_users db),
                 st_groups = (\<lambda>g. map_option set (map_find (mdb_groups db) g))\<rparr>"

definition mem_inv :: "memdb \<Rightarrow> bool" where
  "mem_inv db \<longleftrightarrow>
     map_ok (mdb_groups db) \<and> map_ok (mdb_users db) \<and>
     (\<forall>g M. map_find (mdb_groups db) g = Some M \<longrightarrow> set_ok M) \<and>
     store_ok (mem_abs db)"

lemma mem_abs_sel [simp]:
  "st_users (mem_abs db) = map_find (mdb_users db)"
  "st_groups (mem_abs db) g = map_option set (map_find (mdb_groups db) g)"
  by (simp_all add: mem_abs_def)

lemma memdb_empty_inv: "mem_inv memdb_empty"
  by (simp add: mem_inv_def memdb_empty_def store_ok_def)

lemma mem_abs_empty: "mem_abs memdb_empty = empty_store"
  by (simp add: mem_abs_def memdb_empty_def empty_store_def fun_eq_iff)

lemma mem_invD:
  assumes "mem_inv db"
  shows "map_ok (mdb_groups db)" and "map_ok (mdb_users db)"
    and "map_find (mdb_groups db) g = Some M \<Longrightarrow> set_ok M"
    and "map_find (mdb_groups db) g = Some M \<Longrightarrow> u \<in> set M \<Longrightarrow> \<exists>k. map_find (mdb_users db) u = Some k"
    and "map_find (mdb_users db) u = Some k \<Longrightarrow> length k = KEY_SIZE"
    and "store_ok (mem_abs db)"
  using assms store_okD(1) [of "mem_abs db" g "set M" u] store_okD(3) [of "mem_abs db" u k]
  unfolding mem_inv_def by auto

lemma store_eqI: "st_users s = st_users t \<Longrightarrow> (\<And>g. st_groups s g = st_groups t g) \<Longrightarrow> s = (t :: store)"
  by (cases s, cases t) (auto simp: fun_eq_iff)

text \<open>Each method refines its specification. The read-only look at the map that follows a
  successful \<open>find\<close> never inserts.\<close>

lemma map_index_Some [simp]: "map_find m k = Some v \<Longrightarrow> map_index d m k = v"
  by (simp add: map_index_def)

lemma map_index_None [simp]: "map_find m k = None \<Longrightarrow> map_index d m k = d"
  by (simp add: map_index_def)

lemma mem_add_sim:
  "map_prod outcome_of mem_abs (mem_add_user_to_group g u db) = spec_add_user_to_group g u (mem_abs db)"
proof (cases "map_find (mdb_groups db) g")
  case (Some M)
  then show ?thesis
    by (cases "map_find (mdb_users db) u")
      (auto simp: mem_add_user_to_group_def spec_add_user_to_group_def set_insert_def dom_def
        intro!: store_eqI)
qed (simp add: mem_add_user_to_group_def spec_add_user_to_group_def)

lemma mem_create_user_sim:
  "map_prod outcome_of mem_abs (mem_create_user u k db) = spec_create_user u k (mem_abs db)"
  by (auto simp: mem_create_user_def spec_create_user_def dom_def intro!: store_eqI)

lemma mem_create_group_sim:
  "map_prod outcome_of mem_abs (mem_create_group g u db) = spec_create_group g u (mem_abs db)"
  by (auto simp: mem_create_group_def spec_create_group_def set_insert_def dom_def intro!: store_eqI)

lemma mem_delete_user_sim:
  "map_prod outcome_of mem_abs (mem_delete_user u db) = spec_delete_user u (mem_abs db)"
  by (auto simp: mem_delete_user_def spec_delete_user_def set_erase_def map_find_map_values
      option.map_comp comp_def intro!: store_eqI)

lemma mem_delete_all_sim:
  "map_prod outcome_of mem_abs (mem_delete_all_data db) = (Done (), empty_store)"
  by (auto simp: mem_delete_all_data_def empty_store_def intro!: store_eqI)

lemma mem_remove_sim:
  assumes "mem_inv db"
  shows "map_prod outcome_of mem_abs (mem_remove_user_from_group g u db)
           = spec_remove_user_from_group g u (mem_abs db)"
proof (cases "map_find (mdb_groups db) g")
  case (Some M)
  show ?thesis
  proof (cases "u \<in> set M")
    case True
    with Some mem_invD(4) [OF assms] obtain k where "map_find (mdb_users db) u = Some k"
      by blast
    with Some True show ?thesis
      using set_erase_count [OF True]
      by (auto simp: mem_remove_user_from_group_def spec_remove_user_from_group_def set_erase_def
          intro!: store_eqI)
  next
    case False
    with Some show ?thesis
      by (simp add: mem_remove_user_from_group_def spec_remove_user_from_group_def)
  qed
qed (simp add: mem_remove_user_from_group_def spec_remove_user_from_group_def)

lemma mem_apply_sim:
  assumes "mem_inv db"
  shows "map_prod outcome_of mem_abs (db_apply mem_ops c db) = spec_apply c (mem_abs db)"
  using mem_remove_sim [OF assms]
  by (cases c) (simp_all add: mem_ops_def mem_add_sim mem_create_user_sim mem_create_group_sim
      mem_delete_user_sim mem_delete_all_sim)

text \<open>The representation parts of the invariant.\<close>

definition mem_rep_ok :: "memdb \<Rightarrow> bool" where
  "mem_rep_ok db \<longleftrightarrow> map_ok (mdb_groups db) \<and> map_ok (mdb_users db) \<and>
     (\<forall>g M. map_find (mdb_groups db) g = Some M \<longrightarrow> set_ok M)"

lemma mem_inv_split: "mem_inv db \<longleftrightarrow> mem_rep_ok db \<and> store_ok (mem_abs db)"
  by (auto simp: mem_inv_def mem_rep_ok_def)

lemma mem_rep_okD: "mem_rep_ok db \<Longrightarrow> map_find (mdb_groups db) g = Some M \<Longrightarrow> set_ok M"
  by (auto simp: mem_rep_ok_def)

lemma mem_rep_ok_assign_group:
  "mem_rep_ok db \<Longrightarrow> set_ok M \<Longrightarrow> mem_rep_ok (db\<lparr>mdb_groups := map_assign (mdb_groups db) g M\<rparr>)"
  by (auto simp: mem_rep_ok_def)

lemma mem_apply_rep_ok:
  assumes rep: "mem_rep_ok db"
  shows "mem_rep_ok (snd (db_apply mem_ops c db))"
proof (cases c)
  case (Create_User u k)
  with rep show ?thesis
    by (auto simp: mem_ops_def mem_create_user_def mem_rep_ok_def)
next
  case (Delete_User u)
  with rep show ?thesis
    by (auto simp: mem_ops_def mem_delete_user_def mem_rep_ok_def map_find_map_values set_erase_def)
next
  case (Create_Group g u)
  with rep show ?thesis
    by (auto simp: mem_ops_def mem_create_group_def set_insert_def dest: mem_rep_okD
        intro!: mem_rep_ok_assign_group)
next
  case (Add_User_To_Group g u)
  with rep show ?thesis
    by (auto simp: mem_ops_def mem_add_user_to_group_def set_insert_def Let_def dest: mem_rep_okD
        intro!: mem_rep_ok_assign_group)
next
  case (Remove_User_From_Group g u)
  with rep show ?thesis
    by (auto simp: mem_ops_def mem_remove_user_from_group_def set_erase_def Let_def dest: mem_rep_okD
        intro!: mem_rep_ok_assign_group)
next
  case Delete_All_Data
  then show ?thesis
    by (simp add: mem_ops_def mem_delete_all_data_def mem_rep_ok_def)
qed

lemma mem_apply_inv:
  assumes "mem_inv db" and "call_ok c"
  shows "mem_inv (snd (db_apply mem_ops c db))"
proof -
  have "mem_abs (snd (db_apply mem_ops c db)) = snd (spec_apply c (mem_abs db))"
    using mem_apply_sim [OF assms(1), of c] by (metis snd_map_prod)
  moreover have "store_ok (snd (spec_apply c (mem_abs db)))"
    using assms by (intro spec_apply_ok) (simp_all add: mem_inv_split)
  ultimately show ?thesis
    using assms mem_apply_rep_ok by (simp add: mem_inv_split)
qed

section \<open>The keys of a group\<close>

lemma copy_key_id [simp]: "length k = KEY_SIZE \<Longrightarrow> copy_key k = k"
  by (simp add: copy_key_def)

lemma length_copy_key [simp]: "length (copy_key k) = KEY_SIZE"
  by (simp add: copy_key_def)

lemma collect_keys_all:
  assumes "\<And>u. u \<in> set us \<Longrightarrow> \<exists>k. map_find m u = Some k \<and> length k = KEY_SIZE"
  shows "collect_keys m us = map (\<lambda>u. the (map_find m u)) us"
  using assms by (induction us) (fastforce split: option.splits)+

lemma mem_keys_done:
  assumes "mem_inv db" and "map_find (mdb_groups db) g = Some M" and "M \<noteq> []"
  shows "mem_get_keys_of_group g db = (Inr (map (\<lambda>u. the (map_find (mdb_users db) u)) M), db)"
proof -
  have "\<exists>k. map_find (mdb_users db) u = Some k \<and> length k = KEY_SIZE" if "u \<in> set M" for u
    using mem_invD(4) [OF assms(1,2) that] mem_invD(5) [OF assms(1)] by blast
  with assms show ?thesis
    by (simp add: mem_get_keys_of_group_def collect_keys_all)
qed

lemma mem_keys_set:
  assumes "mem_inv db" and "map_find (mdb_groups db) g = Some M"
  shows "(\<lambda>u. the (map_find (mdb_users db) u)) ` set M = group_keys (mem_abs db) g"
  using assms(2) mem_invD(4) [OF assms] by (force simp: group_keys_def)

interpretation mem: user_store mem_ops mem_inv mem_abs
proof (unfold_locales, goal_cases)
  case (1 db)
  then show ?case by (rule mem_invD(6))
next
  case (2 db c)
  then show ?case by (rule mem_apply_inv)
next
  case (3 db c)
  then show ?case by (intro mem_apply_sim)
next
  case (4 db u g)
  then show ?case
    by (cases "map_find (mdb_groups db) g")
      (simp_all add: mem_ops_def mem_is_user_part_of_group_def spec_is_user_part_of_group_def)
next
  case (5 db u g)
  then show ?case by (simp add: mem_ops_def mem_is_user_part_of_group_def)
next
  case (6 db g)
  then show ?case by (simp add: mem_ops_def mem_get_keys_of_group_def)
next
  case (7 db g)
  then show ?case by (auto simp: mem_ops_def mem_get_keys_of_group_def)
next
  case (8 db g M)
  then obtain xs where "map_find (mdb_groups db) g = Some xs" "set xs = M"
    by auto
  with 8 show ?case
    using mem_keys_done [of db g xs] mem_keys_set [of db g xs] by (auto simp: mem_ops_def)
qed

section \<open>Unreachable branches\<close>

text \<open>The final check of \<open>remove_user_from_group\<close> never throws: the membership test
  before it makes the erase count one.\<close>

lemma hills_never_thrown:
  "fst (mem_remove_user_from_group g u db) \<noteq> Inl (Invalid_Argument hills_message)"
proof (cases "set_find (map_index [] (mdb_groups db) g) u")
  case True
  then have "snd (set_erase (map_index [] (mdb_groups db) g) u) \<noteq> 0"
    by (simp add: set_erase_count)
  then show ?thesis
    by (auto simp: mem_remove_user_from_group_def hills_message_def Let_def split: prod.splits)
next
  case False
  then show ?thesis
    by (auto simp: mem_remove_user_from_group_def hills_message_def)
qed

section \<open>Properties\<close>

text \<open>C6: any sequence of calls on the in-memory database has, call by call, the outcomes of
  the abstract store (done, refused, warned) and ends in a state that represents the
  abstract store's.\<close>

theorem mem_history_refines:
  assumes "mem_inv db" and "list_all call_ok cs"
  shows "map_prod (map outcome_of) mem_abs (db_run mem_ops cs db) = spec_run cs (mem_abs db)"
  using assms by (rule mem.run_sim)

definition sample_key :: "nat \<Rightarrow> string" where
  "sample_key n = char_of (65 + n) # replicate 31 (CHR ''k'')"

definition sample_calls :: "db_call list" where
  "sample_calls = [Create_User ''ann'' (sample_key 0), Create_User ''bob'' (sample_key 1),
     Create_Group ''g'' ''ann'', Add_User_To_Group ''g'' ''bob'', Add_User_To_Group ''g'' ''bob'',
     Remove_User_From_Group ''g'' ''eve'', Delete_User ''ann'']"

lemma sample_key_length [simp]: "length (sample_key n) = KEY_SIZE"
  by (simp add: sample_key_def KEY_SIZE_def)

lemma sample_calls_ok: "list_all call_ok sample_calls"
  by (simp add: sample_calls_def)

theorem mem_history_refines_witness:
  "map_prod (map outcome_of) mem_abs (db_run mem_ops sample_calls memdb_empty) = spec_run sample_calls empty_store \<and>
   fst (spec_run sample_calls empty_store) = [Done (), Done (), Done (), Done (), Warned, Refused, Done ()]"
proof
  show "map_prod (map outcome_of) mem_abs (db_run mem_ops sample_calls memdb_empty) = spec_run sample_calls empty_store"
    using mem_history_refines [OF memdb_empty_inv sample_calls_ok] by (simp add: mem_abs_empty)
  show "fst (spec_run sample_calls empty_store) = [Done (), Done (), Done (), Done (), Warned, Refused, Done ()]"
    by (simp add: sample_calls_def spec_defs empty_store_def Let_def)
qed

text \<open>C16: \<open>get_keys_of_group\<close> returns, for every group that has members, the keys of
  exactly its members, one for each member in the order of the ids, and throws for an
  unknown or empty group; it never returns an empty array.\<close>

theorem group_keys_exact:
  assumes "mem_inv db"
  shows "case map_find (mdb_groups db) g of
     None \<Rightarrow> outcome_of (fst (mem_get_keys_of_group g db)) = Refused
   | Some [] \<Rightarrow> outcome_of (fst (mem_get_keys_of_group g db)) = Refused
   | Some (u # us) \<Rightarrow>
       fst (mem_get_keys_of_group g db) = Inr (map (\<lambda>v. the (map_find (mdb_users db) v)) (u # us)) \<and>
       (\<forall>v \<in> set (u # us). \<exists>k. map_find (mdb_users db) v = Some k \<and> length k = KEY_SIZE)"
proof (cases "map_find (mdb_groups db) g")
  case (Some M)
  then show ?thesis
    using mem_keys_done [OF assms Some] mem_invD(4) [OF assms Some] mem_invD(5) [OF assms]
    by (cases M) (auto simp: mem_get_keys_of_group_def, blast+)
qed (simp add: mem_get_keys_of_group_def)

theorem group_keys_exact_witness:
  "mem_inv (snd (db_run mem_ops sample_calls memdb_empty)) \<and>
   fst (mem_get_keys_of_group ''g'' (snd (db_run mem_ops sample_calls memdb_empty))) = Inr [sample_key 1]"
proof
  let ?db = "snd (db_run mem_ops sample_calls memdb_empty)"
  show inv: "mem_inv ?db"
    using memdb_empty_inv sample_calls_ok by (rule mem.run_inv)
  have "map_find (mdb_groups ?db) ''g'' = Some [''bob'']" by code_simp
  moreover have "map_find (mdb_users ?db) ''bob'' = Some (sample_key 1)" by code_simp
  ultimately show "fst (mem_get_keys_of_group ''g'' ?db) = Inr [sample_key 1]"
    using group_keys_exact [OF inv, of "''g''"] by simp
qed


definition sample_db :: memdb where
  "sample_db = \<lparr>mdb_groups = [(''g'', [''ann'', ''bob''])],
     mdb_users = [(''ann'', sample_key 0), (''bob'', sample_key 1)]\<rparr>"

lemma sample_db_inv: "mem_inv sample_db"
  by (auto simp: mem_inv_def sample_db_def map_ok_def set_ok_def store_ok_def split: if_splits)


end
