(* ===== verification/Http.thy ===== *)
theory Http
  imports Prelude
begin

text \<open>
  The part of the HTTP library (\<open>Request\<close>, \<open>Response\<close>, their builders and
  \<open>HttpStrings\<close>, which are not in this repository) that the services touch: a request
  is what the accessors \<open>method()\<close>, \<open>url().encodedPath()\<close> and
  \<open>stringBody()\<close> return, a response what the builder calls put into it. The string
  constants of the library are a parameter.
\<close>

record request =
  rq_method :: string
  rq_path :: string
  rq_body :: string

record response =
  rs_protocol :: string
  rs_code :: nat
  rs_message :: string
  rs_headers :: "(string \<times> string) list"
  rs_body :: string

record http_strings =
  hs_http11 :: string
  hs_connection :: string
  hs_keepalive :: string
  hs_contenttype :: string
  hs_auth :: string

text \<open>\<open>ResponseBuilder::appendBody\<close>.\<close>

definition append_body :: "string \<Rightarrow> response \<Rightarrow> response" where
  "append_body s r = r\<lparr>rs_body := rs_body r @ s\<rparr>"

end
