(* ===== verification/Anonymbe_Service.thy ===== *)
theory Anonymbe_Service
  imports Memory_Database Json_Parser Json_Text Http
begin

text \<open>
  The access monitor \<open>AnonymBE<Database>\<close> (\<open>anonymbe_service.h\<close>,
  \<open>anonymbe_service.hpp\<close>): its state, its request handlers and the dispatch of
  \<open>process_input\<close> with the whole chain of \<open>catch\<close> clauses. The database is a table
  of operations (the template parameter), the cryptographic library a record of functions
  over an entropy state, the preprocessor symbols of the build a record of flags.
\<close>

section \<open>Parameters\<close>

text \<open>\<open>Crypto::\<close> and the random sources. Functions that draw randomness take and return
  the entropy state; \<open>b64_decode\<close> may throw.\<close>

record 'e crypto =
  cr_b64_encode :: "string \<Rightarrow> string"
  cr_b64_decode :: "string \<Rightarrow> string result"
  cr_sha224 :: "string \<Rightarrow> string"
  cr_encrypt_aesgcm :: "string \<Rightarrow> string \<Rightarrow> 'e \<Rightarrow> string \<times> 'e"
  cr_get_rand :: "nat \<Rightarrow> 'e \<Rightarrow> string \<times> 'e"
  cr_read_rand :: "nat \<Rightarrow> 'e \<Rightarrow> string \<times> 'e"
  cr_rand :: "'e \<Rightarrow> 32 word \<times> 'e"

text \<open>\<open>MEMDATABASE\<close>, \<open>ABEMONGO\<close>, \<open>NATIVE\<close>, and the order in which the compiler
  evaluates the two arguments of a call, which the language leaves open.\<close>

record build =
  bd_memdatabase :: bool
  bd_abemongo :: bool
  bd_native :: bool
  bd_args_left_first :: bool

section \<open>State\<close>

datatype asky_error =
    ASKY_NOERROR
  | ASKY_ERROR_SERVICE
  | ASKY_INITIALIZATION_FAIL
  | ASKY_ALREADYINITIALIZED
  | ASKY_BAD_REQUEST
  | ASKY_CREATE_EXISTENT
  | ASKY_NON_EXISTENT
  | ASKY_ROLLBACK_ATTACK
  | ASKY_WRAPUP
  | ASKY_UNKNOWN

fun asky_code :: "asky_error \<Rightarrow> nat" where
  "asky_code ASKY_NOERROR = 0"
| "asky_code ASKY_ERROR_SERVICE = 1"
| "asky_code ASKY_INITIALIZATION_FAIL = 2"
| "asky_code ASKY_ALREADYINITIALIZED = 3"
| "asky_code ASKY_BAD_REQUEST = 4"
| "asky_code ASKY_CREATE_EXISTENT = 5"
| "asky_code ASKY_NON_EXISTENT = 6"
| "asky_code ASKY_ROLLBACK_ATTACK = 7"
| "asky_code ASKY_WRAPUP = 8"
| "asky_code ASKY_UNKNOWN = 9"

type_synonym kvstring = "(string, string) std_map"

record ('db, 'e) anonymbe =
  ab_init :: bool
  ab_indexed :: bool
  ab_die :: bool
  ab_error :: asky_error
  ab_database :: 'db
  ab_entropy :: 'e

text \<open>The constructor. It does not set \<open>indexed_\<close>: its value is an argument.\<close>

definition anonymbe_new :: "bool \<Rightarrow> 'db \<Rightarrow> 'e \<Rightarrow> ('db, 'e) anonymbe" where
  "anonymbe_new garbage db ent =
     \<lparr>ab_init = False, ab_indexed = garbage, ab_die = False, ab_error = ASKY_NOERROR,
      ab_database = db, ab_entropy = ent\<rparr>"

text \<open>What a handler leaves: the error code or the exception, the response map it was
  filling, and the service.\<close>

type_synonym ('db, 'e) handled = "asky_error result \<times> kvstring \<times> ('db, 'e) anonymbe"

text \<open>The two string arguments of a call.\<close>

definition json_str2 :: "build \<Rightarrow> json \<Rightarrow> string \<Rightarrow> string \<Rightarrow> (string \<times> string) result" where
  "json_str2 bd j f g =
     (case json_str j f of
        Inr s \<Rightarrow> (case json_str j g of Inr t \<Rightarrow> Inr (s, t) | Inl e \<Rightarrow> Inl e)
      | Inl e \<Rightarrow> (case json_str j g of Inr t \<Rightarrow> Inl e | Inl e' \<Rightarrow> Inl (if bd_args_left_first bd then e else e')))"

text \<open>A call of a database method that returns nothing, followed by \<open>return ASKY_NOERROR\<close>.\<close>

definition database_call ::
  "('db \<Rightarrow> unit result \<times> 'db) \<Rightarrow> kvstring \<Rightarrow> ('db, 'e) anonymbe \<Rightarrow> ('db, 'e) handled" where
  "database_call f response ab =
     (let (r, db) = f (ab_database ab); ab' = ab\<lparr>ab_database := db\<rparr>
      in (case r of Inl e \<Rightarrow> Inl e | Inr _ \<Rightarrow> Inr ASKY_NOERROR, response, ab'))"

section \<open>Envelopes\<close>

text \<open>The loop of the plain format, and the loop that fills the ordered container of the
  indexed format.\<close>

fun encrypt_for_all :: "'e crypto \<Rightarrow> string \<Rightarrow> string list \<Rightarrow> string \<Rightarrow> 'e \<Rightarrow> string \<times> 'e" where
  "encrypt_for_all C bucket_key [] ctext ent = (ctext, ent)"
| "encrypt_for_all C bucket_key (k # ks) ctext ent =
     (let (ct, ent1) = cr_encrypt_aesgcm C (take KEY_SIZE k) bucket_key ent
      in encrypt_for_all C bucket_key ks (ctext @ ct) ent1)"

fun ordered_hashes ::
  "'e crypto \<Rightarrow> string \<Rightarrow> string \<Rightarrow> string list \<Rightarrow> kvstring \<Rightarrow> 'e \<Rightarrow> kvstring \<times> 'e" where
  "ordered_hashes C nonce bucket_key [] orderedhashes ent = (orderedhashes, ent)"
| "ordered_hashes C nonce bucket_key (k # ks) orderedhashes ent =
     (let key = take KEY_SIZE k;
          (ct, ent1) = cr_encrypt_aesgcm C key bucket_key ent
      in ordered_hashes C nonce bucket_key ks
           (map_assign orderedhashes (cr_sha224 C (nonce @ key)) ct) ent1)"

definition envelope_text ::
  "'e crypto \<Rightarrow> bool \<Rightarrow> string \<Rightarrow> string list \<Rightarrow> 'e \<Rightarrow> string \<times> 'e" where
  "envelope_text C indexed bucket_key ka ent =
     (if indexed then
        let (nonce, ent1) = cr_get_rand C 12 ent;
            (orderedhashes, ent2) = ordered_hashes C nonce bucket_key ka [] ent1
        in (nonce @ concat (map (\<lambda>kv. fst kv @ snd kv) orderedhashes), ent2)
      else encrypt_for_all C bucket_key ka [] ent)"

definition generate_envelope ::
  "'db database_ops \<Rightarrow> 'e crypto \<Rightarrow> json \<Rightarrow> kvstring \<Rightarrow> ('db, 'e) anonymbe \<Rightarrow> ('db, 'e) handled" where
  "generate_envelope D C j response ab =
     (case json_str j ''bucket_key'' of
        Inl e \<Rightarrow> (Inl e, response, ab)
      | Inr encoded \<Rightarrow>
     (case cr_b64_decode C encoded of
        Inl e \<Rightarrow> (Inl e, response, ab)
      | Inr decoded \<Rightarrow>
     (case json_str j ''group_id'' of
        Inl e \<Rightarrow> (Inl e, response, ab)
      | Inr gid \<Rightarrow>
          (let bucket_key = string_resize 32 decoded;
               (r, db) = db_get_keys_of_group D gid (ab_database ab);
               ab1 = ab\<lparr>ab_database := db\<rparr>
           in case r of
                Inl e \<Rightarrow> (Inl e, response, ab1)
              | Inr ka \<Rightarrow>
                  if ka = [] then
                    (Inr ASKY_BAD_REQUEST, map_assign response ''detail'' ''empty envelope'', ab1)
                  else
                    let (ctext, ent) = envelope_text C (ab_indexed ab1) bucket_key ka (ab_entropy ab1)
                    in (Inr ASKY_NOERROR,
                        map_assign response ''ciphertext'' (cr_b64_encode C ctext),
                        ab1\<lparr>ab_entropy := ent\<rparr>)))))"

section \<open>Users\<close>

text \<open>The native build fills the key with eight results of \<open>rand()\<close>, each stored in the
  byte order of the processor (little endian).\<close>

definition int_bytes :: "32 word \<Rightarrow> string" where
  "int_bytes w = map (\<lambda>i. char_of (unat (drop_bit (8 * i) w) mod 256)) [0, 1, 2, 3]"

fun native_rand :: "'e crypto \<Rightarrow> nat \<Rightarrow> 'e \<Rightarrow> string \<times> 'e" where
  "native_rand C 0 ent = ([], ent)"
| "native_rand C (Suc n) ent =
     (let (w, ent1) = cr_rand C ent; (rest, ent2) = native_rand C n ent1
      in (int_bytes w @ rest, ent2))"

definition random_key :: "build \<Rightarrow> 'e crypto \<Rightarrow> 'e \<Rightarrow> string \<times> 'e" where
  "random_key bd C ent =
     (if bd_native bd then native_rand C (KEY_SIZE div 4) ent else cr_read_rand C KEY_SIZE ent)"

definition create_user ::
  "build \<Rightarrow> 'db database_ops \<Rightarrow> 'e crypto \<Rightarrow> json \<Rightarrow> kvstring \<Rightarrow> ('db, 'e) anonymbe \<Rightarrow> ('db, 'e) handled" where
  "create_user bd D C j response ab =
     (let (key, ent) = random_key bd C (ab_entropy ab); ab1 = ab\<lparr>ab_entropy := ent\<rparr>
      in case json_str j ''user_id'' of
           Inl e \<Rightarrow> (Inl e, response, ab1)
         | Inr uid \<Rightarrow>
             (let (r, db) = db_create_user D uid key (ab_database ab1);
                  ab2 = ab1\<lparr>ab_database := db\<rparr>
              in case r of
                   Inl e \<Rightarrow> (Inl e, response, ab2)
                 | Inr _ \<Rightarrow> (Inr ASKY_NOERROR, map_assign response ''user_key'' (cr_b64_encode C key), ab2)))"

section \<open>The four verbs\<close>

definition process_get :: "request \<Rightarrow> kvstring \<Rightarrow> ('db, 'e) anonymbe \<Rightarrow> ('db, 'e) handled" where
  "process_get request response ab =
     (let command = rq_path request
      in if command = ''/access/rights'' then (Inr ASKY_BAD_REQUEST, response, ab)
         else if command = ''/verifier/certify'' then (Inr ASKY_BAD_REQUEST, response, ab)
         else if command = ''/ping'' then (Inr ASKY_NOERROR, response, ab)
         else (Inr ASKY_BAD_REQUEST, response, ab))"

definition process_put ::
  "build \<Rightarrow> 'db database_ops \<Rightarrow> char \<Rightarrow> request \<Rightarrow> kvstring \<Rightarrow> ('db, 'e) anonymbe \<Rightarrow> ('db, 'e) handled" where
  "process_put bd D point request response ab =
     (let command = rq_path request
      in if command = ''/access/usergroup'' then
           (case json_parse point (rq_body request) of
              Inl e \<Rightarrow> (Inl e, response, ab)
            | Inr j \<Rightarrow>
           (case json_str2 bd j ''group_name'' ''user_id'' of
              Inl e \<Rightarrow> (Inl e, response, ab)
            | Inr (gname, uid) \<Rightarrow> database_call (db_add_user_to_group D gname uid) response ab))
         else if command = ''/access/aclmember'' then (Inr ASKY_BAD_REQUEST, response, ab)
         else if command = ''/access/bucketowner'' then (Inr ASKY_BAD_REQUEST, response, ab)
         else (Inr ASKY_BAD_REQUEST, response, ab))"

definition process_post ::
  "build \<Rightarrow> 'db database_ops \<Rightarrow> 'e crypto \<Rightarrow> char \<Rightarrow> request \<Rightarrow> kvstring \<Rightarrow> ('db, 'e) anonymbe \<Rightarrow>
     ('db, 'e) handled" where
  "process_post bd D C point request response ab =
     (case json_parse point (rq_body request) of
        Inl e \<Rightarrow> (Inl e, response, ab)
      | Inr j \<Rightarrow>
     (let command = rq_path request
      in if command = ''/access/user'' then create_user bd D C j response ab
         else if command = ''/access/group'' then
           (case json_str2 bd j ''group_name'' ''user_id'' of
              Inl e \<Rightarrow> (Inl e, response, ab)
            | Inr (gname, uid) \<Rightarrow> database_call (db_create_group D gname uid) response ab)
         else if command = ''/verifier/envelope'' then generate_envelope D C j response ab
         else if command = ''/verifier/usergroup'' then
           (case json_str2 bd j ''user_id'' ''group_name'' of
              Inl e \<Rightarrow> (Inl e, response, ab)
            | Inr (uid, gname) \<Rightarrow>
                (let (r, db) = db_is_user_part_of_group D uid gname (ab_database ab);
                     ab1 = ab\<lparr>ab_database := db\<rparr>
                 in case r of
                      Inl e \<Rightarrow> (Inl e, response, ab1)
                    | Inr answer \<Rightarrow>
                        (Inr ASKY_NOERROR,
                         map_assign response ''belongs'' (if answer then ''true'' else ''false''), ab1)))
         else if command = ''/access/acl'' then (Inr ASKY_BAD_REQUEST, response, ab)
         else if command = ''/verifier/acl'' then (Inr ASKY_BAD_REQUEST, response, ab)
         else if command = ''/writer/bucket'' then (Inr ASKY_BAD_REQUEST, response, ab)
         else (Inr ASKY_BAD_REQUEST, response, ab)))"

definition process_delete ::
  "build \<Rightarrow> 'db database_ops \<Rightarrow> char \<Rightarrow> request \<Rightarrow> kvstring \<Rightarrow> ('db, 'e) anonymbe \<Rightarrow> ('db, 'e) handled" where
  "process_delete bd D point request response ab =
     (let command = rq_path request
      in if command = ''/access/usergroup'' then
           (case json_parse point (rq_body request) of
              Inl e \<Rightarrow> (Inl e, response, ab)
            | Inr j \<Rightarrow>
           (case json_str2 bd j ''group_name'' ''user_id'' of
              Inl e \<Rightarrow> (Inl e, response, ab)
            | Inr (gname, uid) \<Rightarrow> database_call (db_remove_user_from_group D gname uid) response ab))
         else if command = ''/access/user'' then
           (case json_parse point (rq_body request) of
              Inl e \<Rightarrow> (Inl e, response, ab)
            | Inr j \<Rightarrow>
           (case json_str j ''user_id'' of
              Inl e \<Rightarrow> (Inl e, response, ab)
            | Inr uid \<Rightarrow> database_call (db_delete_user D (c_str uid)) response ab))
         else if command = ''/access/aclmember'' then (Inr ASKY_BAD_REQUEST, response, ab)
         else if command = ''/access/all'' then database_call (db_delete_all_data D) response ab
         else (Inr ASKY_BAD_REQUEST, response, ab))"

section \<open>Responses\<close>

fun err_amcs :: "asky_error \<Rightarrow> string" where
  "err_amcs ASKY_NOERROR = ''No error''"
| "err_amcs ASKY_INITIALIZATION_FAIL = ''Fail to initialize AnonymBE''"
| "err_amcs ASKY_ERROR_SERVICE = ''Could not access Platform Services''"
| "err_amcs ASKY_BAD_REQUEST = ''Malformed request. Please, refer to the documentation.''"
| "err_amcs ASKY_CREATE_EXISTENT = ''Tried to create an existing user''"
| "err_amcs ASKY_NON_EXISTENT = ''Tried to get or update a non-existing counter''"
| "err_amcs ASKY_WRAPUP = ''Service is being terminated''"
| "err_amcs e = ''Unknown error: '' @ to_string_nat (asky_code e)"

definition mongo_error :: "nat \<Rightarrow> string \<Rightarrow> string" where
  "mongo_error code message =
     (if code = 11000 then ''Attempt to add an existing user''
      else ''Code: '' @ to_string_nat code @ ''; message: '' @ c_str message)"

definition posrep :: "http_strings \<Rightarrow> response" where
  "posrep H = \<lparr>rs_protocol = hs_http11 H, rs_code = 200, rs_message = ''OK'',
     rs_headers = [(hs_connection H, hs_keepalive H), (hs_contenttype H, ''application/json'')], rs_body = []\<rparr>"

definition negrep :: "http_strings \<Rightarrow> response" where
  "negrep H = \<lparr>rs_protocol = hs_http11 H, rs_code = 400, rs_message = ''Bad Request'',
     rs_headers = [(hs_connection H, hs_keepalive H), (hs_contenttype H, ''application/json'')], rs_body = []\<rparr>"

fun assign_all :: "json \<Rightarrow> kvstring \<Rightarrow> json result" where
  "assign_all j [] = Inr j"
| "assign_all j (kv # kvs) =
     (case json_index_assign j (fst kv) (Json_String (snd kv)) of
        Inl e \<Rightarrow> Inl e
      | Inr j' \<Rightarrow> assign_all j' kvs)"

definition positive_response :: "http_strings \<Rightarrow> kvstring \<Rightarrow> response result" where
  "positive_response H response =
     (case assign_all Json_Null [(''result'', ''ok'')] of
        Inl e \<Rightarrow> Inl e
      | Inr j0 \<Rightarrow>
     (case assign_all j0 response of
        Inl e \<Rightarrow> Inl e
      | Inr j \<Rightarrow>
     (case json_dump 2 j of
        Inl e \<Rightarrow> Inl e
      | Inr text \<Rightarrow> Inr (append_body text (posrep H)))))"

definition negative_response :: "http_strings \<Rightarrow> string \<Rightarrow> string \<Rightarrow> response result" where
  "negative_response H msg extra =
     (case assign_all Json_Null
         [(''result'', ''error''), (''detail'', if extra \<noteq> [] then extra else msg)] of
        Inl e \<Rightarrow> Inl e
      | Inr j \<Rightarrow>
     (case json_dump 2 j of
        Inl e \<Rightarrow> Inl e
      | Inr text \<Rightarrow> Inr (append_body text (negrep H))))"

section \<open>process_input\<close>

text \<open>The chain of \<open>catch\<close> clauses: the values of \<open>error\<close>, \<open>extra\<close> and
  \<open>response\<close> after it. A \<open>std::exception\<close> that no earlier clause names, a JSON
  \<open>type_error\<close> included, is printed and leaves the three as they were.\<close>

fun catch_clauses ::
  "build \<Rightarrow> exn \<Rightarrow> asky_error \<times> string \<times> kvstring \<Rightarrow> asky_error \<times> string \<times> kvstring" where
  "catch_clauses bd (Json_Out_Of_Range i w) (error, extra, response) = (ASKY_BAD_REQUEST, c_str w, response)"
| "catch_clauses bd (Json_Parse_Error i b w) (error, extra, response) = (ASKY_BAD_REQUEST, c_str w, response)"
| "catch_clauses bd (Invalid_Argument w) (error, extra, response) = (ASKY_BAD_REQUEST, c_str w, response)"
| "catch_clauses bd (Logic_Error w) (error, extra, response) =
     (error, extra, map_assign response ''info'' (c_str w))"
| "catch_clauses bd (Bson_Error code m) (error, extra, response) =
     (ASKY_UNKNOWN, if bd_abemongo bd then mongo_error code m else extra, response)"
| "catch_clauses bd (Json_Type_Error i w) (error, extra, response) = (error, extra, response)"
| "catch_clauses bd (Std_Exception w) (error, extra, response) = (error, extra, response)"
| "catch_clauses bd (Uint32_Exn n) (error, extra, response) = (ASKY_UNKNOWN, extra, response)"
| "catch_clauses bd Other_Exn (error, extra, response) = (ASKY_UNKNOWN, extra, response)"

definition dispatch ::
  "build \<Rightarrow> 'db database_ops \<Rightarrow> 'e crypto \<Rightarrow> char \<Rightarrow> request \<Rightarrow> kvstring \<Rightarrow> ('db, 'e) anonymbe \<Rightarrow>
     ('db, 'e) handled" where
  "dispatch bd D C point request response ab =
     (let verb = rq_method request
      in if verb = ''GET'' then process_get request response ab
         else if verb = ''PUT'' then process_put bd D point request response ab
         else if verb = ''POST'' then process_post bd D C point request response ab
         else if verb = ''DELETE'' then process_delete bd D point request response ab
         else (Inr ASKY_NOERROR, response, ab))"

text \<open>The text of a negative answer that no exception brought.\<close>

definition extra_text :: "request \<Rightarrow> asky_error \<Rightarrow> kvstring \<Rightarrow> string" where
  "extra_text request error response =
     (if error = ASKY_BAD_REQUEST then
        if map_find response ''detail'' \<noteq> None then map_index [] response ''detail''
        else ''Unknown command '' @ sq @ rq_path request @ sq
      else [])"

text \<open>\<open>None\<close> is the default \<open>Response()\<close>.\<close>

definition process_input ::
  "build \<Rightarrow> http_strings \<Rightarrow> 'db database_ops \<Rightarrow> 'e crypto \<Rightarrow> char \<Rightarrow>
     request \<Rightarrow> ('db, 'e) anonymbe \<Rightarrow> response option \<times> ('db, 'e) anonymbe" where
  "process_input bd H D C point request ab =
     (if \<not> ab_init ab \<and> \<not> bd_memdatabase bd then (None, ab)
      else
        let ab0 = ab\<lparr>ab_init := True\<rparr>;
            (r, response, ab1) = dispatch bd D C point request [] ab0;
            (error, extra, response1) =
              (case r of
                 Inr error \<Rightarrow> (error, extra_text request error response, response)
               | Inl e \<Rightarrow> catch_clauses bd e (ASKY_NOERROR, [], response));
            answer = (if error = ASKY_NOERROR then positive_response H response1
                      else negative_response H (err_amcs error) extra)
        in (case answer of Inr resp \<Rightarrow> Some resp | Inl _ \<Rightarrow> None, ab1))"

text \<open>\<open>init\<close>: the return value, or an exception that the clauses do not catch.\<close>

definition anonymbe_init ::
  "build \<Rightarrow> 'db database_ops \<Rightarrow> string \<Rightarrow> bool \<Rightarrow> ('db, 'e) anonymbe \<Rightarrow> int result \<times> ('db, 'e) anonymbe" where
  "anonymbe_init bd D mongo indexed ab =
     (let (r, db) = db_init D mongo (ab_database ab); ab1 = ab\<lparr>ab_database := db\<rparr>
      in case r of
           Inr _ \<Rightarrow> (Inr 0, ab1\<lparr>ab_indexed := indexed, ab_init := True\<rparr>)
         | Inl (Bson_Error c m) \<Rightarrow> (if bd_abemongo bd then Inr (- 1) else Inl (Bson_Error c m), ab1)
         | Inl (Uint32_Exn n) \<Rightarrow> (Inr (- 1), ab1)
         | Inl e \<Rightarrow> (Inl e, ab1))"

text \<open>A sequence of requests.\<close>

fun serve ::
  "build \<Rightarrow> http_strings \<Rightarrow> 'db database_ops \<Rightarrow> 'e crypto \<Rightarrow> char \<Rightarrow>
     request list \<Rightarrow> ('db, 'e) anonymbe \<Rightarrow> response option list \<times> ('db, 'e) anonymbe" where
  "serve bd H D C point [] ab = ([], ab)"
| "serve bd H D C point (rq # rqs) ab =
     (let (a, ab1) = process_input bd H D C point rq ab;
          (as, ab2) = serve bd H D C point rqs ab1
      in (a # as, ab2))"

end
