(* ===== verification/Service_Correctness.thy ===== *)
theory Service_Correctness
  imports Anonymbe_Service
begin

text \<open>
  What the access monitor does to its database and what it answers, for every store that
  implements the \<open>user_store\<close> interface.
\<close>

section \<open>The call a request stands for\<close>

text \<open>The database call that a request asks for, when its body can be read: the first
  argument is the key that the service draws for a new user.\<close>

definition requested_call :: "build \<Rightarrow> char \<Rightarrow> string \<Rightarrow> request \<Rightarrow> db_call option" where
  "requested_call bd point key rq =
     (if rq_method rq = ''DELETE'' \<and> rq_path rq = ''/access/all'' then Some Delete_All_Data
      else case json_parse point (rq_body rq) of
        Inl e \<Rightarrow> None
      | Inr j \<Rightarrow>
          (case json_str j ''user_id'' of
             Inl e \<Rightarrow> None
           | Inr uid \<Rightarrow>
               if rq_method rq = ''POST'' \<and> rq_path rq = ''/access/user'' then Some (Create_User uid key)
               else if rq_method rq = ''DELETE'' \<and> rq_path rq = ''/access/user'' then Some (Delete_User (c_str uid))
               else case json_str j ''group_name'' of
                  Inl e \<Rightarrow> None
                | Inr gname \<Rightarrow>
                    if rq_method rq = ''POST'' \<and> rq_path rq = ''/access/group'' then Some (Create_Group gname uid)
                    else if rq_method rq = ''PUT'' \<and> rq_path rq = ''/access/usergroup''
                    then Some (Add_User_To_Group gname uid)
                    else if rq_method rq = ''DELETE'' \<and> rq_path rq = ''/access/usergroup''
                    then Some (Remove_User_From_Group gname uid)
                    else None))"

definition call_effect :: "'db database_ops \<Rightarrow> db_call option \<Rightarrow> 'db \<Rightarrow> 'db" where
  "call_effect D c db = (case c of None \<Rightarrow> db | Some call \<Rightarrow> snd (db_apply D call db))"

lemma call_effect_simps [simp]:
  "call_effect D None db = db"
  "call_effect D (Some c) db = snd (db_apply D c db)"
  by (simp_all add: call_effect_def)

lemma json_str2_Inr:
  "json_str2 bd j f g = Inr (s, t) \<longleftrightarrow> json_str j f = Inr s \<and> json_str j g = Inr t"
  by (auto simp: json_str2_def split: sum.splits)

lemma json_str2_Inl:
  "json_str2 bd j f g = Inl e \<Longrightarrow> (\<exists>e1. json_str j f = Inl e1) \<or> (\<exists>e1. json_str j g = Inl e1)"
  by (auto simp: json_str2_def split: sum.splits)

lemma database_call_database [simp]:
  "ab_database (snd (snd (database_call f response ab))) = snd (f (ab_database ab))"
  by (simp add: database_call_def split: prod.splits)

lemma database_call_fst:
  "fst (database_call f response ab) = map_sum id (\<lambda>_. ASKY_NOERROR) (fst (f (ab_database ab)))"
  by (auto simp: database_call_def split: prod.splits sum.splits)

lemma database_call_response [simp]: "fst (snd (database_call f response ab)) = response"
  by (simp add: database_call_def split: prod.splits)

lemma int_bytes_length [simp]: "length (int_bytes w) = 4"
  by (simp add: int_bytes_def)

lemma native_rand_length: "length (fst (native_rand C n ent)) = 4 * n"
  by (induction n arbitrary: ent) (auto simp: Let_def split: prod.splits, metis fst_conv)

text \<open>What the monitor relies on of \<open>sgx_read_rand\<close>: it fills the buffer.\<close>

definition rand_fills :: "'e crypto \<Rightarrow> bool" where
  "rand_fills C \<longleftrightarrow> (\<forall>n ent. length (fst (cr_read_rand C n ent)) = n)"

lemma random_key_length: "rand_fills C \<Longrightarrow> length (fst (random_key bd C ent)) = KEY_SIZE"
  by (simp add: random_key_def native_rand_length rand_fills_def KEY_SIZE_def)

lemma requested_call_ok:
  "length key = KEY_SIZE \<Longrightarrow> requested_call bd point key rq = Some c \<Longrightarrow> call_ok c"
  by (auto simp: requested_call_def split: sum.splits if_splits)

text \<open>No handler touches the flags of the service.\<close>

definition same_flags :: "('db, 'e) anonymbe \<Rightarrow> ('db, 'e) anonymbe \<Rightarrow> bool" where
  "same_flags ab ab' \<longleftrightarrow> ab_init ab' = ab_init ab \<and> ab_indexed ab' = ab_indexed ab \<and>
     ab_die ab' = ab_die ab \<and> ab_error ab' = ab_error ab"

lemma database_call_flags: "same_flags ab (snd (snd (database_call f response ab)))"
  by (simp add: same_flags_def database_call_def split: prod.splits)

lemma generate_envelope_flags: "same_flags ab (snd (snd (generate_envelope D C j response ab)))"
  by (auto simp: same_flags_def generate_envelope_def Let_def split: prod.splits sum.splits)

lemma create_user_flags: "same_flags ab (snd (snd (create_user bd D C j response ab)))"
  by (auto simp: same_flags_def create_user_def Let_def split: prod.splits sum.splits)

lemma same_flags_refl [simp]: "same_flags ab ab" "same_flags ab (ab\<lparr>ab_database := db\<rparr>)"
  by (simp_all add: same_flags_def)

lemma dispatch_flags: "same_flags ab (snd (snd (dispatch bd D C point rq response ab)))"
  by (simp add: dispatch_def process_get_def process_put_def process_post_def process_delete_def Let_def
      database_call_flags generate_envelope_flags create_user_flags split: sum.splits prod.splits)

lemma dispatch_init: "ab_init (snd (snd (dispatch bd D C point rq response ab))) = ab_init ab"
  using dispatch_flags [of ab bd D C point rq response] by (simp add: same_flags_def)

section \<open>Effects on the database\<close>

text \<open>The calls that a sequence of requests makes, in order.\<close>

fun served_calls ::
  "build \<Rightarrow> http_strings \<Rightarrow> 'db database_ops \<Rightarrow> 'e crypto \<Rightarrow> char \<Rightarrow>
     request list \<Rightarrow> ('db, 'e) anonymbe \<Rightarrow> db_call list" where
  "served_calls bd H D C point [] ab = []"
| "served_calls bd H D C point (rq # rqs) ab =
     (case requested_call bd point (fst (random_key bd C (ab_entropy ab))) rq of None \<Rightarrow> [] | Some c \<Rightarrow> [c]) @
     served_calls bd H D C point rqs (snd (process_input bd H D C point rq ab))"

lemma served_calls_ok:
  assumes "rand_fills C"
  shows "list_all call_ok (served_calls bd H D C point rqs ab)"
  by (induction rqs arbitrary: ab)
    (auto split: option.splits dest: requested_call_ok [OF random_key_length [OF assms]])

context user_store
begin

lemma generate_envelope_database:
  assumes "inv (ab_database ab)"
  shows "ab_database (snd (snd (generate_envelope D C j response ab))) = ab_database ab"
  using keys_state [OF assms]
  by (auto simp: generate_envelope_def Let_def split: sum.splits prod.splits) (metis snd_conv)+

lemma create_user_database:
  "ab_database (snd (snd (create_user bd D C j response ab))) =
     (case json_str j ''user_id'' of
        Inl e \<Rightarrow> ab_database ab
      | Inr uid \<Rightarrow> snd (db_create_user D uid (fst (random_key bd C (ab_entropy ab))) (ab_database ab)))"
  by (auto simp: create_user_def Let_def split: sum.splits prod.splits)

lemma process_put_database:
  "rq_method rq = ''PUT'' \<Longrightarrow>
   ab_database (snd (snd (process_put bd D point rq response ab))) =
     call_effect D (requested_call bd point key rq) (ab_database ab)"
  by (auto simp: process_put_def requested_call_def Let_def json_str2_Inr split: sum.splits
      dest!: json_str2_Inl)

lemma process_delete_database:
  "rq_method rq = ''DELETE'' \<Longrightarrow>
   ab_database (snd (snd (process_delete bd D point rq response ab))) =
     call_effect D (requested_call bd point key rq) (ab_database ab)"
  by (auto simp: process_delete_def requested_call_def Let_def json_str2_Inr split: sum.splits
      dest!: json_str2_Inl)

lemma process_post_database:
  assumes "inv (ab_database ab)" and "rq_method rq = ''POST''"
  shows "ab_database (snd (snd (process_post bd D C point rq response ab))) =
     call_effect D (requested_call bd point (fst (random_key bd C (ab_entropy ab))) rq) (ab_database ab)"
proof (cases "json_parse point (rq_body rq)")
  case (Inl e)
  with assms show ?thesis by (simp add: process_post_def requested_call_def)
next
  case (Inr j)
  have part: "snd (db_is_user_part_of_group D u g (ab_database ab)) = ab_database ab" for u g
    by (rule part_of_state [OF assms(1)])
  consider "rq_path rq = ''/access/user''" | "rq_path rq = ''/access/group''"
    | "rq_path rq = ''/verifier/envelope''" | "rq_path rq = ''/verifier/usergroup''"
    | "rq_path rq \<notin> {''/access/user'', ''/access/group'', ''/verifier/envelope'', ''/verifier/usergroup''}"
    by blast
  then show ?thesis
  proof cases
    case 1
    with Inr assms show ?thesis
      by (simp add: process_post_def requested_call_def create_user_database split: sum.splits)
  next
    case 2
    with Inr assms show ?thesis
      by (auto simp: process_post_def requested_call_def json_str2_Inr split: sum.splits dest!: json_str2_Inl)
  next
    case 3
    with Inr assms show ?thesis
      by (simp add: process_post_def requested_call_def generate_envelope_database split: sum.splits)
  next
    case 4
    with Inr assms part show ?thesis
      by (auto simp: process_post_def requested_call_def Let_def split: sum.splits prod.splits)
        (metis snd_conv)+
  next
    case 5
    with Inr assms show ?thesis
      by (simp add: process_post_def requested_call_def Let_def split: sum.splits)
  qed
qed

lemma dispatch_database:
  assumes "inv (ab_database ab)"
  shows "ab_database (snd (snd (dispatch bd D C point rq response ab))) =
     call_effect D (requested_call bd point (fst (random_key bd C (ab_entropy ab))) rq) (ab_database ab)"
  using process_post_database [OF assms, where rq = rq and bd = bd and point = point and C = C and response = response]
    process_put_database [where rq = rq and bd = bd and point = point and response = response and ab = ab]
    process_delete_database [where rq = rq and bd = bd and point = point and response = response and ab = ab]
  by (auto simp: dispatch_def process_get_def Let_def) (auto simp: requested_call_def split: sum.splits)

text \<open>The service answers requests only once it is initialised; the build with the
  in-memory database initialises itself.\<close>

lemma process_input_database:
  assumes "inv (ab_database ab)" and "ab_init ab \<or> bd_memdatabase bd"
  shows "ab_database (snd (process_input bd H D C point rq ab)) =
     call_effect D (requested_call bd point (fst (random_key bd C (ab_entropy ab))) rq) (ab_database ab)"
  using assms(2) dispatch_database [where ab = "ab\<lparr>ab_init := True\<rparr>" and bd = bd and C = C and point = point
      and rq = rq and response = "[]"] assms(1)
  by (auto simp: process_input_def Let_def case_prod_beta)

lemma process_input_inv:
  assumes "inv (ab_database ab)" and "rand_fills C"
  shows "inv (ab_database (snd (process_input bd H D C point rq ab)))"
proof (cases "ab_init ab \<or> bd_memdatabase bd")
  case True
  let ?c = "requested_call bd point (fst (random_key bd C (ab_entropy ab))) rq"
  have "inv (call_effect D ?c (ab_database ab))"
    using assms apply_inv requested_call_ok [OF random_key_length [OF assms(2)]]
    by (cases ?c) auto
  then show ?thesis using process_input_database [OF assms(1) True] by simp
next
  case False
  then show ?thesis using assms(1) by (simp add: process_input_def)
qed

lemma process_input_sim:
  assumes "inv (ab_database ab)" and "rand_fills C" and "ab_init ab \<or> bd_memdatabase bd"
  shows "abs (ab_database (snd (process_input bd H D C point rq ab))) =
     (case requested_call bd point (fst (random_key bd C (ab_entropy ab))) rq of
        None \<Rightarrow> abs (ab_database ab)
      | Some c \<Rightarrow> snd (spec_apply c (abs (ab_database ab))))"
  using process_input_database [OF assms(1,3)] apply_sim [OF assms(1)]
    requested_call_ok [OF random_key_length [OF assms(2)]]
  by (auto split: option.splits) (metis snd_map_prod)

lemma process_input_ready:
  "ab_init ab \<or> bd_memdatabase bd \<Longrightarrow> ab_init (snd (process_input bd H D C point rq ab)) \<or> bd_memdatabase bd"
  by (auto simp: process_input_def Let_def case_prod_beta dispatch_init)


text \<open>Any sequence of requests keeps the invariant and acts on the abstract store as the
  sequence of its calls.\<close>

lemma serve_inv:
  assumes "rand_fills C"
  shows "inv (ab_database ab) \<Longrightarrow> inv (ab_database (snd (serve bd H D C point rqs ab)))"
proof (induction rqs arbitrary: ab)
  case (Cons rq rqs)
  then show ?case using process_input_inv [OF _ assms] by (simp add: Let_def case_prod_beta)
qed simp

lemma serve_sim:
  assumes "rand_fills C"
  shows "inv (ab_database ab) \<Longrightarrow> ab_init ab \<or> bd_memdatabase bd \<Longrightarrow>
     abs (ab_database (snd (serve bd H D C point rqs ab))) =
     snd (spec_run (served_calls bd H D C point rqs ab) (abs (ab_database ab)))"
proof (induction rqs arbitrary: ab)
  case (Cons rq rqs)
  let ?ab1 = "snd (process_input bd H D C point rq ab)"
  let ?c = "requested_call bd point (fst (random_key bd C (ab_entropy ab))) rq"
  have "abs (ab_database (snd (serve bd H D C point rqs ?ab1))) =
      snd (spec_run (served_calls bd H D C point rqs ?ab1) (abs (ab_database ?ab1)))"
    using Cons.IH process_input_inv [OF Cons.prems(1) assms] process_input_ready [OF Cons.prems(2)] by blast
  then show ?case
    using process_input_sim [OF Cons.prems(1) assms Cons.prems(2)]
    by (cases ?c) (simp_all add: Let_def case_prod_beta)
qed simp

end

end
