(* ===== verification/Service_Answers.thy ===== *)
theory Service_Answers
  imports Service_Correctness Json_Roundtrip
begin

unbundle bit_operations_syntax

text \<open>
  What the access monitor answers: every answer is a JSON object that says whether the
  request was carried out, the status code follows the outcome that the specification of
  the store gives the request, and over the in-memory database every request whose texts
  are valid UTF-8 gets an answer.
\<close>

section \<open>The JSON text of an answer\<close>

definition json_members :: "kvstring \<Rightarrow> (string \<times> json) list \<Rightarrow> (string \<times> json) list" where
  "json_members kvs m = foldl (\<lambda>m kv. map_assign m (fst kv) (Json_String (snd kv))) m kvs"

lemma json_members_simps [simp]:
  "json_members [] m = m"
  "json_members (kv # kvs) m = json_members kvs (map_assign m (fst kv) (Json_String (snd kv)))"
  by (simp_all add: json_members_def)

lemma assign_all_object: "assign_all (Json_Object m) kvs = Inr (Json_Object (json_members kvs m))"
  by (induction kvs arbitrary: m) (simp_all add: json_index_assign_def)

lemma assign_all_null:
  "assign_all Json_Null (kv # kvs) = Inr (Json_Object (json_members (kv # kvs) []))"
  by (simp add: json_index_assign_def assign_all_object)

definition strings_valid :: "kvstring \<Rightarrow> bool" where
  "strings_valid kvs \<longleftrightarrow> list_all (\<lambda>kv. utf8_valid (fst kv) \<and> utf8_valid (snd kv)) kvs"

definition texts_ok :: "(string \<times> json) list \<Rightarrow> bool" where
  "texts_ok m \<longleftrightarrow> map_ok m \<and> list_all (\<lambda>kv. \<exists>s. snd kv = Json_String s) m"

lemma texts_ok_members: "texts_ok m \<Longrightarrow> texts_ok (json_members kvs m)"
proof (induction kvs arbitrary: m)
  case (Cons kv kvs)
  have "texts_ok (map_assign m (fst kv) (Json_String (snd kv)))"
    using Cons.prems by (auto simp: texts_ok_def list_all_iff dest!: subsetD [OF set_map_assign_subset])
  then show ?case using Cons.IH by simp
qed simp

lemma texts_ok_rt: "texts_ok m \<Longrightarrow> json_utf8 (Json_Object m) \<Longrightarrow> rt_plain (Json_Object m)"
  by (auto simp: texts_ok_def list_all_iff) (metis json_utf8.simps(3) rt_plain.simps(3) snd_conv)

text \<open>A dump that succeeds is read back.\<close>

lemma dump_texts_parse:
  assumes "texts_ok m" and "json_dump 2 (Json_Object m) = Inr out"
  shows "json_parse point out = Inr (Json_Object m)"
proof -
  have u: "json_utf8 (Json_Object m)"
    using assms(2) json_dump_invalid [of 2 "Json_Object m"] by auto
  then have "out = json_text (Some 2) 0 (Json_Object m)"
    using assms(2) json_dump_text [of 2 "Json_Object m"] by simp
  then show ?thesis
    using json_parse_text [OF texts_ok_rt [OF assms(1) u]] by simp
qed

lemma positive_response_parse:
  assumes "positive_response H response = Inr r"
  shows "json_parse point (rs_body r) = Inr (Json_Object (json_members response [(''result'', Json_String ''ok'')]))"
    and "rs_code r = 200"
proof -
  let ?m = "json_members response [(''result'', Json_String ''ok'')]"
  obtain out where out: "json_dump 2 (Json_Object ?m) = Inr out" "r = append_body out (posrep H)"
    using assms by (auto simp: positive_response_def assign_all_null assign_all_object simp del: assign_all.simps
        split: sum.splits)
  have "texts_ok ?m" by (rule texts_ok_members) (simp add: texts_ok_def map_ok_def)
  then show "json_parse point (rs_body r) = Inr (Json_Object ?m)"
    using dump_texts_parse [OF _ out(1)] out(2) by (simp add: append_body_def posrep_def)
  show "rs_code r = 200" using out(2) by (simp add: append_body_def posrep_def)
qed

definition error_members :: "string \<Rightarrow> (string \<times> json) list" where
  "error_members detail = [(''detail'', Json_String detail), (''result'', Json_String ''error'')]"

lemma error_members_eq:
  "json_members [(''result'', ''error''), (''detail'', d)] [] = error_members d"
  by (simp add: error_members_def)

lemma negative_response_parse:
  assumes "negative_response H msg extra = Inr r"
  shows "json_parse point (rs_body r) = Inr (Json_Object (error_members (if extra \<noteq> [] then extra else msg)))"
    and "rs_code r = 400"
proof -
  let ?m = "error_members (if extra \<noteq> [] then extra else msg)"
  obtain out where out: "json_dump 2 (Json_Object ?m) = Inr out" "r = append_body out (negrep H)"
    using assms by (auto simp: negative_response_def assign_all_null error_members_eq simp del: assign_all.simps json_members_simps
        split: sum.splits)
  have "texts_ok ?m" by (simp add: texts_ok_def map_ok_def error_members_def)
  then show "json_parse point (rs_body r) = Inr (Json_Object ?m)"
    using dump_texts_parse [OF _ out(1)] out(2) by (simp add: append_body_def negrep_def)
  show "rs_code r = 400" using out(2) by (simp add: append_body_def negrep_def)
qed

lemma json_members_utf8:
  "json_utf8 (Json_Object m) \<Longrightarrow> strings_valid kvs \<Longrightarrow> json_utf8 (Json_Object (json_members kvs m))"
proof (induction kvs arbitrary: m)
  case (Cons kv kvs)
  have "json_utf8 (Json_Object (map_assign m (fst kv) (Json_String (snd kv))))"
    using Cons.prems by (auto simp: strings_valid_def list_all_iff dest!: subsetD [OF set_map_assign_subset])
  then show ?case using Cons by (simp add: strings_valid_def)
qed simp

lemma positive_response_total:
  assumes "strings_valid response"
  shows "\<exists>r. positive_response H response = Inr r"
proof -
  have "json_utf8 (Json_Object (json_members response [(''result'', Json_String ''ok'')]))"
    by (rule json_members_utf8 [OF _ assms]) (simp add: utf8_valid_def)
  then show ?thesis
    by (simp add: positive_response_def assign_all_null assign_all_object json_dump_text del: assign_all.simps json_utf8.simps)
qed

lemma negative_response_total:
  assumes "utf8_valid extra" and "utf8_valid msg"
  shows "\<exists>r. negative_response H msg extra = Inr r"
proof -
  have "json_utf8 (Json_Object (error_members (if extra \<noteq> [] then extra else msg)))"
    using assms by (simp add: error_members_def utf8_valid_def)
  then show ?thesis
    by (simp add: negative_response_def assign_all_null error_members_eq json_dump_text
        del: assign_all.simps json_utf8.simps json_members_simps)
qed

section \<open>What the handlers leave\<close>

text \<open>An exception leaves the response map empty; otherwise it has at most one entry.\<close>

definition answer_shape :: "('db, 'e) handled \<Rightarrow> bool" where
  "answer_shape h =
     (case fst h of
        Inl e \<Rightarrow> fst (snd h) = []
      | Inr err \<Rightarrow>
          err = ASKY_NOERROR \<and> (fst (snd h) = [] \<or>
            (\<exists>k v. fst (snd h) = [(k, v)] \<and> k \<in> {''user_key'', ''ciphertext'', ''belongs''})) \<or>
          err = ASKY_BAD_REQUEST \<and> (fst (snd h) = [] \<or> fst (snd h) = [(''detail'', ''empty envelope'')]))"

lemma database_call_shape: "answer_shape (database_call f [] ab)"
  by (auto simp: answer_shape_def database_call_def split: prod.splits sum.splits)

lemma generate_envelope_shape: "answer_shape (generate_envelope D C j [] ab)"
  by (auto simp: answer_shape_def generate_envelope_def Let_def split: prod.splits sum.splits)

lemma create_user_shape: "answer_shape (create_user bd D C j [] ab)"
  by (auto simp: answer_shape_def create_user_def Let_def split: prod.splits sum.splits)

lemma answer_shape_simps [simp]:
  "answer_shape (Inl e, [], ab)" "answer_shape (Inr ASKY_NOERROR, [], ab)" "answer_shape (Inr ASKY_BAD_REQUEST, [], ab)"
  "answer_shape (Inr ASKY_NOERROR, [(''belongs'', v)], ab)"
  by (simp_all add: answer_shape_def)

lemma dispatch_shape: "answer_shape (dispatch bd D C point rq [] ab)"
  by (simp add: dispatch_def process_get_def process_put_def process_post_def process_delete_def Let_def
      database_call_shape generate_envelope_shape create_user_shape split: sum.splits prod.splits)

text \<open>The error, its text and the response map after the \<open>try\<close> block.\<close>

definition resolve :: "build \<Rightarrow> request \<Rightarrow> ('db, 'e) handled \<Rightarrow> asky_error \<times> string \<times> kvstring" where
  "resolve bd rq h =
     (case fst h of
        Inr err \<Rightarrow> (err, extra_text rq err (fst (snd h)), fst (snd h))
      | Inl e \<Rightarrow> catch_clauses bd e (ASKY_NOERROR, [], fst (snd h)))"

definition answer :: "http_strings \<Rightarrow> asky_error \<times> string \<times> kvstring \<Rightarrow> response result" where
  "answer H x =
     (case x of (err, extra, response) \<Rightarrow>
        if err = ASKY_NOERROR then positive_response H response
        else negative_response H (err_amcs err) extra)"

lemma process_input_answer:
  assumes "ab_init ab \<or> bd_memdatabase bd"
  shows "process_input bd H D C point rq ab =
     (case answer H (resolve bd rq (dispatch bd D C point rq [] (ab\<lparr>ab_init := True\<rparr>))) of
        Inr r \<Rightarrow> Some r | Inl _ \<Rightarrow> None,
      snd (snd (dispatch bd D C point rq [] (ab\<lparr>ab_init := True\<rparr>))))"
  using assms
  by (auto simp: process_input_def answer_def resolve_def Let_def case_prod_beta split: sum.splits)

lemma resolve_ok_entries:
  assumes "answer_shape h" and "resolve bd rq h = (ASKY_NOERROR, extra, response)"
  shows "response = [] \<or> (\<exists>k v. response = [(k, v)] \<and> k \<in> {''user_key'', ''ciphertext'', ''belongs'', ''info''})"
proof (cases "fst h")
  case (Inl e)
  then show ?thesis
    using assms by (cases e) (auto simp: resolve_def answer_shape_def)
next
  case (Inr err)
  then show ?thesis
    using assms by (auto simp: resolve_def answer_shape_def)
qed

lemma err_amcs_nonempty: "err_amcs e \<noteq> []"
  by (cases e) auto

text \<open>Every answer is a JSON object that tells whether the request was carried out.\<close>

lemma process_input_body:
  assumes "fst (process_input bd H D C point rq ab) = Some r"
  shows "\<exists>m. json_parse point (rs_body r) = Inr (Json_Object m) \<and>
    (rs_code r = 200 \<and> map_find m ''result'' = Some (Json_String ''ok'') \<or>
     rs_code r = 400 \<and> map_find m ''result'' = Some (Json_String ''error'') \<and>
       (\<exists>d. map_find m ''detail'' = Some (Json_String d) \<and> d \<noteq> []))"
proof -
  have ready: "ab_init ab \<or> bd_memdatabase bd"
    using assms by (auto simp: process_input_def split: if_splits)
  let ?h = "dispatch bd D C point rq [] (ab\<lparr>ab_init := True\<rparr>)"
  obtain err extra response where x: "resolve bd rq ?h = (err, extra, response)"
    by (cases "resolve bd rq ?h")
  have ans: "answer H (err, extra, response) = Inr r"
    using assms unfolding process_input_answer [OF ready] x by (auto split: sum.splits)
  show ?thesis
  proof (cases "err = ASKY_NOERROR")
    case True
    then have "positive_response H response = Inr r" using ans by (simp add: answer_def)
    then show ?thesis
      using positive_response_parse(1) [of H response r point] positive_response_parse(2) [of H response r]
        resolve_ok_entries [OF dispatch_shape x [unfolded True]] by auto
  next
    case False
    then have "negative_response H (err_amcs err) extra = Inr r" using ans by (simp add: answer_def)
    then show ?thesis
      using negative_response_parse(1) [of H "err_amcs err" extra r point]
        negative_response_parse(2) [of H "err_amcs err" extra r] err_amcs_nonempty [of err]
      by (auto simp: error_members_def)
  qed
qed

section \<open>Outcome and status code\<close>

lemma requested_call_cases:
  assumes "requested_call bd point key rq = Some c"
  obtains (delete_all) "rq_method rq = ''DELETE''" "rq_path rq = ''/access/all''" "c = Delete_All_Data"
    | (create_user) j uid where "json_parse point (rq_body rq) = Inr j" "json_str j ''user_id'' = Inr uid"
        "rq_method rq = ''POST''" "rq_path rq = ''/access/user''" "c = Create_User uid key"
    | (delete_user) j uid where "json_parse point (rq_body rq) = Inr j" "json_str j ''user_id'' = Inr uid"
        "rq_method rq = ''DELETE''" "rq_path rq = ''/access/user''" "c = Delete_User (c_str uid)"
    | (create_group) j uid gname where "json_parse point (rq_body rq) = Inr j" "json_str j ''user_id'' = Inr uid"
        "json_str j ''group_name'' = Inr gname"
        "rq_method rq = ''POST''" "rq_path rq = ''/access/group''" "c = Create_Group gname uid"
    | (add) j uid gname where "json_parse point (rq_body rq) = Inr j" "json_str j ''user_id'' = Inr uid"
        "json_str j ''group_name'' = Inr gname"
        "rq_method rq = ''PUT''" "rq_path rq = ''/access/usergroup''" "c = Add_User_To_Group gname uid"
    | (remove) j uid gname where "json_parse point (rq_body rq) = Inr j" "json_str j ''user_id'' = Inr uid"
        "json_str j ''group_name'' = Inr gname"
        "rq_method rq = ''DELETE''" "rq_path rq = ''/access/usergroup''" "c = Remove_User_From_Group gname uid"
  using assms unfolding requested_call_def by (simp split: if_splits sum.splits; blast)

lemma dispatch_call:
  assumes "requested_call bd point (fst (random_key bd C (ab_entropy ab))) rq = Some c"
  shows "fst (dispatch bd D C point rq response ab) =
     map_sum id (\<lambda>_. ASKY_NOERROR) (fst (db_apply D c (ab_database ab)))"
  using assms
proof (cases rule: requested_call_cases)
  case (create_user j uid)
  then show ?thesis
    by (simp add: dispatch_def process_post_def create_user_def Let_def case_prod_beta split: sum.splits)
qed (simp_all add: dispatch_def process_put_def process_post_def process_delete_def Let_def json_str2_def
    database_call_fst)

lemma catch_code:
  "outcome_of (Inl e) = Refused \<Longrightarrow> fst (catch_clauses bd e (ASKY_NOERROR, [], response)) = ASKY_BAD_REQUEST"
  "outcome_of (Inl e) = Warned \<Longrightarrow> fst (catch_clauses bd e (ASKY_NOERROR, [], response)) = ASKY_NOERROR"
  by (cases e; simp)+

lemma spec_apply_not_failed: "fst (spec_apply c st) \<noteq> Failed"
  by (cases c) (auto simp: spec_defs split: option.splits)

context user_store
begin

lemma process_input_code:
  assumes "inv (ab_database ab)" and "call_ok c"
    and "requested_call bd point (fst (random_key bd C (ab_entropy ab))) rq = Some c"
    and "fst (process_input bd H D C point rq ab) = Some r"
  shows "rs_code r = (if fst (spec_apply c (abs (ab_database ab))) = Refused then 400 else 200)"
proof -
  have ready: "ab_init ab \<or> bd_memdatabase bd"
    using assms(4) by (auto simp: process_input_def split: if_splits)
  let ?ab = "ab\<lparr>ab_init := True\<rparr>"
  let ?h = "dispatch bd D C point rq [] ?ab"
  let ?o = "fst (spec_apply c (abs (ab_database ab)))"
  have oc: "outcome_of (fst (db_apply D c (ab_database ab))) = ?o"
    using apply_sim [OF assms(1,2)] by (metis fst_map_prod)
  have h: "fst ?h = map_sum id (\<lambda>_. ASKY_NOERROR) (fst (db_apply D c (ab_database ab)))"
    using dispatch_call [of bd point C ?ab rq c D] assms(3) by simp
  have err: "fst (resolve bd rq ?h) = (if ?o = Refused then ASKY_BAD_REQUEST else ASKY_NOERROR)"
  proof (cases "fst (db_apply D c (ab_database ab))")
    case (Inl e)
    then have "?o = Refused \<or> ?o = Warned"
      using oc spec_apply_not_failed [of c "abs (ab_database ab)"] by (cases e) auto
    then show ?thesis using h Inl oc catch_code [of e bd "fst (snd ?h)"] by (auto simp: resolve_def)
  next
    case (Inr u)
    then show ?thesis using h oc by (auto simp: resolve_def)
  qed
  obtain err extra response where x: "resolve bd rq ?h = (err, extra, response)"
    by (cases "resolve bd rq ?h")
  have "answer H (err, extra, response) = Inr r"
    using assms(4) unfolding process_input_answer [OF ready] x by (auto split: sum.splits)
  then show ?thesis
    using err x positive_response_parse(2) negative_response_parse(2)
    by (auto simp: answer_def split: if_splits)
qed

end

section \<open>Every request with valid texts is answered\<close>

lemma utf8_run_c_str:
  "utf8_run rs s \<Longrightarrow> list_all (\<lambda>r. 0 < fst r) rs \<Longrightarrow> utf8_run rs (c_str s)"
proof (induction rs s rule: utf8_run.induct)
  case (3 c cs)
  show ?case
  proof (cases "(of_char c :: nat) < 0x80")
    case True
    then show ?thesis using 3 by (simp add: c_str_def)
  next
    case False
    then obtain rs where rs: "utf8_ranges (of_char c) = Some rs" "utf8_run rs cs"
      using "3.prems" by (auto split: option.splits)
    have "list_all (\<lambda>r. 0 < fst r) rs"
      using utf8_ranges_low [OF rs(1)] by (auto simp: list_all_iff)
    then show ?thesis using 3 False rs by (auto simp: c_str_def)
  qed
qed (auto simp: c_str_def)

lemma utf8_run_snoc: "utf8_run rs (s @ [c]) \<Longrightarrow> (of_char c :: nat) < 0x80 \<Longrightarrow> list_all (\<lambda>r. 0x80 \<le> fst r) rs \<Longrightarrow> utf8_run rs s"
proof (induction rs s rule: utf8_run.induct)
  case (3 b cs)
  show ?case
  proof (cases "(of_char b :: nat) < 0x80")
    case True
    then show ?thesis using 3 by simp
  next
    case False
    then obtain rs where rs: "utf8_ranges (of_char b) = Some rs" "utf8_run rs (cs @ [c])"
      using "3.prems" by (auto split: option.splits)
    then show ?thesis
      using 3 False utf8_ranges_low [OF rs(1)] by auto
  qed
next
  case (2 r rs)
  then show ?case by (cases rs) auto
qed auto

lemma utf8_valid_snoc: "utf8_valid (s @ sq) \<Longrightarrow> utf8_valid s"
  by (simp add: utf8_valid_def) (rule utf8_run_snoc [of _ _ "CHR 0x27"], simp_all)

lemma utf8_valid_c_str: "utf8_valid s \<Longrightarrow> utf8_valid (c_str s)"
  by (simp add: utf8_valid_def utf8_run_c_str)

lemma utf8_valid_appendI: "utf8_valid s \<Longrightarrow> utf8_valid t \<Longrightarrow> utf8_valid (s @ t)"
  by (simp add: utf8_valid_append)

lemma utf8_valid_Cons_ascii: "(of_char c :: nat) < 0x80 \<Longrightarrow> utf8_valid (c # s) = utf8_valid s"
  by (simp add: utf8_valid_def)

lemma json_str_valid:
  assumes "json_parse point body = Inr j" and "json_str j f = Inr s"
  shows "utf8_valid s"
proof -
  obtain m where m: "j = Json_Object m" "map_find m f = Some (Json_String s)"
    using assms(2) by (auto simp: json_str_eq)
  have "json_utf8 j" using json_parse_good(2) [OF assms(1)] .
  then show ?thesis
    using m map_find_set [OF m(2)] by (auto simp: list_all_iff)
qed

definition exn_text_valid :: "exn \<Rightarrow> bool" where
  "exn_text_valid e \<longleftrightarrow> utf8_valid (c_str (what e))"

definition handled_valid :: "('db, 'e) handled \<Rightarrow> bool" where
  "handled_valid h =
     (case fst h of Inl e \<Rightarrow> exn_text_valid e | Inr _ \<Rightarrow> strings_valid (fst (snd h)))"

lemma utf8_valid_digits: "utf8_valid (to_string_nat n)"
proof -
  have "list_all is_digit_char s \<Longrightarrow> utf8_valid s" for s
    by (induction s) (auto simp: utf8_valid_Cons_ascii is_digit_char_def)
  then show ?thesis using to_string_nat_is_digit by blast
qed

lemmas utf8_texts = utf8_valid_append utf8_valid_Cons_ascii utf8_valid_digits

lemma err_amcs_valid: "utf8_valid (err_amcs e)"
  by (cases e) (simp_all add: utf8_texts)

lemma catch_valid:
  assumes "exn_text_valid e" and "catch_clauses bd e (ASKY_NOERROR, [], []) = (err, extra, response)"
  shows "utf8_valid extra" "strings_valid response"
  using assms
  by (cases e; auto simp: exn_text_valid_def strings_valid_def mongo_error_def utf8_texts split: if_splits)+

lemma answer_total:
  assumes "handled_valid h" and "answer_shape h" and "utf8_valid (rq_path rq)"
  shows "\<exists>r. answer H (resolve bd rq h) = Inr r"
proof -
  obtain err extra response where x: "resolve bd rq h = (err, extra, response)"
    by (cases "resolve bd rq h")
  have "utf8_valid extra \<and> strings_valid response"
  proof (cases "fst h")
    case (Inl e)
    then show ?thesis
      using catch_valid [of e bd err extra response] assms x
      by (simp add: handled_valid_def resolve_def answer_shape_def)
  next
    case (Inr er)
    then show ?thesis
      using assms x
      by (auto simp: handled_valid_def resolve_def answer_shape_def extra_text_def utf8_texts strings_valid_def
          map_index_def split: if_splits)
  qed
  then show ?thesis
    using x positive_response_total negative_response_total err_amcs_valid by (simp add: answer_def)
qed

lemma json_str_error_valid:
  assumes "json_str j f = Inl e" and "utf8_valid f"
  shows "exn_text_valid e"
proof -
  have "utf8_valid (what e)"
    using assms
    by (auto simp: json_str_def json_at_def json_get_string_def out_of_range_create_def type_error_create_def
        exception_name_def utf8_texts intro!: utf8_valid_c_str split: json.splits option.splits sum.splits)
  then show ?thesis by (simp add: exn_text_valid_def utf8_valid_c_str)
qed

text \<open>The messages of the in-memory database, over valid names.\<close>

lemma mem_apply_text:
  assumes "fst (db_apply mem_ops c db) = Inl e"
    and "\<And>g u. c = Create_Group g u \<or> c = Add_User_To_Group g u \<or> c = Remove_User_From_Group g u \<Longrightarrow>
      utf8_valid g \<and> utf8_valid u"
    and "\<And>u k. c = Create_User u k \<Longrightarrow> utf8_valid u"
  shows "exn_text_valid e"
proof -
  have "utf8_valid (what e)"
    using assms
    by (cases c)
      (auto simp: mem_ops_def mem_defs hills_message_def utf8_texts Let_def split: if_splits prod.splits)
  then show ?thesis by (simp add: exn_text_valid_def utf8_valid_c_str)
qed

text \<open>What the answers rely on of the cryptographic library: Base64 text and its error
  messages are valid UTF-8.\<close>

definition crypto_text :: "'e crypto \<Rightarrow> bool" where
  "crypto_text C \<longleftrightarrow> (\<forall>s. utf8_valid (cr_b64_encode C s)) \<and>
     (\<forall>s e. cr_b64_decode C s = Inl e \<longrightarrow> exn_text_valid e)"

lemma handled_valid_simps [simp]:
  "handled_valid (Inl e, response, ab) = exn_text_valid e"
  "handled_valid (Inr err, response, ab) = strings_valid response"
  by (simp_all add: handled_valid_def)

lemma strings_valid_simps [simp]:
  "strings_valid []" "strings_valid [(k, v)] \<longleftrightarrow> utf8_valid k \<and> utf8_valid v"
  by (simp_all add: strings_valid_def)

lemma database_call_valid:
  "(\<And>e. fst (f (ab_database ab)) = Inl e \<Longrightarrow> exn_text_valid e) \<Longrightarrow> handled_valid (database_call f [] ab)"
  by (auto simp: database_call_def handled_valid_def split: prod.splits sum.splits)

lemma mem_keys_text: "fst (mem_get_keys_of_group g db) = Inl e \<Longrightarrow> utf8_valid g \<Longrightarrow> exn_text_valid e"
  by (auto simp: mem_get_keys_of_group_def exn_text_valid_def utf8_texts intro!: utf8_valid_c_str split: if_splits)

lemma mem_part_of_text: "fst (mem_is_user_part_of_group u g db) = Inl e \<Longrightarrow> utf8_valid g \<Longrightarrow> exn_text_valid e"
  by (auto simp: mem_is_user_part_of_group_def exn_text_valid_def utf8_texts intro!: utf8_valid_c_str split: if_splits)

lemma generate_envelope_valid:
  assumes "crypto_text C" and "json_parse point body = Inr j"
  shows "handled_valid (generate_envelope mem_ops C j [] ab)"
proof -
  have "json_str j f = Inl e \<Longrightarrow> f = ''bucket_key'' \<or> f = ''group_id'' \<Longrightarrow> exn_text_valid e" for f e
    by (rule json_str_error_valid) (auto simp: utf8_texts)
  moreover have "fst (mem_get_keys_of_group g db) = Inl e \<Longrightarrow> json_str j f = Inr g \<Longrightarrow> exn_text_valid e" for g db f e
    using mem_keys_text json_str_valid [OF assms(2)] by blast
  ultimately show ?thesis
    using assms(1)
    by (auto simp: generate_envelope_def Let_def crypto_text_def mem_ops_def utf8_texts split: sum.splits prod.splits)
      (metis fst_conv)
qed

lemma create_user_valid:
  assumes "crypto_text C" and "json_parse point body = Inr j"
  shows "handled_valid (create_user bd mem_ops C j [] ab)"
proof -
  have "exn_text_valid e" if "json_str j ''user_id'' = Inl e" for e
    using that by (rule json_str_error_valid) (simp add: utf8_texts)
  moreover have "exn_text_valid e"
    if "json_str j ''user_id'' = Inr u" "fst (db_apply mem_ops (Create_User u k) db) = Inl e" for u k db e
    using that(2) by (rule mem_apply_text) (use json_str_valid [OF assms(2) that(1)] in auto)
  ultimately show ?thesis
    using assms(1)
    by (auto simp: create_user_def Let_def crypto_text_def utf8_texts split: sum.splits prod.splits) (metis fst_conv)
qed

lemma json_str2_valid:
  assumes "json_parse point body = Inr j" and "utf8_valid f" and "utf8_valid g"
  shows "json_str2 bd j f g = Inl e \<Longrightarrow> exn_text_valid e"
    and "json_str2 bd j f g = Inr (s, t) \<Longrightarrow> utf8_valid s \<and> utf8_valid t"
  using assms json_str_error_valid json_str_valid [OF assms(1)]
  by (auto simp: json_str2_def split: sum.splits if_splits)

text \<open>The handlers with two fields, with the membership question and with the user to delete.\<close>

lemma group_call_valid:
  assumes "json_parse point body = Inr j"
    and "F \<in> {db_create_group mem_ops, db_add_user_to_group mem_ops, db_remove_user_from_group mem_ops}"
  shows "handled_valid (case json_str2 bd j ''group_name'' ''user_id'' of Inl e \<Rightarrow> (Inl e, [], ab)
      | Inr (g, u) \<Rightarrow> database_call (F g u) [] ab)"
proof -
  have names: "utf8_valid ''group_name''" "utf8_valid ''user_id''" by (simp_all add: utf8_texts)
  have "exn_text_valid e" if "utf8_valid g" "utf8_valid u" "fst (F g u db) = Inl e" for g u db e
    using that assms(2) mem_apply_text [of "Create_Group g u" db e] mem_apply_text [of "Add_User_To_Group g u" db e]
      mem_apply_text [of "Remove_User_From_Group g u" db e] by auto
  then show ?thesis
    using json_str2_valid [OF assms(1) names] by (auto split: sum.splits intro!: database_call_valid) blast
qed

lemma part_of_valid:
  assumes "json_parse point body = Inr j"
  shows "handled_valid (case json_str2 bd j ''user_id'' ''group_name'' of Inl e \<Rightarrow> (Inl e, [], ab)
      | Inr (uid, gname) \<Rightarrow>
          (let (r, db) = db_is_user_part_of_group mem_ops uid gname (ab_database ab); ab1 = ab\<lparr>ab_database := db\<rparr>
           in case r of Inl e \<Rightarrow> (Inl e, [], ab1)
              | Inr yes \<Rightarrow>
                  (Inr ASKY_NOERROR, map_assign [] ''belongs'' (if yes then ''true'' else ''false''), ab1)))"
proof -
  have names: "utf8_valid ''user_id''" "utf8_valid ''group_name''" by (simp_all add: utf8_texts)
  show ?thesis
  proof (cases "json_str2 bd j ''user_id'' ''group_name''")
    case (Inl e)
    then show ?thesis using json_str2_valid(1) [OF assms names] by simp
  next
    case (Inr ug)
    obtain u g where ug: "ug = (u, g)" by fastforce
    then have "utf8_valid g" using json_str2_valid(2) [OF assms names] Inr by blast
    then show ?thesis
      using mem_part_of_text [of u g "ab_database ab"] Inr ug
      by (cases "fst (mem_is_user_part_of_group u g (ab_database ab))")
        (auto simp: mem_ops_def utf8_texts Let_def case_prod_beta)
  qed
qed

lemma delete_calls_valid:
  "handled_valid (case json_str j ''user_id'' of Inl e \<Rightarrow> (Inl e, [], ab)
      | Inr uid \<Rightarrow> database_call (db_delete_user mem_ops (c_str uid)) [] ab)"
  "handled_valid (database_call (db_delete_all_data mem_ops) [] ab)"
  using json_str_error_valid [of j "''user_id''"]
  by (auto simp: utf8_texts mem_ops_def mem_delete_user_def mem_delete_all_data_def split: sum.splits intro!: database_call_valid)

lemma dispatch_valid:
  assumes C: "crypto_text C" and parse: "\<And>e. json_parse point (rq_body rq) = Inl e \<Longrightarrow> exn_text_valid e"
  shows "handled_valid (dispatch bd mem_ops C point rq [] ab)"
proof (cases "json_parse point (rq_body rq)")
  case (Inl e)
  then show ?thesis
    using parse [OF Inl] database_call_valid [of "mem_delete_all_data" ab]
    by (simp add: dispatch_def process_get_def process_put_def process_post_def process_delete_def Let_def
        mem_ops_def mem_delete_all_data_def)
next
  case (Inr j)
  note group = group_call_valid [OF Inr, where bd = bd and ab = ab]
  show ?thesis
    using group [of "db_create_group mem_ops"] group [of "db_add_user_to_group mem_ops"]
      group [of "db_remove_user_from_group mem_ops"] part_of_valid [OF Inr, where bd = bd and ab = ab, unfolded Let_def]
      delete_calls_valid(1) [where j = j and ab = ab] delete_calls_valid(2) [where ab = ab] create_user_valid [OF C Inr] generate_envelope_valid [OF C Inr]
    unfolding dispatch_def process_get_def process_put_def process_post_def process_delete_def Let_def Inr
    by simp
qed

lemma mem_process_input_total:
  assumes "ab_init ab \<or> bd_memdatabase bd" and "crypto_text C" and "utf8_valid (rq_path rq)"
    and "\<And>e. json_parse point (rq_body rq) = Inl e \<Longrightarrow> exn_text_valid e"
  shows "\<exists>r. fst (process_input bd H mem_ops C point rq ab) = Some r"
proof -
  have "handled_valid (dispatch bd mem_ops C point rq [] (ab\<lparr>ab_init := True\<rparr>))"
    using dispatch_valid [OF assms(2,4)] .
  then obtain r where "answer H (resolve bd rq (dispatch bd mem_ops C point rq [] (ab\<lparr>ab_init := True\<rparr>))) = Inr r"
    using answer_total [OF _ dispatch_shape assms(3)] by blast
  then show ?thesis
    unfolding process_input_answer [OF assms(1)] by simp
qed

end
