(* ===== verification/Envelope_Client.thy ===== *)
theory Envelope_Client
  imports Service_Correctness
begin

text \<open>
  The client side of the envelopes (\<open>Envelope.kt\<close>, \<open>Encryption.kt\<close>): the trial
  decryption of the plain format and the search of the indexed format, which narrows its
  interval by one record a turn. The theory proves that a member of a group recovers the
  bucket key from an envelope of \<open>envelope_text\<close> in either format and that the key of a
  user outside the group opens neither.
\<close>

section \<open>Decryption\<close>

definition CIPHER_KEY_BYTES :: nat where "CIPHER_KEY_BYTES = 32"
definition CIPHER_TAG_BYTES :: nat where "CIPHER_TAG_BYTES = 16"
definition CIPHER_IV_BYTES :: nat where "CIPHER_IV_BYTES = 12"

definition ENCRYPTED_KEY_BYTES :: nat where
  "ENCRYPTED_KEY_BYTES = CIPHER_IV_BYTES + CIPHER_KEY_BYTES + CIPHER_TAG_BYTES"

definition NONCE_BYTES :: nat where "NONCE_BYTES = 12"
definition HASHED_INDEX_BYTES :: nat where "HASHED_INDEX_BYTES = 28"

definition INDEXED_ENCRYPTED_KEY_BYTES :: nat where
  "INDEXED_ENCRYPTED_KEY_BYTES = HASHED_INDEX_BYTES + ENCRYPTED_KEY_BYTES"

text \<open>The platform's \<open>Cipher\<close> in decryption mode is a parameter: key, initialisation
  vector and data give the plain text, or \<open>None\<close> for \<open>AEADBadTagException\<close>.\<close>

type_synonym cipher = "string \<Rightarrow> string \<Rightarrow> string \<Rightarrow> string option"

datatype open_error = Bad_Tag | Buffer_Underflow | Index_Out_Of_Bounds | Key_Not_In_Envelope

definition decryptAes :: "cipher \<Rightarrow> string \<Rightarrow> string \<Rightarrow> (open_error, string) sum" where
  "decryptAes dec data key =
     (if length data < CIPHER_IV_BYTES then Inl Buffer_Underflow
      else case dec key (take CIPHER_IV_BYTES data) (drop CIPHER_IV_BYTES data) of
             Some p \<Rightarrow> Inr p
           | None \<Rightarrow> Inl Bad_Tag)"

section \<open>The plain format\<close>

function envelope_open :: "cipher \<Rightarrow> string \<Rightarrow> string \<Rightarrow> (open_error, string) sum" where
  "envelope_open dec envelope userKey =
     (if envelope = [] then Inl Key_Not_In_Envelope
      else if length envelope < ENCRYPTED_KEY_BYTES then Inl Buffer_Underflow
      else case decryptAes dec (take ENCRYPTED_KEY_BYTES envelope) userKey of
             Inr p \<Rightarrow> Inr p
           | Inl Bad_Tag \<Rightarrow> envelope_open dec (drop ENCRYPTED_KEY_BYTES envelope) userKey
           | Inl e \<Rightarrow> Inl e)"
  by pat_completeness auto
termination
  by (relation "measure (\<lambda>(dec, envelope, k). length envelope)") (auto simp: ENCRYPTED_KEY_BYTES_def CIPHER_IV_BYTES_def)

declare envelope_open.simps [simp del]

section \<open>The indexed format\<close>

text \<open>\<open>ByteArray.compareTo\<close>: the first unequal byte decides, as unsigned values.\<close>

fun compareTo :: "string \<Rightarrow> string \<Rightarrow> int" where
  "compareTo [] ys = 0"
| "compareTo (x # xs) [] = 0"
| "compareTo (x # xs) (y # ys) =
     (let comparison = (if (of_char x :: nat) < of_char y then - 1 else if (of_char x :: nat) = of_char y then 0 else 1)
      in if comparison \<noteq> 0 then comparison else compareTo xs ys)"

function indexed_search ::
  "cipher \<Rightarrow> string \<Rightarrow> string \<Rightarrow> string \<Rightarrow> int \<Rightarrow> int \<Rightarrow> (open_error, string) sum" where
  "indexed_search dec buffer hashToFind userKey left right =
     (if left \<le> right then
        let currentIndex = left + (right - left) div 2;
            rest = drop (nat currentIndex * INDEXED_ENCRYPTED_KEY_BYTES) buffer;
            hashedIndex = take HASHED_INDEX_BYTES rest
        in if hashedIndex = hashToFind
           then decryptAes dec (take ENCRYPTED_KEY_BYTES (drop HASHED_INDEX_BYTES rest)) userKey
           else if compareTo hashedIndex hashToFind < 0
           then indexed_search dec buffer hashToFind userKey (left + 1) right
           else indexed_search dec buffer hashToFind userKey left (right - 1)
      else Inl Key_Not_In_Envelope)"
  by pat_completeness auto
termination
  by (relation "measure (\<lambda>(dec, b, h, k, left, right). nat (right - left + 1))") auto

declare indexed_search.simps [simp del]

definition indexed_open :: "cipher \<Rightarrow> (string \<Rightarrow> string) \<Rightarrow> string \<Rightarrow> string \<Rightarrow> (open_error, string) sum" where
  "indexed_open dec sha224 envelope userKey =
     (if length envelope < NONCE_BYTES \<or> length userKey > CIPHER_KEY_BYTES then Inl Index_Out_Of_Bounds
      else
        let hashToFind = sha224 (take NONCE_BYTES envelope @ string_resize CIPHER_KEY_BYTES userKey);
            buffer = drop NONCE_BYTES envelope
        in indexed_search dec buffer hashToFind userKey 0
             (int (length buffer div INDEXED_ENCRYPTED_KEY_BYTES) - 1))"

lemmas size_defs = CIPHER_KEY_BYTES_def CIPHER_TAG_BYTES_def CIPHER_IV_BYTES_def ENCRYPTED_KEY_BYTES_def
  NONCE_BYTES_def HASHED_INDEX_BYTES_def INDEXED_ENCRYPTED_KEY_BYTES_def

section \<open>What the formats rely on\<close>

text \<open>AES-GCM with the keys \<open>K\<close> on the bucket key \<open>bk\<close>: the output is the
  initialisation vector, the cipher text and the tag, the key that made it opens it, and
  another key of \<open>K\<close> is refused.\<close>

definition aead_ok :: "'e crypto \<Rightarrow> cipher \<Rightarrow> string \<Rightarrow> string set \<Rightarrow> bool" where
  "aead_ok C dec bk K \<longleftrightarrow>
     (\<forall>k \<in> K. \<forall>ent. length (fst (cr_encrypt_aesgcm C k bk ent)) = ENCRYPTED_KEY_BYTES \<and>
        decryptAes dec (fst (cr_encrypt_aesgcm C k bk ent)) k = Inr bk \<and>
        (\<forall>k' \<in> K. k' \<noteq> k \<longrightarrow> decryptAes dec (fst (cr_encrypt_aesgcm C k bk ent)) k' = Inl Bad_Tag))"

lemma aead_okD:
  assumes "aead_ok C dec bk K" and "k \<in> K"
  shows "length (fst (cr_encrypt_aesgcm C k bk ent)) = ENCRYPTED_KEY_BYTES"
    "decryptAes dec (fst (cr_encrypt_aesgcm C k bk ent)) k = Inr bk"
    "k' \<in> K \<Longrightarrow> k' \<noteq> k \<Longrightarrow> decryptAes dec (fst (cr_encrypt_aesgcm C k bk ent)) k' = Inl Bad_Tag"
  using assms by (auto simp: aead_ok_def)

section \<open>Plain envelopes\<close>

lemma encrypt_for_all_acc:
  "encrypt_for_all C bk ks ctext ent = (ctext @ fst (encrypt_for_all C bk ks [] ent), snd (encrypt_for_all C bk ks [] ent))"
proof (induction ks arbitrary: ctext ent)
  case (Cons k ks)
  obtain ct ent1 where e: "cr_encrypt_aesgcm C (take KEY_SIZE k) bk ent = (ct, ent1)" by fastforce
  show ?case
    using Cons.IH [of "ctext @ ct" ent1] Cons.IH [of ct ent1] by (simp add: e)
qed simp

lemma encrypt_for_all_Cons:
  "fst (encrypt_for_all C bk (k # ks) [] ent) =
     fst (cr_encrypt_aesgcm C (take KEY_SIZE k) bk ent) @
     fst (encrypt_for_all C bk ks [] (snd (cr_encrypt_aesgcm C (take KEY_SIZE k) bk ent)))"
  by (simp add: encrypt_for_all_acc [of C bk ks "fst (cr_encrypt_aesgcm C (take KEY_SIZE k) bk ent)"] case_prod_beta)

lemma envelope_open_chunk:
  assumes "length ct = ENCRYPTED_KEY_BYTES"
  shows "envelope_open dec (ct @ rest) k =
     (case decryptAes dec ct k of Inr p \<Rightarrow> Inr p | Inl Bad_Tag \<Rightarrow> envelope_open dec rest k | Inl e \<Rightarrow> Inl e)"
proof -
  have "ct \<noteq> []" using assms by (auto simp: size_defs)
  then show ?thesis
    using assms by (simp add: envelope_open.simps [of dec "ct @ rest"] split: sum.split open_error.split)
qed

lemma plain_open:
  assumes "aead_ok C dec bk K" and "k \<in> K" and "list_all (\<lambda>k. length k = KEY_SIZE) ks" and "set ks \<subseteq> K"
  shows "envelope_open dec (fst (encrypt_for_all C bk ks [] ent)) k =
     (if k \<in> set ks then Inr bk else Inl Key_Not_In_Envelope)"
  using assms(3,4)
proof (induction ks arbitrary: ent)
  case Nil
  then show ?case by (simp add: envelope_open.simps)
next
  case (Cons k1 ks)
  have "k1 \<in> K" using Cons.prems by simp
  note d = aead_okD [OF assms(1) this, where ent = ent]
  have "take KEY_SIZE k1 = k1" using Cons.prems by simp
  then show ?case
    using Cons.IH [of "snd (cr_encrypt_aesgcm C k1 bk ent)"] Cons.prems d(2) d(3) [OF assms(2)]
    unfolding encrypt_for_all_Cons by (cases "k = k1") (simp_all add: envelope_open_chunk [OF d(1)])
qed

section \<open>Indexed envelopes\<close>

lemma compareTo_less:
  "length xs = length ys \<Longrightarrow> compareTo xs ys < 0 \<longleftrightarrow> xs < ys"
proof (induction xs ys rule: compareTo.induct)
  case (3 x xs y ys)
  have "x < y \<longleftrightarrow> (of_char x :: nat) < of_char y" by (simp add: less_char_def)
  then show ?case using 3 by (auto simp: Let_def)
qed auto

text \<open>What the loop that fills the ordered container leaves: for every key, under the hash
  of the nonce and the key, the bucket key encrypted for it.\<close>

definition index_of :: "'e crypto \<Rightarrow> string \<Rightarrow> string \<Rightarrow> string" where
  "index_of C nonce k = cr_sha224 C (nonce @ k)"

definition no_collision :: "'e crypto \<Rightarrow> string \<Rightarrow> string set \<Rightarrow> bool" where
  "no_collision C nonce K \<longleftrightarrow> inj_on (index_of C nonce) K"

definition opens_for :: "'e crypto \<Rightarrow> string \<Rightarrow> string \<Rightarrow> string \<Rightarrow> bool" where
  "opens_for C bk k ct \<longleftrightarrow> (\<exists>ent. ct = fst (cr_encrypt_aesgcm C k bk ent))"

lemma ordered_hashes_ok: "map_ok acc \<Longrightarrow> map_ok (fst (ordered_hashes C nonce bk ks acc ent))"
  by (induction ks arbitrary: acc ent) (auto simp: Let_def case_prod_beta)

lemma ordered_hashes_keys:
  "list_all (\<lambda>k. length k = KEY_SIZE) ks \<Longrightarrow>
   fst ` set (fst (ordered_hashes C nonce bk ks acc ent)) = fst ` set acc \<union> index_of C nonce ` set ks"
  by (induction ks arbitrary: acc ent) (auto simp: Let_def case_prod_beta index_of_def)

lemma ordered_hashes_find:
  assumes "list_all (\<lambda>k. length k = KEY_SIZE) ks" and "no_collision C nonce K" and "set ks \<subseteq> K" and "k \<in> K"
    and "map_find (fst (ordered_hashes C nonce bk ks acc ent)) (index_of C nonce k) = Some ct"
    and "\<And>ct. map_find acc (index_of C nonce k) = Some ct \<Longrightarrow> opens_for C bk k ct"
  shows "opens_for C bk k ct"
  using assms(1,3,5,6)
proof (induction ks arbitrary: acc ent)
  case (Cons k1 ks)
  have k1: "take KEY_SIZE k1 = k1" "k1 \<in> K" using Cons.prems by auto
  let ?ct = "fst (cr_encrypt_aesgcm C k1 bk ent)"
  have acc: "opens_for C bk k c"
    if "map_find (map_assign acc (index_of C nonce k1) ?ct) (index_of C nonce k) = Some c" for c
  proof (cases "index_of C nonce k = index_of C nonce k1")
    case True
    then have "k = k1" using assms(2,4) k1(2) by (auto simp: no_collision_def inj_on_def)
    then show ?thesis using that by (auto simp: opens_for_def)
  qed (use that Cons.prems(4) in simp)
  show ?case
  proof (rule Cons.IH)
    show "map_find (fst (ordered_hashes C nonce bk ks (map_assign acc (index_of C nonce k1) ?ct)
        (snd (cr_encrypt_aesgcm C k1 bk ent)))) (index_of C nonce k) = Some ct"
      using Cons.prems(3) k1(1) by (simp add: Let_def case_prod_beta index_of_def)
  qed (use Cons.prems acc in auto)
qed simp

text \<open>The records of an indexed envelope, one after the other.\<close>

definition record_text :: "kvstring \<Rightarrow> string" where
  "record_text rs = concat (map (\<lambda>kv. fst kv @ snd kv) rs)"

definition records_sized :: "kvstring \<Rightarrow> bool" where
  "records_sized rs \<longleftrightarrow> list_all (\<lambda>kv. length (fst kv) = HASHED_INDEX_BYTES \<and> length (snd kv) = ENCRYPTED_KEY_BYTES) rs"

lemma record_text_length: "records_sized rs \<Longrightarrow> length (record_text rs) = INDEXED_ENCRYPTED_KEY_BYTES * length rs"
  by (induction rs) (auto simp: records_sized_def record_text_def INDEXED_ENCRYPTED_KEY_BYTES_def)

lemma record_text_nth:
  "records_sized rs \<Longrightarrow> i < length rs \<Longrightarrow>
   \<exists>rest. drop (i * INDEXED_ENCRYPTED_KEY_BYTES) (record_text rs) = fst (rs ! i) @ snd (rs ! i) @ rest"
proof (induction rs arbitrary: i)
  case (Cons kv rs)
  show ?case
  proof (cases i)
    case 0
    then show ?thesis by (simp add: record_text_def)
  next
    case (Suc n)
    have "length (fst kv @ snd kv) = INDEXED_ENCRYPTED_KEY_BYTES"
      using Cons.prems by (simp add: records_sized_def INDEXED_ENCRYPTED_KEY_BYTES_def)
    then have "drop (i * INDEXED_ENCRYPTED_KEY_BYTES) (record_text (kv # rs)) =
        drop (n * INDEXED_ENCRYPTED_KEY_BYTES) (record_text rs)"
      by (simp add: Suc record_text_def)
    then show ?thesis using Cons.IH [of n] Cons.prems Suc by (simp add: records_sized_def)
  qed
qed simp

lemma map_ok_nth_less: "map_ok rs \<Longrightarrow> i < j \<Longrightarrow> j < length rs \<Longrightarrow> fst (rs ! i) < fst (rs ! j)"
  unfolding map_ok_def using sorted_wrt_nth_less [of "(<)" "map fst rs" i j] by simp

text \<open>The search finds the record of the hash, or reports that there is none.\<close>

lemma indexed_search_found:
  assumes "map_ok rs" and "records_sized rs" and "t < length rs"
    and "0 \<le> left" and "left \<le> int t" and "int t \<le> right" and "right < int (length rs)"
  shows "indexed_search dec (record_text rs) (fst (rs ! t)) k left right = decryptAes dec (snd (rs ! t)) k"
  using assms(4-7)
proof (induction "nat (right - left)" arbitrary: left right rule: less_induct)
  case less
  define i where "i = nat (left + (right - left) div 2)"
  have i: "left \<le> int i" "int i \<le> right" using less.prems by (auto simp: i_def)
  then have il: "i < length rs" using less.prems by simp
  obtain rest where rest: "drop (i * INDEXED_ENCRYPTED_KEY_BYTES) (record_text rs) = fst (rs ! i) @ snd (rs ! i) @ rest"
    using record_text_nth [OF assms(2) il] by blast
  have sz: "length (fst (rs ! j)) = HASHED_INDEX_BYTES" "length (snd (rs ! j)) = ENCRYPTED_KEY_BYTES" if "j < length rs" for j
    using assms(2) that by (auto simp: records_sized_def list_all_length)
  have step: "indexed_search dec (record_text rs) (fst (rs ! t)) k left right =
      (if fst (rs ! i) = fst (rs ! t) then decryptAes dec (snd (rs ! i)) k
       else if fst (rs ! i) < fst (rs ! t) then indexed_search dec (record_text rs) (fst (rs ! t)) k (left + 1) right
       else indexed_search dec (record_text rs) (fst (rs ! t)) k left (right - 1))"
    using less.prems sz [OF il] compareTo_less [of "fst (rs ! i)" "fst (rs ! t)"] sz(1) [OF assms(3)] rest
    by (simp add: indexed_search.simps [of dec "record_text rs" _ k left right] Let_def i_def [symmetric])
  consider "i = t" | "i < t" | "t < i" by linarith
  then show ?case
  proof cases
    case 1
    then show ?thesis using step by simp
  next
    case 2
    then have "fst (rs ! i) < fst (rs ! t)" using map_ok_nth_less [OF assms(1)] assms(3) by blast
    then show ?thesis using step less.hyps [of right "left + 1"] less.prems i 2 by auto
  next
    case 3
    then have "fst (rs ! t) < fst (rs ! i)" using map_ok_nth_less [OF assms(1)] il by blast
    then show ?thesis using step less.hyps [of "right - 1" left] less.prems i 3 by auto
  qed
qed

lemma indexed_search_missing:
  assumes "records_sized rs" and "length h = HASHED_INDEX_BYTES" and "h \<notin> fst ` set rs"
    and "0 \<le> left" and "right < int (length rs)"
  shows "indexed_search dec (record_text rs) h k left right = Inl Key_Not_In_Envelope"
  using assms(4-5)
proof (induction "nat (right - left + 1)" arbitrary: left right rule: less_induct)
  case less
  show ?case
  proof (cases "left \<le> right")
    case True
    define i where "i = nat (left + (right - left) div 2)"
    have il: "i < length rs" using less.prems True by (auto simp: i_def)
    obtain rest where rest: "drop (i * INDEXED_ENCRYPTED_KEY_BYTES) (record_text rs) = fst (rs ! i) @ snd (rs ! i) @ rest"
      using record_text_nth [OF assms(1) il] by blast
    have "length (fst (rs ! i)) = HASHED_INDEX_BYTES" "fst (rs ! i) \<noteq> h"
      using assms(1,3) il by (auto simp: records_sized_def list_all_length)
    then show ?thesis
      using less.hyps [of right "left + 1"] less.hyps [of "right - 1" left] less.prems True rest
      by (simp add: indexed_search.simps [of dec "record_text rs" _ k left right] Let_def i_def [symmetric])
  qed (simp add: indexed_search.simps)
qed

section \<open>Both formats\<close>

text \<open>A digest of SHA-224 has 28 bytes and \<open>get_rand\<close> fills the nonce.\<close>

definition digest_ok :: "'e crypto \<Rightarrow> bool" where
  "digest_ok C \<longleftrightarrow> (\<forall>x. length (cr_sha224 C x) = HASHED_INDEX_BYTES) \<and>
     (\<forall>n ent. length (fst (cr_get_rand C n ent)) = n)"

lemma ordered_hashes_sized:
  assumes "aead_ok C dec bk K" and "digest_ok C"
  shows "list_all (\<lambda>k. length k = KEY_SIZE) ks \<Longrightarrow> set ks \<subseteq> K \<Longrightarrow> records_sized acc \<Longrightarrow> records_sized (fst (ordered_hashes C nonce bk ks acc ent))"
proof (induction ks arbitrary: acc ent)
  case (Cons k ks)
  have "length (fst (cr_encrypt_aesgcm C (take KEY_SIZE k) bk ent)) = ENCRYPTED_KEY_BYTES"
    using Cons.prems aead_okD(1) [OF assms(1)] by simp
  then have "records_sized (map_assign acc (cr_sha224 C (nonce @ take KEY_SIZE k)) (fst (cr_encrypt_aesgcm C (take KEY_SIZE k) bk ent)))"
    using Cons.prems assms(2)
    by (auto simp: records_sized_def list_all_iff digest_ok_def dest!: subsetD [OF set_map_assign_subset])
  then show ?case using Cons by (simp add: Let_def case_prod_beta)
qed simp

lemma indexed_correct:
  assumes "aead_ok C dec bk (insert k (set ks))" and "digest_ok C" and "list_all (\<lambda>k. length k = KEY_SIZE) ks"
    and "length k = KEY_SIZE" and "no_collision C (fst (cr_get_rand C 12 ent)) (insert k (set ks))"
  shows "indexed_open dec (cr_sha224 C) (fst (envelope_text C True bk ks ent)) k =
     (if k \<in> set ks then Inr bk else Inl Key_Not_In_Envelope)"
proof -
  define nonce where "nonce = fst (cr_get_rand C 12 ent)"
  define rs where "rs = fst (ordered_hashes C nonce bk ks [] (snd (cr_get_rand C 12 ent)))"
  have env: "fst (envelope_text C True bk ks ent) = nonce @ record_text rs"
    by (simp add: envelope_text_def nonce_def rs_def record_text_def case_prod_beta)
  have nl: "length nonce = NONCE_BYTES"
    using assms(2) by (simp add: nonce_def digest_ok_def NONCE_BYTES_def)
  have rs: "map_ok rs" "records_sized rs"
    using ordered_hashes_ok [of "[]" C nonce bk ks] ordered_hashes_sized [OF assms(1,2) assms(3), of "[]" nonce]
    by (simp_all add: rs_def records_sized_def subset_insertI)
  have keys: "fst ` set rs = index_of C nonce ` set ks"
    using ordered_hashes_keys [OF assms(3), of C nonce bk "[]"] by (simp add: rs_def)
  have n: "length (record_text rs) div INDEXED_ENCRYPTED_KEY_BYTES = length rs"
    using record_text_length [OF rs(2)] by (simp add: size_defs)
  have kl: "string_resize CIPHER_KEY_BYTES k = k" "\<not> length k > CIPHER_KEY_BYTES"
    using assms(4) by (simp_all add: KEY_SIZE_def CIPHER_KEY_BYTES_def)
  have search: "indexed_open dec (cr_sha224 C) (fst (envelope_text C True bk ks ent)) k =
      indexed_search dec (record_text rs) (index_of C nonce k) k 0 (int (length rs) - 1)"
    using nl kl n by (simp add: indexed_open_def env index_of_def Let_def)
  show ?thesis
  proof (cases "k \<in> set ks")
    case True
    then obtain t where t: "t < length rs" "fst (rs ! t) = index_of C nonce k"
      using keys by (metis (no_types, lifting) image_iff in_set_conv_nth)
    have "map_find rs (index_of C nonce k) = Some (snd (rs ! t))"
      using map_find_in_set [OF rs(1)] t by (metis nth_mem prod.collapse)
    then have "opens_for C bk k (snd (rs ! t))"
      using ordered_hashes_find [OF assms(3) assms(5), of k bk "[]"] by (simp add: rs_def nonce_def subset_insertI)
    then have "decryptAes dec (snd (rs ! t)) k = Inr bk"
      using aead_okD(2) [OF assms(1)] by (auto simp: opens_for_def)
    then show ?thesis
      using indexed_search_found [OF rs t(1), of 0 "int (length rs) - 1" dec k] t True search by simp
  next
    case False
    have "index_of C nonce k \<notin> fst ` set rs"
      using False assms(5) unfolding keys by (auto simp: no_collision_def nonce_def inj_on_def)
    moreover have "length (index_of C nonce k) = HASHED_INDEX_BYTES"
      using assms(2) by (simp add: digest_ok_def index_of_def)
    ultimately show ?thesis
      using indexed_search_missing [OF rs(2)] False search by simp
  qed
qed

definition client_open :: "cipher \<Rightarrow> 'e crypto \<Rightarrow> bool \<Rightarrow> string \<Rightarrow> string \<Rightarrow> (open_error, string) sum" where
  "client_open dec C indexed env k =
     (if indexed then indexed_open dec (cr_sha224 C) env k else envelope_open dec env k)"

lemma envelope_correct:
  assumes "aead_ok C dec bk (insert k (set ks))" and "digest_ok C" and "list_all (\<lambda>k. length k = KEY_SIZE) ks"
    and "length k = KEY_SIZE" and "no_collision C (fst (cr_get_rand C 12 ent)) (insert k (set ks))"
  shows "client_open dec C indexed (fst (envelope_text C indexed bk ks ent)) k =
     (if k \<in> set ks then Inr bk else Inl Key_Not_In_Envelope)"
  using indexed_correct [OF assms] plain_open [OF assms(1) _ assms(3)]
  by (cases indexed) (simp_all add: client_open_def envelope_text_def subset_insertI)

end
