(* ===== verification/Sample_Crypto.thy ===== *)
theory Sample_Crypto
  imports Service_Answers Envelope_Client
begin

text \<open>
  A concrete instance of the cryptographic parameters, with which the properties of the
  access monitor are evaluated on concrete requests, and the property of the two envelope
  formats.
\<close>

section \<open>A small instance of the cryptographic library\<close>

text \<open>Functions with the shapes of the library's, to evaluate the handlers on concrete
  requests: hexadecimal for Base64, a prefix of the input for the digest, and a cipher that
  checks the first 28 bytes of the key.\<close>

definition hex_value :: "char \<Rightarrow> nat" where
  "hex_value c = (if (of_char c :: nat) < 0x41 then of_char c - 0x30 else of_char c - 0x37)"

fun unhex :: "string \<Rightarrow> string" where
  "unhex (a # b # s) = char_of (16 * hex_value a + hex_value b) # unhex s"
| "unhex _ = []"

definition hex_text :: "string \<Rightarrow> string" where
  "hex_text s = concat (map (\<lambda>c. hex2 (of_char c)) s)"

definition sample_crypto :: "nat crypto" where
  "sample_crypto = \<lparr>cr_b64_encode = hex_text, cr_b64_decode = (\<lambda>s. Inr (unhex s)),
     cr_sha224 = (\<lambda>x. string_resize 28 (drop 12 x)),
     cr_encrypt_aesgcm = (\<lambda>k p ent. (take 28 k @ p, ent + 1)),
     cr_get_rand = (\<lambda>n ent. (replicate n (char_of ent), ent + 1)),
     cr_read_rand = (\<lambda>n ent. (string_resize n [char_of ent], ent + 1)),
     cr_rand = (\<lambda>ent. (word_of_nat ent, ent + 1))\<rparr>"

definition sample_http :: http_strings where
  "sample_http = \<lparr>hs_http11 = ''HTTP/1.1'', hs_connection = ''Connection'', hs_keepalive = ''keep-alive'',
     hs_contenttype = ''Content-Type'', hs_auth = ''Authorization''\<rparr>"

definition sample_build :: build where
  "sample_build = \<lparr>bd_memdatabase = True, bd_abemongo = False, bd_native = False, bd_args_left_first = True\<rparr>"

definition sample_cipher :: cipher where
  "sample_cipher key iv data =
     (if take 28 key = iv @ take 16 data then Some (drop 16 data) else None)"

lemma hex_value_digit: "d < 16 \<Longrightarrow> hex_value (hex_digit 0x41 d) = d"
  by (auto simp: hex_value_def hex_digit_def)

lemma unhex_hex_text: "unhex (hex_text s) = s"
proof (induction s)
  case (Cons c s)
  have "(of_char c :: nat) div 16 < 16"
    using nat_of_char_less_256 [of c] by (simp add: less_mult_imp_div_less)
  then show ?case
    using Cons by (simp add: hex_text_def hex2_def hex_value_digit)
qed (simp add: hex_text_def)

lemma hex_text_valid: "utf8_valid (hex_text s)"
proof (induction s)
  case (Cons c s)
  have "(of_char (hex_digit 0x41 d) :: nat) < 0x80" if "d < 16" for d
    using that by (simp add: hex_digit_def)
  then show ?case
    using Cons by (simp add: hex_text_def hex2_def utf8_valid_Cons_ascii)
qed (simp add: hex_text_def)

lemma sample_crypto_laws:
  "crypto_text sample_crypto" "rand_fills sample_crypto" "digest_ok sample_crypto"
  "cr_b64_decode sample_crypto (cr_b64_encode sample_crypto x) = Inr x"
  by (simp_all add: crypto_text_def sample_crypto_def hex_text_valid rand_fills_def digest_ok_def
      HASHED_INDEX_BYTES_def unhex_hex_text)

lemma sample_decrypt:
  assumes "length a = 28"
  shows "decryptAes sample_cipher (a @ p) k = (if take 28 k = a then Inr p else Inl Bad_Tag)"
proof -
  have "take 16 (drop 12 (a @ p)) = drop 12 a" "drop 16 (drop 12 (a @ p)) = p" "take 12 (a @ p) = take 12 a"
    using assms by simp_all
  then show ?thesis
    using assms append_take_drop_id [of 12 a] by (simp add: decryptAes_def sample_cipher_def CIPHER_IV_BYTES_def del: drop_drop)
qed

lemma sample_aead:
  assumes "length bk = 32" and "\<And>k. k \<in> K \<Longrightarrow> length k = 32" and "inj_on (take 28) K"
  shows "aead_ok sample_crypto sample_cipher bk K"
proof -
  have "length (take 28 k) = 28" if "k \<in> K" for k using assms(2) [OF that] by simp
  then show ?thesis
    using assms(1,3) by (auto simp: aead_ok_def sample_crypto_def sample_decrypt size_defs inj_on_def)
qed

text \<open>C13: the envelope formats. From the envelope that the monitor makes for a list of keys,
  plain or indexed, the client recovers the bucket key if its key is in the list, and is told
  that its key is not in the envelope otherwise. The indexed format relies on the digests of
  the keys at hand being distinct.\<close>

theorem envelope_opens_for_members_only:
  assumes "aead_ok C dec bk (insert k (set ks))" and "digest_ok C" and "list_all (\<lambda>k. length k = KEY_SIZE) ks"
    and "length k = KEY_SIZE" and "no_collision C (fst (cr_get_rand C 12 ent)) (insert k (set ks))"
  shows "client_open dec C indexed (fst (envelope_text C indexed bk ks ent)) k =
     (if k \<in> set ks then Inr bk else Inl Key_Not_In_Envelope)"
  using assms by (rule envelope_correct)

definition sample_bucket_key :: string where
  "sample_bucket_key = replicate 32 (CHR ''b'')"

lemma sample_keys_distinct: "m < 3 \<Longrightarrow> n < 3 \<Longrightarrow> take 28 (sample_key m) = take 28 (sample_key n) \<Longrightarrow> m = n"
  by (auto simp: sample_key_def numeral_3_eq_3 less_Suc_eq)

lemma sample_key_sizes: "length (sample_key n) = 32" "length sample_bucket_key = 32"
  by (simp_all add: KEY_SIZE_def sample_bucket_key_def)

lemma sample_no_collision:
  assumes "K \<subseteq> sample_key ` {0, 1, 2}"
  shows "inj_on (take 28) K" "no_collision sample_crypto (replicate 12 x) K"
proof -
  show i: "inj_on (take 28) K"
  proof (rule inj_onI)
    fix a b assume ab: "a \<in> K" "b \<in> K" "take 28 a = take 28 b"
    obtain m n where "a = sample_key m" "b = sample_key n" "m < 3" "n < 3"
      using subsetD [OF assms ab(1)] subsetD [OF assms ab(2)] by auto
    then show "a = b" using sample_keys_distinct ab(3) by blast
  qed
  have "index_of sample_crypto (replicate 12 x) k = take 28 k" if "k \<in> K" for k
  proof -
    have "length k = 32" using that assms sample_key_sizes by auto
    then show ?thesis by (simp add: index_of_def sample_crypto_def string_resize_def)
  qed
  then show "no_collision sample_crypto (replicate 12 x) K"
    using i by (simp add: no_collision_def inj_on_def)
qed

theorem envelope_opens_for_members_only_witness:
  "client_open sample_cipher sample_crypto True
     (fst (envelope_text sample_crypto True sample_bucket_key [sample_key 0, sample_key 1] 7)) (sample_key 1) = Inr sample_bucket_key \<and>
   client_open sample_cipher sample_crypto False
     (fst (envelope_text sample_crypto False sample_bucket_key [sample_key 0, sample_key 1] 7)) (sample_key 2) = Inl Key_Not_In_Envelope"
proof -
  have r: "fst (cr_get_rand sample_crypto 12 7) = replicate 12 (char_of (7 :: nat))" by (simp add: sample_crypto_def)
  have open_eq: "client_open sample_cipher sample_crypto b
     (fst (envelope_text sample_crypto b sample_bucket_key [sample_key 0, sample_key 1] 7)) k =
     (if k \<in> {sample_key 0, sample_key 1} then Inr sample_bucket_key else Inl Key_Not_In_Envelope)"
    if "k = sample_key 1 \<or> k = sample_key 2" for b k
  proof -
    have sub: "insert k (set [sample_key 0, sample_key 1]) \<subseteq> sample_key ` {0, 1, 2}" using that by auto
    have ae: "aead_ok sample_crypto sample_cipher sample_bucket_key (insert k (set [sample_key 0, sample_key 1]))"
      by (rule sample_aead [OF sample_key_sizes(2) _ sample_no_collision(1) [OF sub]])
        (use subsetD [OF sub] sample_key_sizes(1) in blast)
    have sz: "list_all (\<lambda>k. length k = KEY_SIZE) [sample_key 0, sample_key 1]" "length k = KEY_SIZE"
      using that by auto
    show ?thesis
      using envelope_opens_for_members_only [OF ae sample_crypto_laws(3) sz, of 7 b]
        sample_no_collision(2) [OF sub] unfolding r by simp
  qed
  have "sample_key 2 \<noteq> sample_key 0" "sample_key 2 \<noteq> sample_key 1" by (simp_all add: sample_key_def)
  then show ?thesis using open_eq [of "sample_key 1" True] open_eq [of "sample_key 2" False] by simp
qed

end
