(* ===== verification/Tls_Connections.thy ===== *)
theory Tls_Connections
  imports Std_Containers "HOL-Library.Word"
begin

text \<open>
  The TLS connections of the enclaves (\<open>tls_config.cpp\<close>, \<open>tls_config.h\<close>): the class
  \<open>IncomeSSLConnection\<close> with its table of connections, the ownership of SSL objects and
  descriptors through moves, closing and destruction, sending and receiving. OpenSSL and the
  socket descriptors are not in the repository: a record of functions says what the library
  answers, and every call to it is recorded, so that the properties can speak of leaks, of
  double frees and of uses after a free.
\<close>

section \<open>OpenSSL and the descriptors\<close>

text \<open>An \<open>SSL *\<close>: \<open>None\<close> is the null pointer, the objects are numbered in the
  order in which they are made. Every call that creates, uses or releases an object or a
  descriptor is recorded.\<close>

type_synonym ssl = "nat option"

datatype lib_call =
    Call_SSL_new ssl
  | Call_SSL_set_fd ssl int
  | Call_SSL_accept ssl
  | Call_SSL_read ssl
  | Call_SSL_write ssl string
  | Call_SSL_get_error ssl
  | Call_SSL_free ssl
  | Call_close int

datatype ssl_error =
    SSL_ERROR_NONE
  | SSL_ERROR_SSL
  | SSL_ERROR_WANT_READ
  | SSL_ERROR_WANT_WRITE
  | SSL_ERROR_WANT_X509_LOOKUP
  | SSL_ERROR_SYSCALL
  | SSL_ERROR_ZERO_RETURN
  | SSL_ERROR_WANT_CONNECT
  | SSL_ERROR_WANT_ACCEPT
  | SSL_ERROR_other

text \<open>What the library answers, over a state of the network: whether an object can be
  allocated, the result of a handshake, of a read (with the bytes read) and of a write,
  and the classification of a result.\<close>

record 'n openssl =
  os_new :: "'n \<Rightarrow> bool \<times> 'n"
  os_accept :: "ssl \<Rightarrow> 'n \<Rightarrow> int \<times> 'n"
  os_read :: "ssl \<Rightarrow> nat \<Rightarrow> 'n \<Rightarrow> (int \<times> string) \<times> 'n"
  os_write :: "ssl \<Rightarrow> string \<Rightarrow> 'n \<Rightarrow> int \<times> 'n"
  os_get_error :: "ssl \<Rightarrow> int \<Rightarrow> 'n \<Rightarrow> ssl_error"

record 'd income =
  ic_fd :: int
  ic_ssl :: ssl
  ic_decoder :: 'd

record ('n, 'd) tls =
  tl_ctx :: bool
  tl_table :: "(int, 'd income) std_map"
  tl_next :: nat
  tl_log :: "lib_call list"
  tl_net :: 'n

definition tls_start :: "'n \<Rightarrow> ('n, 'd) tls" where
  "tls_start net = \<lparr>tl_ctx = False, tl_table = [], tl_next = 0, tl_log = [], tl_net = net\<rparr>"

definition calls :: "lib_call list \<Rightarrow> ('n, 'd) tls \<Rightarrow> ('n, 'd) tls" where
  "calls cs w = w\<lparr>tl_log := tl_log w @ cs\<rparr>"

definition SSL_new :: "'n openssl \<Rightarrow> ('n, 'd) tls \<Rightarrow> ssl \<times> ('n, 'd) tls" where
  "SSL_new L w =
     (let (ok, net) = os_new L (tl_net w); s = (if ok then Some (tl_next w) else None)
      in (s, calls [Call_SSL_new s] (w\<lparr>tl_next := Suc (tl_next w), tl_net := net\<rparr>)))"

definition SSL_accept :: "'n openssl \<Rightarrow> ssl \<Rightarrow> ('n, 'd) tls \<Rightarrow> int \<times> ('n, 'd) tls" where
  "SSL_accept L s w = (let (r, net) = os_accept L s (tl_net w) in (r, calls [Call_SSL_accept s] (w\<lparr>tl_net := net\<rparr>)))"

definition SSL_read :: "'n openssl \<Rightarrow> ssl \<Rightarrow> nat \<Rightarrow> ('n, 'd) tls \<Rightarrow> (int \<times> string) \<times> ('n, 'd) tls" where
  "SSL_read L s len w = (let (r, net) = os_read L s len (tl_net w) in (r, calls [Call_SSL_read s] (w\<lparr>tl_net := net\<rparr>)))"

definition SSL_write :: "'n openssl \<Rightarrow> ssl \<Rightarrow> string \<Rightarrow> ('n, 'd) tls \<Rightarrow> int \<times> ('n, 'd) tls" where
  "SSL_write L s buff w = (let (r, net) = os_write L s buff (tl_net w) in (r, calls [Call_SSL_write s buff] (w\<lparr>tl_net := net\<rparr>)))"

definition SSL_get_error :: "'n openssl \<Rightarrow> ssl \<Rightarrow> int \<Rightarrow> ('n, 'd) tls \<Rightarrow> ssl_error \<times> ('n, 'd) tls" where
  "SSL_get_error L s r w = (os_get_error L s r (tl_net w), calls [Call_SSL_get_error s] w)"

section \<open>Connections\<close>

fun error_name :: "ssl_error \<Rightarrow> string" where
  "error_name SSL_ERROR_NONE = ''SSL_ERROR_NONE''"
| "error_name SSL_ERROR_SSL = ''SSL_ERROR_SSL''"
| "error_name SSL_ERROR_WANT_READ = ''SSL_ERROR_WANT_READ''"
| "error_name SSL_ERROR_WANT_WRITE = ''SSL_ERROR_WANT_WRITE''"
| "error_name SSL_ERROR_WANT_X509_LOOKUP = ''SSL_ERROR_WANT_X509_LOOKUP''"
| "error_name SSL_ERROR_SYSCALL = ''SSL_ERROR_SYSCALL''"
| "error_name SSL_ERROR_ZERO_RETURN = ''SSL_ERROR_ZERO_RETURN''"
| "error_name SSL_ERROR_WANT_CONNECT = ''SSL_ERROR_WANT_CONNECT''"
| "error_name SSL_ERROR_WANT_ACCEPT = ''SSL_ERROR_WANT_ACCEPT''"
| "error_name SSL_ERROR_other = ''UNKKNOWN''"

definition err_str :: "'n openssl \<Rightarrow> ssl \<Rightarrow> int \<Rightarrow> ('n, 'd) tls \<Rightarrow> string \<times> ('n, 'd) tls" where
  "err_str L s r w = (let (e, w1) = SSL_get_error L s r w in (error_name e, w1))"

text \<open>\<open>close\<close> releases what the connection still owns; the destructor is \<open>close\<close>.\<close>

definition close_calls :: "'d income \<Rightarrow> lib_call list" where
  "close_calls c =
     (if ic_ssl c \<noteq> None then [Call_SSL_free (ic_ssl c)] else []) @
     (if ic_fd c \<noteq> - 1 then [Call_close (ic_fd c)] else [])"

definition released :: "'d income \<Rightarrow> 'd income" where
  "released c = c\<lparr>ic_fd := - 1, ic_ssl := None\<rparr>"

definition conn_close :: "'d income \<Rightarrow> ('n, 'd) tls \<Rightarrow> 'd income \<times> ('n, 'd) tls" where
  "conn_close c w = (released c, calls (close_calls c) w)"

definition conn_destroy :: "'d income \<Rightarrow> ('n, 'd) tls \<Rightarrow> ('n, 'd) tls" where
  "conn_destroy c w = snd (conn_close c w)"

text \<open>The move constructor returns the new connection and what is left of the old one; the
  move assignment first closes its target.\<close>

definition conn_move :: "'d income \<Rightarrow> 'd income \<times> 'd income" where
  "conn_move c = (\<lparr>ic_fd = ic_fd c, ic_ssl = ic_ssl c, ic_decoder = ic_decoder c\<rparr>, released c)"

definition conn_assign ::
  "'d income \<Rightarrow> 'd income \<Rightarrow> ('n, 'd) tls \<Rightarrow> 'd income \<times> 'd income \<times> ('n, 'd) tls" where
  "conn_assign this c w =
     (let (this1, w1) = conn_close (this\<lparr>ic_decoder := ic_decoder c\<rparr>) w
      in (this1\<lparr>ic_fd := ic_fd c, ic_ssl := ic_ssl c\<rparr>, released c, w1))"

section \<open>The table\<close>

text \<open>\<open>init\<close>: \<open>create_context\<close> leaves the program if no context can be made. The key,
  the certificate and the options of the context are the library's.\<close>

definition tls_init :: "bool \<Rightarrow> ('n, 'd) tls \<Rightarrow> ('n, 'd) tls process" where
  "tls_init context_made w = (if context_made then Runs (w\<lparr>tl_ctx := True\<rparr>) else Exits 1)"

text \<open>\<open>connection_table.erase(fd)\<close> destroys the erased element.\<close>

definition erase_connection :: "int \<Rightarrow> ('n, 'd) tls \<Rightarrow> ('n, 'd) tls" where
  "erase_connection fd w =
     (case map_find (tl_table w) fd of
        None \<Rightarrow> w
      | Some c \<Rightarrow> conn_destroy c (w\<lparr>tl_table := map_erase (tl_table w) fd\<rparr>))"

text \<open>\<open>insert(make_pair(fd, IncomeSSLConnection(fd, cli)))\<close>: the temporary is moved into
  the pair and the pair into the table, if the key is new; what is left of the two is
  destroyed.\<close>

definition insert_connection :: "int \<Rightarrow> 'd income \<Rightarrow> ('n, 'd) tls \<Rightarrow> ('n, 'd) tls" where
  "insert_connection fd c w =
     (let (p, temp) = conn_move c
      in case map_find (tl_table w) fd of
           None \<Rightarrow>
             (let (stored, p1) = conn_move p
              in conn_destroy temp (conn_destroy p1 (w\<lparr>tl_table := map_assign (tl_table w) fd stored\<rparr>)))
         | Some _ \<Rightarrow> conn_destroy temp (conn_destroy p w))"

text \<open>The handshake of \<open>addConnection\<close>, after a connection left over under the same
  descriptor has been erased.\<close>

definition accept_connection :: "'n openssl \<Rightarrow> 'd \<Rightarrow> int \<Rightarrow> ('n, 'd) tls \<Rightarrow> int \<times> ('n, 'd) tls" where
  "accept_connection L decoder fd w =
     (let (cli, w2) = SSL_new L w;
          w3 = calls [Call_SSL_set_fd cli fd] w2;
          (r, w4) = SSL_accept L cli w3
      in if r \<le> 0 then
           let w5 = calls [Call_SSL_free cli] w4;
               (msg, w6) = err_str L cli r w5
           in (- 2, calls [Call_close fd] w6)
         else (0, insert_connection fd \<lparr>ic_fd = fd, ic_ssl = cli, ic_decoder = decoder\<rparr> w4))"

definition addConnection :: "'n openssl \<Rightarrow> 'd \<Rightarrow> int \<Rightarrow> ('n, 'd) tls \<Rightarrow> int \<times> ('n, 'd) tls" where
  "addConnection L decoder fd w =
     (if \<not> tl_ctx w then (- 1, w)
      else if map_find (tl_table w) fd \<noteq> None
      then accept_connection L decoder fd (erase_connection fd w)
      else accept_connection L decoder fd w)"

datatype tls_exn = NO_ERROR | NOT_FOUND | CONNECTION_CLOSED | Runtime_Error string

definition getConnection :: "int \<Rightarrow> ('n, 'd) tls \<Rightarrow> (tls_exn, 'd income) sum" where
  "getConnection fd w = (case map_find (tl_table w) fd of Some c \<Rightarrow> Inr c | None \<Rightarrow> Inl NOT_FOUND)"

definition removeConnection :: "int \<Rightarrow> ('n, 'd) tls \<Rightarrow> (tls_exn, unit) sum \<times> ('n, 'd) tls" where
  "removeConnection fd w =
     (case map_find (tl_table w) fd of
        Some c \<Rightarrow> (Inr (), erase_connection fd w)
      | None \<Rightarrow> (Inl NOT_FOUND, w))"

text \<open>\<open>finish\<close> closes every connection; clearing the table then destroys the closed ones.\<close>

fun close_all :: "(int \<times> 'd income) list \<Rightarrow> ('n, 'd) tls \<Rightarrow> (int \<times> 'd income) list \<times> ('n, 'd) tls" where
  "close_all [] w = ([], w)"
| "close_all (kv # kvs) w =
     (let (c, w1) = conn_close (snd kv) w; (rest, w2) = close_all kvs w1
      in ((fst kv, c) # rest, w2))"

definition tls_finish :: "('n, 'd) tls \<Rightarrow> ('n, 'd) tls" where
  "tls_finish w =
     (let (closed, w1) = close_all (tl_table w) w
      in fold (\<lambda>kv. conn_destroy (snd kv)) closed (w1\<lparr>tl_table := []\<rparr>))"

section \<open>Sending and receiving\<close>

definition send_tries :: nat where
  "send_tries = 1000000"

function send_loop ::
  "'n openssl \<Rightarrow> ssl \<Rightarrow> string \<Rightarrow> nat \<Rightarrow> ('n, 'd) tls \<Rightarrow> (nat \<times> int \<times> ssl_error) \<times> ('n, 'd) tls" where
  "send_loop L s buff i w =
     (let (ret, w1) = SSL_write L s buff w;
          (e, w2) = SSL_get_error L s ret w1
      in if e = SSL_ERROR_WANT_WRITE \<and> i + 1 < send_tries then send_loop L s buff (i + 1) w2
         else ((i + 1, ret, e), w2))"
  by pat_completeness auto
termination
  by (relation "measure (\<lambda>(L, s, b, i, w). send_tries - i)") auto

declare send_loop.simps [simp del]

definition conn_send :: "'n openssl \<Rightarrow> 'd income \<Rightarrow> string \<Rightarrow> ('n, 'd) tls \<Rightarrow> int \<times> ('n, 'd) tls" where
  "conn_send L c buff w =
     (let ((i, ret, e), w1) = send_loop L (ic_ssl c) buff 0 w
      in if e = SSL_ERROR_NONE then (0, w1)
         else (let (msg, w2) = err_str L (ic_ssl c) ret w1 in (- 1, w2)))"

text \<open>\<open>recv\<close>: the bytes read or the exception, and the connection as it leaves it.\<close>

definition conn_recv ::
  "'n openssl \<Rightarrow> 'd income \<Rightarrow> nat \<Rightarrow> ('n, 'd) tls \<Rightarrow> (tls_exn, int \<times> string) sum \<times> 'd income \<times> ('n, 'd) tls" where
  "conn_recv L c len w =
     (let ((read, buff), w1) = SSL_read L (ic_ssl c) len w
      in if read = 0 then (let (c1, w2) = conn_close c w1 in (Inl CONNECTION_CLOSED, c1, w2))
         else if read < 0 then (let (msg, w2) = err_str L (ic_ssl c) read w1 in (Inl (Runtime_Error msg), c, w2))
         else (Inr (read, take (nat read) buff), c, w1))"

section \<open>Ownership\<close>

text \<open>The objects that exist after a sequence of calls, and the sequences in which an object
  is freed only while it exists.\<close>

fun live_after :: "nat set \<Rightarrow> lib_call \<Rightarrow> nat set" where
  "live_after S (Call_SSL_new (Some h)) = insert h S"
| "live_after S (Call_SSL_free (Some h)) = S - {h}"
| "live_after S c = S"

fun frees_ok :: "nat set \<Rightarrow> lib_call list \<Rightarrow> bool" where
  "frees_ok S [] = True"
| "frees_ok S (c # cs) = ((case c of Call_SSL_free (Some h) \<Rightarrow> h \<in> S | _ \<Rightarrow> True) \<and> frees_ok (live_after S c) cs)"

definition live :: "lib_call list \<Rightarrow> nat set" where
  "live cs = foldl live_after {} cs"

definition handles :: "(int, 'd income) std_map \<Rightarrow> nat set" where
  "handles m = {h. \<exists>k c. map_find m k = Some c \<and> ic_ssl c = Some h}"

text \<open>The invariant of the table: every connection is stored under its descriptor, no two
  share an object, the objects that exist are exactly those of the table (nothing leaks),
  and nothing was freed twice.\<close>

definition tls_inv :: "('n, 'd) tls \<Rightarrow> bool" where
  "tls_inv w \<longleftrightarrow> map_ok (tl_table w) \<and>
     (\<forall>k c. map_find (tl_table w) k = Some c \<longrightarrow> ic_fd c = k) \<and>
     (\<forall>k c k' c' h. map_find (tl_table w) k = Some c \<longrightarrow> map_find (tl_table w) k' = Some c' \<longrightarrow>
        ic_ssl c = Some h \<longrightarrow> ic_ssl c' = Some h \<longrightarrow> k = k') \<and>
     live (tl_log w) = handles (tl_table w) \<and> frees_ok {} (tl_log w) \<and>
     (\<forall>h \<in> handles (tl_table w). h < tl_next w)"

definition neutral :: "lib_call \<Rightarrow> bool" where
  "neutral c \<longleftrightarrow> (\<forall>S. live_after S c = S) \<and> (\<forall>S. frees_ok S [c])"

lemma live_append: "live (a @ b) = foldl live_after (live a) b"
  by (simp add: live_def)

lemma frees_ok_append: "frees_ok S (a @ b) \<longleftrightarrow> frees_ok S a \<and> frees_ok (foldl live_after S a) b"
  by (induction a arbitrary: S) auto

lemma neutral_calls [simp]:
  "neutral (Call_SSL_set_fd s fd)" "neutral (Call_SSL_accept s)" "neutral (Call_SSL_read s)"
  "neutral (Call_SSL_write s b)" "neutral (Call_SSL_get_error s)" "neutral (Call_close fd)"
  by (simp_all add: neutral_def)

lemma neutral_log:
  assumes "list_all neutral cs"
  shows "live (log @ cs) = live log" "frees_ok S (log @ cs) \<longleftrightarrow> frees_ok S log"
proof -
  have "foldl live_after S cs = S \<and> frees_ok S cs" for S
    using assms by (induction cs arbitrary: S) (auto simp: neutral_def)
  then show "live (log @ cs) = live log" "frees_ok S (log @ cs) \<longleftrightarrow> frees_ok S log"
    by (auto simp: live_append frees_ok_append)
qed

lemma calls_sel [simp]:
  "tl_ctx (calls cs w) = tl_ctx w" "tl_table (calls cs w) = tl_table w" "tl_next (calls cs w) = tl_next w"
  "tl_net (calls cs w) = tl_net w" "tl_log (calls cs w) = tl_log w @ cs"
  by (simp_all add: calls_def)

lemma inv_cong:
  assumes "tls_inv w" and "tl_table w' = tl_table w" and "tl_log w' = tl_log w @ cs" and "list_all neutral cs"
    and "tl_next w \<le> tl_next w'"
  shows "tls_inv w'"
proof -
  have "h < tl_next w'" if "h \<in> handles (tl_table w)" for h
    using assms(1,5) that unfolding tls_inv_def by (meson order_less_le_trans)
  then show ?thesis
    using assms(1) unfolding tls_inv_def assms(2,3) neutral_log [OF assms(4)] by simp
qed

lemma handles_erase:
  assumes "tls_inv w" and "map_find (tl_table w) fd = Some c"
  shows "handles (map_erase (tl_table w) fd) = handles (tl_table w) - set_option (ic_ssl c)"
proof -
  have one: "k = fd" if "map_find (tl_table w) k = Some c'" "ic_ssl c' = Some h" "ic_ssl c = Some h" for k c' h
    using assms that unfolding tls_inv_def by blast
  have "h \<in> handles (map_erase (tl_table w) fd) \<longleftrightarrow>
      (\<exists>k c'. k \<noteq> fd \<and> map_find (tl_table w) k = Some c' \<and> ic_ssl c' = Some h)" for h
    unfolding handles_def mem_Collect_eq map_find_erase by (metis option.distinct(1))
  moreover have "h \<in> handles (tl_table w) \<longleftrightarrow> (\<exists>k c'. map_find (tl_table w) k = Some c' \<and> ic_ssl c' = Some h)" for h
    by (simp add: handles_def)
  ultimately show ?thesis
    using one assms(2) unfolding set_eq_iff Diff_iff elem_set by (metis option.inject)
qed

lemma close_calls_log:
  assumes "set_option (ic_ssl c) \<subseteq> S"
  shows "foldl live_after S (close_calls c) = S - set_option (ic_ssl c)" "frees_ok S (close_calls c)"
  using assms by (cases "ic_ssl c"; simp add: close_calls_def)+

lemma close_calls_released [simp]: "close_calls (released c) = []"
  by (simp add: close_calls_def released_def)

lemma conn_destroy_eq: "conn_destroy c w = calls (close_calls c) w"
  by (simp add: conn_destroy_def conn_close_def)

lemma calls_Nil [simp]: "calls [] w = w"
  by (simp add: calls_def)

lemma erase_connection_inv:
  assumes inv: "tls_inv w"
  shows "tls_inv (erase_connection fd w)"
proof (cases "map_find (tl_table w) fd")
  case None
  then show ?thesis using inv by (simp add: erase_connection_def)
next
  case (Some c)
  have sub: "set_option (ic_ssl c) \<subseteq> live (tl_log w)"
    using inv Some by (auto simp: tls_inv_def handles_def)
  have "live (tl_log w @ close_calls c) = handles (map_erase (tl_table w) fd)"
    using handles_erase [OF inv Some] close_calls_log(1) [OF sub] inv by (simp add: tls_inv_def live_append)
  moreover have "frees_ok {} (tl_log w @ close_calls c)"
    using close_calls_log(2) [OF sub] inv by (simp add: tls_inv_def frees_ok_append live_def)
  moreover have "handles (map_erase (tl_table w) fd) \<subseteq> handles (tl_table w)"
    by (auto simp: handles_def split: if_splits)
  ultimately show ?thesis
    using inv Some by (simp add: erase_connection_def conn_destroy_eq tls_inv_def subset_eq)
qed

lemma erase_connection_sel [simp]:
  "tl_ctx (erase_connection fd w) = tl_ctx w" "tl_next (erase_connection fd w) = tl_next w"
  "map_find (tl_table (erase_connection fd w)) k = (if k = fd then None else map_find (tl_table w) k)"
  by (auto simp: erase_connection_def conn_destroy_eq split: option.split)

lemma insert_connection_new:
  assumes "map_find (tl_table w) fd = None"
  shows "insert_connection fd c w = w\<lparr>tl_table := map_assign (tl_table w) fd (fst (conn_move c))\<rparr>"
  using assms by (simp add: insert_connection_def conn_move_def conn_destroy_eq)

lemma handles_assign:
  assumes "map_find m fd = None"
  shows "handles (map_assign m fd c) = handles m \<union> set_option (ic_ssl c)"
proof -
  have "k \<noteq> fd" if "map_find m k = Some c'" for k c'
    using assms that by auto
  then show ?thesis
    by (auto simp: handles_def split: if_splits)
qed

text \<open>A new connection with a fresh object.\<close>

lemma insert_connection_inv:
  assumes inv: "tls_inv w" and new: "map_find (tl_table w) fd = None"
    and fresh: "w1 = w\<lparr>tl_next := Suc (tl_next w), tl_net := net, tl_log := log\<rparr>"
    and log: "log = tl_log w @ Call_SSL_new s # cs" "list_all neutral cs"
    and s: "s = None \<or> s = Some (tl_next w)"
  shows "tls_inv (insert_connection fd \<lparr>ic_fd = fd, ic_ssl = s, ic_decoder = d\<rparr> w1)"
proof -
  have not: "tl_next w \<notin> handles (tl_table w)"
    using inv by (auto simp: tls_inv_def)
  have split: "tl_log w @ Call_SSL_new s # cs = (tl_log w @ [Call_SSL_new s]) @ cs" by simp
  have live: "live log = handles (tl_table w) \<union> set_option s" and ok: "frees_ok {} log"
    using inv s unfolding log(1) split neutral_log [OF log(2)]
    by (auto simp: tls_inv_def live_append frees_ok_append)
  have uniq: "h \<noteq> tl_next w" if "map_find (tl_table w) k = Some c" "ic_ssl c = Some h" for k c h
    using that not by (auto simp: handles_def)
  have below: "\<forall>h \<in> handles (tl_table w). h < Suc (tl_next w)"
    using inv by (auto simp: tls_inv_def)
  have one: "k = k'" if "map_find (tl_table w) k = Some c" "map_find (tl_table w) k' = Some c'"
    "ic_ssl c = Some h" "ic_ssl c' = Some h" for k c k' c' h
    using inv that unfolding tls_inv_def by blast
  show ?thesis
    using inv s live ok below
    by (auto simp: insert_connection_new [of w1, unfolded fresh] fresh new tls_inv_def conn_move_def handles_assign [OF new]
        dest: uniq one split: if_splits)
qed

lemma failed_accept_log:
  assumes "s = None \<or> (\<exists>h. s = Some h \<and> h \<notin> live log)"
  shows "live (log @ [Call_SSL_new s, Call_SSL_set_fd s fd, Call_SSL_accept s, Call_SSL_free s,
      Call_SSL_get_error s, Call_close fd]) = live log"
    "frees_ok {} (log @ [Call_SSL_new s, Call_SSL_set_fd s fd, Call_SSL_accept s, Call_SSL_free s,
      Call_SSL_get_error s, Call_close fd]) \<longleftrightarrow> frees_ok {} log"
  using assms by (auto simp: live_append frees_ok_append)

lemma accept_connection_cases:
  assumes "map_find (tl_table w) fd = None"
  obtains (failed) s net where "s = None \<or> s = Some (tl_next w)"
      "accept_connection L d fd w = (- 2, w\<lparr>tl_next := Suc (tl_next w), tl_net := net, tl_log := tl_log w @
         [Call_SSL_new s, Call_SSL_set_fd s fd, Call_SSL_accept s, Call_SSL_free s, Call_SSL_get_error s, Call_close fd]\<rparr>)"
  | (accepted) s net where "s = None \<or> s = Some (tl_next w)"
      "accept_connection L d fd w = (0, insert_connection fd \<lparr>ic_fd = fd, ic_ssl = s, ic_decoder = d\<rparr>
         (w\<lparr>tl_next := Suc (tl_next w), tl_net := net, tl_log := tl_log w @
            [Call_SSL_new s, Call_SSL_set_fd s fd, Call_SSL_accept s]\<rparr>))"
proof -
  obtain ok net where ok: "os_new L (tl_net w) = (ok, net)" by fastforce
  define s where "s = (if ok then Some (tl_next w) else None)"
  obtain r net' where r: "os_accept L s net = (r, net')" by fastforce
  have s: "s = None \<or> s = Some (tl_next w)" by (simp add: s_def)
  note defs = accept_connection_def SSL_new_def SSL_accept_def err_str_def SSL_get_error_def
    s_def [symmetric] calls_def Let_def
  show ?thesis
    using failed [OF s] accepted [OF s] ok r by (cases "r \<le> 0") (simp_all add: defs)
qed

lemma accept_connection_inv:
  assumes inv: "tls_inv w" and new: "map_find (tl_table w) fd = None"
  shows "tls_inv (snd (accept_connection L d fd w))"
  using new
proof (cases rule: accept_connection_cases [where L = L and d = d])
  case (failed s net)
  have "s = None \<or> (\<exists>h. s = Some h \<and> h \<notin> live (tl_log w))"
    using inv failed(1) by (auto simp: tls_inv_def)
  then show ?thesis
    using inv by (auto simp: failed(2) tls_inv_def failed_accept_log intro: less_SucI)
next
  case (accepted s net)
  then show ?thesis
    using insert_connection_inv [OF inv new refl refl _ accepted(1), of "[Call_SSL_set_fd s fd, Call_SSL_accept s]"] by simp
qed

lemma addConnection_inv:
  assumes "tls_inv w"
  shows "tls_inv (snd (addConnection L d fd w))"
  using assms accept_connection_inv [OF erase_connection_inv [OF assms]] accept_connection_inv [OF assms]
  by (simp add: addConnection_def)

section \<open>Closing\<close>

lemma map_erase_assign: "map_ok m \<Longrightarrow> map_erase (map_assign m k v) k = map_erase m k"
  by (rule map_ok_ext) auto

lemma map_erase_head: "map_ok (kv # m) \<Longrightarrow> map_erase (kv # m) (fst kv) = m"
  by (auto simp: map_erase_def map_ok_Cons filter_id_conv)

text \<open>\<open>finish\<close> has the effect of erasing the connections one after the other.\<close>

lemma close_all_eq:
  "close_all kvs w = (map (\<lambda>kv. (fst kv, released (snd kv))) kvs, calls (concat (map (close_calls \<circ> snd) kvs)) w)"
  by (induction kvs arbitrary: w) (simp_all add: conn_close_def calls_def)

lemma destroy_released: "fold (\<lambda>kv. conn_destroy (snd kv)) (map (\<lambda>kv. (fst kv, released (snd kv))) kvs) w = w"
  by (induction kvs) (simp_all add: conn_destroy_eq)

lemma finish_eq: "tls_finish w = w\<lparr>tl_table := [], tl_log := tl_log w @ concat (map (close_calls \<circ> snd) (tl_table w))\<rparr>"
  by (simp add: tls_finish_def close_all_eq destroy_released calls_def)

lemma finish_erases:
  "map_ok (tl_table w) \<Longrightarrow> fold erase_connection (map fst (tl_table w)) w = tls_finish w"
proof (induction "tl_table w" arbitrary: w)
  case Nil
  then show ?case by (simp add: finish_eq)
next
  case (Cons kv m)
  have t: "tl_table w = kv # m" using Cons(2) by simp
  have e: "erase_connection (fst kv) w = w\<lparr>tl_table := m, tl_log := tl_log w @ close_calls (snd kv)\<rparr>"
    using map_erase_head [of kv m] Cons(3) t by (simp add: erase_connection_def conn_destroy_eq calls_def)
  show ?case
    using Cons(1) [of "erase_connection (fst kv) w"] Cons(3) by (simp add: e finish_eq map_ok_Cons t)
qed

lemma tls_finish_inv:
  assumes "tls_inv w"
  shows "tls_inv (tls_finish w)" "tl_table (tls_finish w) = []" "live (tl_log (tls_finish w)) = {}"
proof -
  have "tls_inv (fold erase_connection ks w)" for ks
    using assms by (induction ks arbitrary: w) (simp_all add: erase_connection_inv)
  moreover have "map_ok (tl_table w)" using assms by (simp add: tls_inv_def)
  ultimately show inv: "tls_inv (tls_finish w)"
    by (simp flip: finish_erases)
  show "tl_table (tls_finish w) = []" by (simp add: finish_eq)
  then show "live (tl_log (tls_finish w)) = {}" using inv by (simp add: tls_inv_def handles_def)
qed

section \<open>Sending\<close>

definition writes :: "lib_call list \<Rightarrow> string list" where
  "writes cs = concat (map (\<lambda>c. case c of Call_SSL_write s b \<Rightarrow> [b] | _ \<Rightarrow> []) cs)"

lemma writes_append [simp]: "writes (a @ b) = writes a @ writes b" "writes [] = []"
  by (simp_all add: writes_def)

lemma writes_neutral [simp]:
  "writes [Call_SSL_read s] = []" "writes [Call_SSL_get_error s] = []" "writes [Call_SSL_write s b] = [b]"
  "writes (Call_SSL_write s b # cs) = b # writes cs" "writes (Call_SSL_get_error s # cs) = writes cs"
  by (simp_all add: writes_def)

text \<open>What the loop of \<open>send\<close> leaves: between one and \<open>send_tries\<close> writes of the same
  buffer.\<close>

lemma send_loop_effect:
  assumes "send_loop L s buff i w = ((n, ret, e), w')"
  shows "\<exists>cs net. w' = w\<lparr>tl_net := net, tl_log := tl_log w @ cs\<rparr> \<and> list_all neutral cs \<and>
    writes cs = replicate (n - i) buff \<and> i < n \<and> (i < send_tries \<longrightarrow> n \<le> send_tries) \<and>
    (e = SSL_ERROR_WANT_WRITE \<longrightarrow> send_tries \<le> n)"
  using assms
proof (induction "send_tries - i" arbitrary: i w rule: less_induct)
  case (less i w)
  obtain r net where r: "os_write L s buff (tl_net w) = (r, net)" by fastforce
  define w2 where "w2 = w\<lparr>tl_net := net, tl_log := tl_log w @ [Call_SSL_write s buff, Call_SSL_get_error s]\<rparr>"
  have step: "send_loop L s buff i w =
      (if os_get_error L s r net = SSL_ERROR_WANT_WRITE \<and> i + 1 < send_tries then send_loop L s buff (i + 1) w2
       else ((i + 1, r, os_get_error L s r net), w2))"
    unfolding send_loop.simps [of L s buff i w]
    by (simp add: SSL_write_def SSL_get_error_def r w2_def calls_def)
  show ?case
  proof (cases "os_get_error L s r net = SSL_ERROR_WANT_WRITE \<and> i + 1 < send_tries")
    case True
    then have "send_loop L s buff (i + 1) w2 = ((n, ret, e), w')" using less.prems step by simp
    then obtain cs net' where cs: "w' = w2\<lparr>tl_net := net', tl_log := tl_log w2 @ cs\<rparr>" "list_all neutral cs"
      "writes cs = replicate (n - (i + 1)) buff" "i + 1 < n" "n \<le> send_tries" "e = SSL_ERROR_WANT_WRITE \<longrightarrow> send_tries \<le> n"
      using less.hyps [of "i + 1" w2] True diff_less_mono2 [of i "i + 1" send_tries] by auto
    have "n - i = Suc (n - (i + 1))" using cs(4) by simp
    then show ?thesis
      using cs by (intro exI [of _ "[Call_SSL_write s buff, Call_SSL_get_error s] @ cs"] exI [of _ net'])
        (simp add: w2_def)
  next
    case False
    then have "w' = w2" "n = i + 1" "e = os_get_error L s r net" using less.prems step by auto
    then show ?thesis
      using False by (intro exI [of _ "[Call_SSL_write s buff, Call_SSL_get_error s]"] exI [of _ net]) (auto simp: w2_def)
  qed
qed

lemma conn_send_effect:
  assumes "conn_send L c buff w = (r, w')"
  shows "\<exists>cs net n. w' = w\<lparr>tl_net := net, tl_log := tl_log w @ cs\<rparr> \<and> list_all neutral cs \<and>
    writes cs = replicate n buff \<and> 0 < n \<and> n \<le> send_tries \<and> (r = 0 \<or> r = - 1)"
proof -
  obtain n ret e w1 where s: "send_loop L (ic_ssl c) buff 0 w = ((n, ret, e), w1)" by (metis prod_cases3 surj_pair)
  obtain cs net where cs: "w1 = w\<lparr>tl_net := net, tl_log := tl_log w @ cs\<rparr>" "list_all neutral cs"
    "writes cs = replicate n buff" "0 < n" "n \<le> send_tries"
    using send_loop_effect [OF s] by (auto simp: send_tries_def)
  show ?thesis
  proof (cases "e = SSL_ERROR_NONE")
    case True
    then show ?thesis using assms s cs by (auto simp: conn_send_def)
  next
    case False
    then have "r = - 1" "w' = w1\<lparr>tl_log := tl_log w1 @ [Call_SSL_get_error (ic_ssl c)]\<rparr>"
      using assms s by (auto simp: conn_send_def err_str_def SSL_get_error_def calls_def)
    then show ?thesis
      using cs by (intro exI [of _ "cs @ [Call_SSL_get_error (ic_ssl c)]"] exI [of _ net] exI [of _ n]) simp
  qed
qed

section \<open>Receiving\<close>

text \<open>The reference that \<open>getConnection\<close> returns denotes the element in the table: what is
  done to the connection is stored there.\<close>

definition store_connection :: "int \<Rightarrow> 'd income \<Rightarrow> ('n, 'd) tls \<Rightarrow> ('n, 'd) tls" where
  "store_connection fd c w = w\<lparr>tl_table := map_assign (tl_table w) fd c\<rparr>"

lemma store_connection_inv:
  assumes inv: "tls_inv w" and old: "map_find (tl_table w) fd = Some c" and "ic_fd c' = ic_fd c" "ic_ssl c' = ic_ssl c"
  shows "tls_inv (store_connection fd c' w)"
proof -
  have "handles (map_assign (tl_table w) fd c') = handles (tl_table w)"
    using old assms(4) unfolding handles_def map_find_assign by (auto split: if_splits) (metis option.inject)
  moreover have "ic_fd c' = fd" using inv old assms(3) by (auto simp: tls_inv_def)
  moreover have "k = fd" if "map_find (tl_table w) k = Some d" "ic_ssl d = Some h" "ic_ssl c' = Some h" for k d h
    using inv old that assms(4) unfolding tls_inv_def by metis
  ultimately show ?thesis
    using inv unfolding store_connection_def tls_inv_def
    by simp
qed

lemma conn_recv_cases:
  obtains (closed) net where "conn_recv L c len w = (Inl CONNECTION_CLOSED, released c,
      w\<lparr>tl_net := net, tl_log := tl_log w @ Call_SSL_read (ic_ssl c) # close_calls c\<rparr>)"
  | (error) net msg where "conn_recv L c len w = (Inl (Runtime_Error msg), c,
      w\<lparr>tl_net := net, tl_log := tl_log w @ [Call_SSL_read (ic_ssl c), Call_SSL_get_error (ic_ssl c)]\<rparr>)"
  | (bytes) net n buff where "0 < n" "conn_recv L c len w = (Inr (n, buff), c,
      w\<lparr>tl_net := net, tl_log := tl_log w @ [Call_SSL_read (ic_ssl c)]\<rparr>)"
      "os_read L (ic_ssl c) len (tl_net w) = ((n, snd (fst (os_read L (ic_ssl c) len (tl_net w)))), net)"
proof -
  obtain n buff net where r: "os_read L (ic_ssl c) len (tl_net w) = ((n, buff), net)" by (metis surj_pair)
  note defs = conn_recv_def SSL_read_def conn_close_def err_str_def SSL_get_error_def calls_def r
  show ?thesis
    using closed [of net] error [of _ net] bytes [of n "take (nat n) buff" net]
    by (cases "n = 0"; cases "n < 0") (simp_all add: defs)
qed

text \<open>A connection that the peer has closed: closing it and then erasing it releases its
  object and its descriptor once.\<close>

lemma remove_released:
  assumes "tls_inv w" and "map_find (tl_table w) fd = Some c"
  shows "removeConnection fd (store_connection fd (released c) (w\<lparr>tl_net := net, tl_log := tl_log w @ Call_SSL_read s # close_calls c\<rparr>))
     = (Inr (), erase_connection fd (w\<lparr>tl_net := net, tl_log := tl_log w @ [Call_SSL_read s]\<rparr>))"
proof -
  have "map_ok (tl_table w)" using assms(1) by (simp add: tls_inv_def)
  then show ?thesis
    using assms(2) by (simp add: removeConnection_def store_connection_def erase_connection_def conn_destroy_eq
        map_erase_assign calls_def)
qed

end
