(* ===== verification/Ecalls.thy ===== *)
theory Ecalls
  imports Sample_Crypto Tls_Connections
begin

text \<open>
  The entry points of the monitor's enclave (\<open>ecalls_anonymbe.cpp\<close>, and
  \<open>ecall_tls_recv\<close> of \<open>tls_config.cpp\<close>): bytes from a connection go through the HTTP
  decoder, every complete request to the service, and the text of the response back to the
  connection. The decoder and the service are parameters, so that the writer proxy uses the
  same functions. The two loops may run for ever, as long as the peer sends: they are
  partial functions, \<open>None\<close> is a call that does not return.
\<close>

section \<open>Requests on a connection\<close>

text \<open>\<open>Http1Decoder\<close> is a parameter: chunks go in, requests come out.\<close>

record 'd http_decoder =
  hd_new :: 'd
  hd_add :: "string \<Rightarrow> 'd \<Rightarrow> unit result \<times> 'd"
  hd_get :: "'d \<Rightarrow> request option result \<times> 'd"

text \<open>The state of an enclave: its service, the connections and the counter of requests, an
  unsigned long.\<close>

record ('s, 'n, 'd) enclave =
  en_service :: 's
  en_tls :: "('n, 'd) tls"
  en_requests :: "64 word"

text \<open>What the service makes of a request: the text of the response, or an exception;
  \<open>None\<close> is a service that does not return.\<close>

type_synonym 's responder = "request \<Rightarrow> 's \<Rightarrow> (string result \<times> 's) option"

text \<open>The loop of \<open>process_input\<close> over the requests that the decoder has complete. The
  value is \<open>None\<close> if it does not end; otherwise the exception that ended it, if any, the
  connection and the enclave.\<close>

partial_function (option) request_loop ::
  "'n openssl \<Rightarrow> 'd http_decoder \<Rightarrow> 's responder \<Rightarrow> 'd income \<Rightarrow> ('s, 'n, 'd) enclave \<Rightarrow>
     (exn option \<times> 'd income \<times> ('s, 'n, 'd) enclave) option" where
  "request_loop L D srv c en =
     (case hd_get D (ic_decoder c) of
        (Inl e, d) \<Rightarrow> Some (Some e, c\<lparr>ic_decoder := d\<rparr>, en)
      | (Inr None, d) \<Rightarrow> Some (None, c\<lparr>ic_decoder := d\<rparr>, en)
      | (Inr (Some rq), d) \<Rightarrow>
          (case srv rq (en_service en) of
             None \<Rightarrow> None
           | Some (Inl e, s) \<Rightarrow> Some (Some e, c\<lparr>ic_decoder := d\<rparr>, en\<lparr>en_service := s, en_requests := en_requests en + 1\<rparr>)
           | Some (Inr text, s) \<Rightarrow>
               request_loop L D srv (c\<lparr>ic_decoder := d\<rparr>)
                 (en\<lparr>en_service := s, en_requests := en_requests en + 1,
                     en_tls := snd (conn_send L c text (en_tls en))\<rparr>)))"

fun is_std_exception :: "exn \<Rightarrow> bool" where
  "is_std_exception (Bson_Error c m) = False"
| "is_std_exception (Uint32_Exn n) = False"
| "is_std_exception Other_Exn = False"
| "is_std_exception e = True"

text \<open>\<open>process_input\<close> of an enclave: the monitor swallows every exception, the writer proxy
  those of the standard library (\<open>catches\<close>); what is left escapes.\<close>

definition process_chunk ::
  "(exn \<Rightarrow> bool) \<Rightarrow> 'n openssl \<Rightarrow> 'd http_decoder \<Rightarrow> 's responder \<Rightarrow> string \<Rightarrow> 'd income \<Rightarrow> ('s, 'n, 'd) enclave \<Rightarrow>
     (exn option \<times> 'd income \<times> ('s, 'n, 'd) enclave) option" where
  "process_chunk catches L D srv input c en =
     map_option (\<lambda>(x, c1, en1). (case x of Some e \<Rightarrow> if catches e then None else Some e | None \<Rightarrow> None, c1, en1))
       (case hd_add D input (ic_decoder c) of
          (Inl e, d) \<Rightarrow> Some (Some e, c\<lparr>ic_decoder := d\<rparr>, en)
        | (Inr _, d) \<Rightarrow> request_loop L D srv (c\<lparr>ic_decoder := d\<rparr>) en)"

section \<open>ecall_tls_recv\<close>

datatype recv_end = Left_Loop | Tls_Exn tls_exn | Escaped exn

partial_function (option) recv_loop ::
  "(exn \<Rightarrow> bool) \<Rightarrow> 'n openssl \<Rightarrow> 'd http_decoder \<Rightarrow> 's responder \<Rightarrow> int \<Rightarrow> 'd income \<Rightarrow> ('s, 'n, 'd) enclave \<Rightarrow>
     (recv_end \<times> ('s, 'n, 'd) enclave) option" where
  "recv_loop catches L D srv fd c en =
     (case conn_recv L c 1024 (en_tls en) of
        (Inl e, c1, w1) \<Rightarrow> Some (Tls_Exn e, en\<lparr>en_tls := store_connection fd c1 w1\<rparr>)
      | (Inr (ret, text), c1, w1) \<Rightarrow>
          Option.bind (process_chunk catches L D srv text c1 (en\<lparr>en_tls := w1\<rparr>)) (\<lambda>(x, c2, en2).
            let en3 = en2\<lparr>en_tls := store_connection fd c2 (en_tls en2)\<rparr>
            in case x of
                 Some e \<Rightarrow> Some (Escaped e, en3)
               | None \<Rightarrow> if 0 < ret then recv_loop catches L D srv fd c2 en3 else Some (Left_Loop, en3)))"

text \<open>The call returns a number, or an exception leaves it.\<close>

datatype ecall_end = Returned int | Uncaught

definition recv_catch :: "int \<Rightarrow> recv_end \<Rightarrow> ('s, 'n, 'd) enclave \<Rightarrow> ecall_end \<times> ('s, 'n, 'd) enclave" where
  "recv_catch fd r en =
     (case r of
        Left_Loop \<Rightarrow> (Returned 0, en)
      | Tls_Exn NOT_FOUND \<Rightarrow> (Returned (- 1), en)
      | Tls_Exn CONNECTION_CLOSED \<Rightarrow>
          (case removeConnection fd (en_tls en) of
             (Inr _, w) \<Rightarrow> (Returned (- 2), en\<lparr>en_tls := w\<rparr>)
           | (Inl e, w) \<Rightarrow> (Uncaught, en\<lparr>en_tls := w\<rparr>))
      | Tls_Exn NO_ERROR \<Rightarrow> (Returned (- 3), en)
      | Tls_Exn (Runtime_Error msg) \<Rightarrow> (Returned (- 4), en)
      | Escaped e \<Rightarrow> if is_std_exception e then (Returned (- 4), en) else (Uncaught, en))"

definition ecall_tls_recv ::
  "(exn \<Rightarrow> bool) \<Rightarrow> 'n openssl \<Rightarrow> 'd http_decoder \<Rightarrow> 's responder \<Rightarrow> int \<Rightarrow> ('s, 'n, 'd) enclave \<Rightarrow>
     (ecall_end \<times> ('s, 'n, 'd) enclave) option" where
  "ecall_tls_recv catches L D srv fd en =
     (case getConnection fd (en_tls en) of
        Inl e \<Rightarrow> Some (recv_catch fd (Tls_Exn e) en)
      | Inr c \<Rightarrow> map_option (\<lambda>(r, en1). recv_catch fd r en1) (recv_loop catches L D srv fd c en))"

definition ecall_tls_accept ::
  "'n openssl \<Rightarrow> 'd http_decoder \<Rightarrow> int \<Rightarrow> ('s, 'n, 'd) enclave \<Rightarrow> int \<times> ('s, 'n, 'd) enclave" where
  "ecall_tls_accept L D fd en =
     (let (r, w) = addConnection L (hd_new D) fd (en_tls en) in (r, en\<lparr>en_tls := w\<rparr>))"

text \<open>\<open>ecall_finish\<close>; \<open>finish\<close> of the monitor has an empty body.\<close>

definition ecall_finish :: "('s, 'n, 'd) enclave \<Rightarrow> ('s, 'n, 'd) enclave" where
  "ecall_finish en = en\<lparr>en_tls := tls_finish (en_tls en)\<rparr>"

text \<open>\<open>ecall_init\<close> of the monitor: the connections, then the service.\<close>

definition ecall_init ::
  "bool \<Rightarrow> build \<Rightarrow> 'db database_ops \<Rightarrow> string \<Rightarrow> bool \<Rightarrow> (('db, 'e) anonymbe, 'n, 'd) enclave \<Rightarrow>
     (int result \<times> (('db, 'e) anonymbe, 'n, 'd) enclave) process" where
  "ecall_init context_made bd DB mongo indexed en =
     (case tls_init context_made (en_tls en) of
        Exits n \<Rightarrow> Exits n
      | Runs w \<Rightarrow>
          (let (r, ab) = anonymbe_init bd DB mongo indexed (en_service en)
           in Runs (r, en\<lparr>en_tls := w, en_service := ab\<rparr>)))"

section \<open>Effects\<close>

text \<open>Answering requests leaves the table alone and makes only reads, writes and error
  queries.\<close>

definition quiet :: "('n, 'd) tls \<Rightarrow> ('n, 'd) tls \<Rightarrow> bool" where
  "quiet w w' \<longleftrightarrow> (\<exists>cs. tl_log w' = tl_log w @ cs \<and> list_all neutral cs) \<and>
     tl_table w' = tl_table w \<and> tl_next w' = tl_next w \<and> tl_ctx w' = tl_ctx w"

lemma quiet_refl [simp]: "quiet w w"
  by (auto simp: quiet_def intro: exI [of _ "[]"])

lemma quiet_trans: "quiet w w1 \<Longrightarrow> quiet w1 w2 \<Longrightarrow> quiet w w2"
  unfolding quiet_def by (metis list_all_append append.assoc)

lemma quiet_inv: "quiet w w' \<Longrightarrow> tls_inv w \<Longrightarrow> tls_inv w'"
  unfolding quiet_def by (auto intro: inv_cong)

lemma quiet_send: "quiet w (snd (conn_send L c text w))"
proof -
  obtain r w' where s: "conn_send L c text w = (r, w')" by fastforce
  then show ?thesis using conn_send_effect [OF s] by (auto simp: quiet_def)
qed

lemma request_loop_quiet:
  assumes "request_loop L D srv c en = Some y"
  shows "quiet (en_tls en) (en_tls (snd (snd y))) \<and> ic_fd (fst (snd y)) = ic_fd c \<and> ic_ssl (fst (snd y)) = ic_ssl c"
proof (rule request_loop.raw_induct [where P = "\<lambda>L D srv c en y. quiet (en_tls en) (en_tls (snd (snd y))) \<and>
    ic_fd (fst (snd y)) = ic_fd c \<and> ic_ssl (fst (snd y)) = ic_ssl c", OF _ assms], goal_cases)
  case (1 rl L D srv c en y)
  obtain r d where g: "hd_get D (ic_decoder c) = (r, d)" by fastforce
  show ?case
  proof (cases "\<exists>rq m s. r = Inr (Some rq) \<and> srv rq (en_service en) = Some (Inr m, s)")
    case True
    then obtain rq m s where "r = Inr (Some rq)" "srv rq (en_service en) = Some (Inr m, s)" by blast
    with 1(2) g have "rl L D srv (c\<lparr>ic_decoder := d\<rparr>) (en\<lparr>en_service := s, en_requests := en_requests en + 1,
        en_tls := snd (conn_send L c m (en_tls en))\<rparr>) = Some y" by simp
    from 1(1) [OF this] show ?thesis using quiet_trans [OF quiet_send] by auto
  next
    case False
    then show ?thesis using 1(2) g by (auto split: prod.splits sum.splits option.splits)
  qed
qed

lemma process_chunk_quiet:
  assumes "process_chunk catches L D srv text c en = Some (x, c', en')"
  shows "quiet (en_tls en) (en_tls en')" "ic_fd c' = ic_fd c" "ic_ssl c' = ic_ssl c"
  using assms request_loop_quiet
  by (auto simp: process_chunk_def split: prod.splits sum.splits) fastforce+

text \<open>How a turn of the receiving loop can leave the table.\<close>

definition recv_ok :: "int \<Rightarrow> recv_end \<Rightarrow> ('n, 'd) tls \<Rightarrow> bool" where
  "recv_ok fd r w \<longleftrightarrow>
     (case r of
        Left_Loop \<Rightarrow> False
      | Tls_Exn NO_ERROR \<Rightarrow> False
      | Tls_Exn NOT_FOUND \<Rightarrow> False
      | Tls_Exn CONNECTION_CLOSED \<Rightarrow>
          (\<exists>w1 c1 net. tls_inv w1 \<and> map_find (tl_table w1) fd = Some c1 \<and>
             w = store_connection fd (released c1)
               (w1\<lparr>tl_net := net, tl_log := tl_log w1 @ Call_SSL_read (ic_ssl c1) # close_calls c1\<rparr>))
      | _ \<Rightarrow> tls_inv w \<and> map_find (tl_table w) fd \<noteq> None)"

lemma read_inv: "tls_inv w \<Longrightarrow> list_all neutral cs \<Longrightarrow> tls_inv (w\<lparr>tl_net := net, tl_log := tl_log w @ cs\<rparr>)"
  by (rule inv_cong) auto

lemma recv_loop_turn:
  assumes inv: "tls_inv (en_tls en)" and c: "map_find (tl_table (en_tls en)) fd = Some c"
    and IH: "\<And>c2 en3. rl c2 en3 = Some y \<Longrightarrow> tls_inv (en_tls en3) \<Longrightarrow>
      map_find (tl_table (en_tls en3)) fd = Some c2 \<Longrightarrow> recv_ok fd (fst y) (en_tls (snd y))"
    and body: "(case conn_recv L c 1024 (en_tls en) of
        (Inl e, c1, w1) \<Rightarrow> Some (Tls_Exn e, en\<lparr>en_tls := store_connection fd c1 w1\<rparr>)
      | (Inr (ret, buff), c1, w1) \<Rightarrow>
          Option.bind (process_chunk catches L D srv buff c1 (en\<lparr>en_tls := w1\<rparr>)) (\<lambda>(x, c2, en2).
            let en3 = en2\<lparr>en_tls := store_connection fd c2 (en_tls en2)\<rparr>
            in case x of
                 Some e \<Rightarrow> Some (Escaped e, en3)
               | None \<Rightarrow> if 0 < ret then rl c2 en3 else Some (Left_Loop, en3))) = Some y"
  shows "recv_ok fd (fst y) (en_tls (snd y))"
proof (cases rule: conn_recv_cases [where L = L and c = c and len = 1024 and w = "en_tls en"])
  case (closed net)
  then have y: "y = (Tls_Exn CONNECTION_CLOSED, en\<lparr>en_tls := store_connection fd (released c)
      ((en_tls en)\<lparr>tl_net := net, tl_log := tl_log (en_tls en) @ Call_SSL_read (ic_ssl c) # close_calls c\<rparr>)\<rparr>)"
    using body by simp
  show ?thesis unfolding y recv_ok_def using inv c by auto
next
  case (error net msg)
  let ?w = "(en_tls en)\<lparr>tl_net := net, tl_log := tl_log (en_tls en) @ [Call_SSL_read (ic_ssl c), Call_SSL_get_error (ic_ssl c)]\<rparr>"
  have y: "y = (Tls_Exn (Runtime_Error msg), en\<lparr>en_tls := store_connection fd c ?w\<rparr>)"
    using body error by simp
  have "tls_inv ?w" using read_inv [OF inv, of "[Call_SSL_read (ic_ssl c), Call_SSL_get_error (ic_ssl c)]" net] by simp
  then have "tls_inv (store_connection fd c ?w)" by (rule store_connection_inv) (use c in auto)
  then show ?thesis unfolding y by (simp add: recv_ok_def store_connection_def)
next
  case (bytes net n buff)
  let ?w = "(en_tls en)\<lparr>tl_net := net, tl_log := tl_log (en_tls en) @ [Call_SSL_read (ic_ssl c)]\<rparr>"
  have w: "tls_inv ?w" using read_inv [OF inv, of "[Call_SSL_read (ic_ssl c)]" net] by simp
  obtain x c2 en2 where p: "process_chunk catches L D srv buff c (en\<lparr>en_tls := ?w\<rparr>) = Some (x, c2, en2)"
    and rest: "(let en3 = en2\<lparr>en_tls := store_connection fd c2 (en_tls en2)\<rparr>
        in case x of Some e \<Rightarrow> Some (Escaped e, en3) | None \<Rightarrow> if 0 < n then rl c2 en3 else Some (Left_Loop, en3)) = Some y"
    using body bytes(1,2) by (auto simp: bind_eq_Some_conv Let_def)
  have q: "quiet ?w (en_tls en2)" using process_chunk_quiet(1) [OF p] by simp
  then have find2: "map_find (tl_table (en_tls en2)) fd = Some c" using c by (simp add: quiet_def)
  have inv3: "tls_inv (store_connection fd c2 (en_tls en2))"
    by (rule store_connection_inv [OF quiet_inv [OF q w] find2 process_chunk_quiet(2,3) [OF p]])
  then show ?thesis
    using rest bytes(1) IH [of c2 "en2\<lparr>en_tls := store_connection fd c2 (en_tls en2)\<rparr>"]
    by (cases x) (auto simp: recv_ok_def store_connection_def)
qed

lemma recv_loop_ok:
  assumes "recv_loop catches L D srv fd c en = Some y"
  shows "tls_inv (en_tls en) \<longrightarrow> map_find (tl_table (en_tls en)) fd = Some c \<longrightarrow> recv_ok fd (fst y) (en_tls (snd y))"
proof (rule recv_loop.raw_induct [where P = "\<lambda>catches L D srv fd c en y. tls_inv (en_tls en) \<longrightarrow>
    map_find (tl_table (en_tls en)) fd = Some c \<longrightarrow> recv_ok fd (fst y) (en_tls (snd y))", OF _ assms], goal_cases)
  case (1 rl catches L D srv fd c en y)
  show ?case
    using recv_loop_turn [OF _ _ _ 1(2)] 1(1) by blast
qed

lemma recv_catch_ok:
  assumes "recv_ok fd r (en_tls en)" and "recv_catch fd r en = (x, en')"
  shows "tls_inv (en_tls en') \<and>
    (x = Returned (- 2) \<and> map_find (tl_table (en_tls en')) fd = None \<or>
     x = Returned (- 4) \<and> map_find (tl_table (en_tls en')) fd \<noteq> None \<or>
     (\<exists>e. r = Escaped e \<and> \<not> is_std_exception e))"
proof (cases "r = Tls_Exn CONNECTION_CLOSED")
  case True
  then obtain w1 c1 net where w: "tls_inv w1" "map_find (tl_table w1) fd = Some c1"
    "en_tls en = store_connection fd (released c1)
       (w1\<lparr>tl_net := net, tl_log := tl_log w1 @ Call_SSL_read (ic_ssl c1) # close_calls c1\<rparr>)"
    using assms(1) by (auto simp: recv_ok_def)
  have "tls_inv (w1\<lparr>tl_net := net, tl_log := tl_log w1 @ [Call_SSL_read (ic_ssl c1)]\<rparr>)"
    using read_inv [OF w(1), of "[Call_SSL_read (ic_ssl c1)]" net] by simp
  then show ?thesis
    using assms(2) True remove_released [OF w(1,2), where net = net and s = "ic_ssl c1"] w(3) erase_connection_inv
    by (auto simp: recv_catch_def)
next
  case False
  then show ?thesis
    using assms by (auto simp: recv_ok_def recv_catch_def split: recv_end.splits tls_exn.splits if_splits)
qed

lemma ecall_tls_recv_ok:
  assumes inv: "tls_inv (en_tls en)" and r: "ecall_tls_recv catches L D srv fd en = Some (x, en')"
  shows "tls_inv (en_tls en')"
proof (cases "map_find (tl_table (en_tls en)) fd")
  case None
  then show ?thesis using assms by (simp add: ecall_tls_recv_def getConnection_def recv_catch_def)
next
  case (Some c)
  then obtain y where y: "recv_loop catches L D srv fd c en = Some y" "recv_catch fd (fst y) (snd y) = (x, en')"
    using r by (auto simp: ecall_tls_recv_def getConnection_def)
  show ?thesis
    using recv_catch_ok [OF _ y(2)] recv_loop_ok [OF y(1)] inv Some by blast
qed

lemma monitor_chunk_swallows:
  "process_chunk (\<lambda>_. True) L D srv input c en = Some (x, c', en') \<Longrightarrow> x = None"
  by (auto simp: process_chunk_def split: option.splits)

lemma monitor_never_escapes:
  assumes "recv_loop catches L D srv fd c en = Some y"
  shows "catches = (\<lambda>_. True) \<longrightarrow> fst y \<noteq> Escaped e"
proof (rule recv_loop.raw_induct [where P = "\<lambda>catches L D srv fd c en y. catches = (\<lambda>_. True) \<longrightarrow> fst y \<noteq> Escaped e",
      OF _ assms], goal_cases)
  case (1 rl catches L D srv fd c en y)
  show ?case
  proof
    assume [simp]: "catches = (\<lambda>_. True)"
    show "fst y \<noteq> Escaped e"
      using 1(2)
      by (cases y) (auto simp: bind_eq_Some_conv Let_def dest: monitor_chunk_swallows 1(1)
          split: prod.splits sum.splits option.splits if_splits)
  qed
qed

section \<open>Histories of an enclave\<close>

inductive ecall_step ::
  "(exn \<Rightarrow> bool) \<Rightarrow> 'n openssl \<Rightarrow> 'd http_decoder \<Rightarrow> 's responder \<Rightarrow> ('s, 'n, 'd) enclave \<Rightarrow> ('s, 'n, 'd) enclave \<Rightarrow> bool"
  for catches L D srv where
  accept: "ecall_step catches L D srv en (snd (ecall_tls_accept L D fd en))"
| recv: "ecall_tls_recv catches L D srv fd en = Some (x, en') \<Longrightarrow> ecall_step catches L D srv en en'"
| finish: "ecall_step catches L D srv en (ecall_finish en)"

inductive_cases ecall_stepE: "ecall_step catches L D srv en en'"

lemma ecall_step_inv: "ecall_step catches L D srv en en' \<Longrightarrow> tls_inv (en_tls en) \<Longrightarrow> tls_inv (en_tls en')"
  by (erule ecall_stepE)
    (auto simp: ecall_tls_accept_def ecall_finish_def case_prod_beta addConnection_inv tls_finish_inv dest: ecall_tls_recv_ok)

lemma ecalls_inv:
  "(ecall_step catches L D srv)\<^sup>*\<^sup>* en en' \<Longrightarrow> tls_inv (en_tls en) \<Longrightarrow> tls_inv (en_tls en')"
  by (induction rule: rtranclp_induct) (auto dest: ecall_step_inv)

section \<open>The receiving loop ends when the input does\<close>

text \<open>A measure of what the peer still sends: every successful read decreases it, a write does
  not increase it. A measure of what a decoder still holds. And a service that always
  returns.\<close>

definition reads_decrease :: "'n openssl \<Rightarrow> ('n \<Rightarrow> nat) \<Rightarrow> bool" where
  "reads_decrease L left \<longleftrightarrow>
     (\<forall>s k net. 0 < fst (fst (os_read L s k net)) \<longrightarrow> left (snd (os_read L s k net)) < left net) \<and>
     (\<forall>s b net. left (snd (os_write L s b net)) \<le> left net)"

definition service_returns :: "'s responder \<Rightarrow> bool" where
  "service_returns srv \<longleftrightarrow> (\<forall>rq s. srv rq s \<noteq> None)"

lemma service_returnsD: "service_returns srv \<Longrightarrow> srv rq s = None \<Longrightarrow> False"
  unfolding service_returns_def by blast

definition decoder_drains :: "'d http_decoder \<Rightarrow> ('d \<Rightarrow> nat) \<Rightarrow> bool" where
  "decoder_drains D buffered \<longleftrightarrow> (\<forall>d rq d'. hd_get D d = (Inr (Some rq), d') \<longrightarrow> buffered d' < buffered d)"

lemma send_loop_left:
  assumes "reads_decrease L left"
  shows "left (tl_net (snd (send_loop L s b i w))) \<le> left (tl_net w)"
proof (induction "send_tries - i" arbitrary: i w rule: less_induct)
  case (less i w)
  obtain r net where r: "os_write L s b (tl_net w) = (r, net)" by fastforce
  have net: "left net \<le> left (tl_net w)"
    using assms r unfolding reads_decrease_def by (metis snd_conv)
  define w2 where "w2 = w\<lparr>tl_net := net, tl_log := tl_log w @ [Call_SSL_write s b, Call_SSL_get_error s]\<rparr>"
  have "send_loop L s b i w =
      (if os_get_error L s r net = SSL_ERROR_WANT_WRITE \<and> i + 1 < send_tries then send_loop L s b (i + 1) w2
       else ((i + 1, r, os_get_error L s r net), w2))"
    unfolding send_loop.simps [of L s b i w] by (simp add: SSL_write_def SSL_get_error_def r w2_def calls_def)
  moreover have "left (tl_net (snd (send_loop L s b (i + 1) w2))) \<le> left net" if "i + 1 < send_tries"
    using less.hyps [of "i + 1" w2] that by (simp add: w2_def diff_less_mono2)
  ultimately show ?case using net by (auto simp: w2_def)
qed

lemma conn_send_left:
  assumes "reads_decrease L left"
  shows "left (tl_net (snd (conn_send L c b w))) \<le> left (tl_net w)"
  using send_loop_left [OF assms, of "ic_ssl c" b 0 w]
  by (simp add: conn_send_def err_str_def SSL_get_error_def case_prod_beta)

lemma request_loop_returns:
  assumes L: "reads_decrease L left" and D: "decoder_drains D buffered" and S: "service_returns srv"
  shows "\<exists>x c' en'. request_loop L D srv c en = Some (x, c', en') \<and> left (tl_net (en_tls en')) \<le> left (tl_net (en_tls en))"
proof (induction "buffered (ic_decoder c)" arbitrary: c en rule: less_induct)
  case (less c en)
  obtain r d where g: "hd_get D (ic_decoder c) = (r, d)" by fastforce
  show ?case
  proof (cases "\<exists>rq m s. r = Inr (Some rq) \<and> srv rq (en_service en) = Some (Inr m, s)")
    case True
    then obtain rq m s where rq: "r = Inr (Some rq)" "srv rq (en_service en) = Some (Inr m, s)" by blast
    have "buffered d < buffered (ic_decoder c)" using D g rq(1) by (simp add: decoder_drains_def)
    then obtain x c' en' where "request_loop L D srv (c\<lparr>ic_decoder := d\<rparr>)
        (en\<lparr>en_service := s, en_requests := en_requests en + 1, en_tls := snd (conn_send L c m (en_tls en))\<rparr>) = Some (x, c', en')"
      "left (tl_net (en_tls en')) \<le> left (tl_net (snd (conn_send L c m (en_tls en))))"
      using less [of "c\<lparr>ic_decoder := d\<rparr>"] by fastforce
    then show ?thesis
      using g rq conn_send_left [OF L, of c m "en_tls en"] by (subst request_loop.simps) auto
  next
    case False
    then show ?thesis
      using g by (subst request_loop.simps) (auto dest: service_returnsD [OF S] split: prod.splits sum.splits option.splits)
  qed
qed

lemma process_chunk_returns:
  assumes "reads_decrease L left" and "decoder_drains D buffered" and "service_returns srv"
  shows "\<exists>x c' en'. process_chunk catches L D srv input c en = Some (x, c', en') \<and>
    left (tl_net (en_tls en')) \<le> left (tl_net (en_tls en))"
proof -
  obtain r d where a: "hd_add D input (ic_decoder c) = (r, d)" by fastforce
  show ?thesis
    using request_loop_returns [OF assms, of "c\<lparr>ic_decoder := d\<rparr>" en] a
    by (cases r) (auto simp: process_chunk_def)
qed

lemma recv_loop_returns:
  assumes L: "reads_decrease L left" and D: "decoder_drains D buffered" and S: "service_returns srv"
  shows "\<exists>y. recv_loop catches L D srv fd c en = Some y"
proof (induction "left (tl_net (en_tls en))" arbitrary: c en rule: less_induct)
  case (less en c)
  show ?case
  proof (cases rule: conn_recv_cases [where L = L and c = c and len = 1024 and w = "en_tls en"])
    case (bytes net n buff)
    let ?w = "(en_tls en)\<lparr>tl_net := net, tl_log := tl_log (en_tls en) @ [Call_SSL_read (ic_ssl c)]\<rparr>"
    have "left net < left (tl_net (en_tls en))"
      using L bytes(1,3) unfolding reads_decrease_def by (metis fst_conv snd_conv)
    moreover obtain x c2 en2 where p: "process_chunk catches L D srv buff c (en\<lparr>en_tls := ?w\<rparr>) = Some (x, c2, en2)"
      "left (tl_net (en_tls en2)) \<le> left net"
      using process_chunk_returns [OF L D S, of catches buff c "en\<lparr>en_tls := ?w\<rparr>"] by auto
    ultimately have "\<exists>y. recv_loop catches L D srv fd c2 (en2\<lparr>en_tls := store_connection fd c2 (en_tls en2)\<rparr>) = Some y"
      by (intro less) (simp add: store_connection_def)
    then show ?thesis
      using bytes p by (subst recv_loop.simps) (simp add: Let_def split: option.split)
  qed (subst recv_loop.simps, simp)+
qed

lemma ecall_recv_returns:
  assumes "reads_decrease L left" and "decoder_drains D buffered" and "service_returns srv"
  shows "\<exists>r en'. ecall_tls_recv catches L D srv fd en = Some (r, en')"
proof (cases "map_find (tl_table (en_tls en)) fd")
  case None
  then show ?thesis by (simp add: ecall_tls_recv_def getConnection_def recv_catch_def)
next
  case (Some c)
  obtain y where "recv_loop catches L D srv fd c en = Some y" using recv_loop_returns [OF assms] by blast
  then show ?thesis
    using Some by (cases "recv_catch fd (fst y) (snd y)") (simp add: ecall_tls_recv_def getConnection_def case_prod_beta)
qed

section \<open>Requests are answered in order\<close>

text \<open>The requests that a decoder has complete, and what is left of it.\<close>

inductive yields :: "'d http_decoder \<Rightarrow> 'd \<Rightarrow> request list \<Rightarrow> 'd \<Rightarrow> bool" for D where
  yields_end: "hd_get D d = (Inr None, d') \<Longrightarrow> yields D d [] d'"
| yields_request: "hd_get D d = (Inr (Some rq), d1) \<Longrightarrow> yields D d1 rqs d' \<Longrightarrow> yields D d (rq # rqs) d'"

definition writes_succeed :: "'n openssl \<Rightarrow> bool" where
  "writes_succeed L \<longleftrightarrow> (\<forall>s b net. os_get_error L s (fst (os_write L s b net)) (snd (os_write L s b net)) = SSL_ERROR_NONE)"

text \<open>The responder of the monitor's enclave; \<open>to_text\<close> is \<open>Response::toString\<close>, also of
  the default response.\<close>

definition monitor ::
  "build \<Rightarrow> http_strings \<Rightarrow> 'db database_ops \<Rightarrow> 'e crypto \<Rightarrow> char \<Rightarrow>
     (response option \<Rightarrow> string) \<Rightarrow> ('db, 'e) anonymbe responder" where
  "monitor bd H DB C point to_text rq ab =
     (let (a, ab1) = process_input bd H DB C point rq ab in Some (Inr (to_text a), ab1))"

lemma conn_send_once:
  assumes "writes_succeed L"
  shows "writes (tl_log (snd (conn_send L c b w))) = writes (tl_log w) @ [b]"
proof -
  obtain r net where r: "os_write L (ic_ssl c) b (tl_net w) = (r, net)" by fastforce
  then have "os_get_error L (ic_ssl c) r net = SSL_ERROR_NONE"
    using assms unfolding writes_succeed_def by (metis fst_conv snd_conv)
  then show ?thesis
    unfolding conn_send_def send_loop.simps [of L "ic_ssl c" b 0 w]
    by (simp add: SSL_write_def SSL_get_error_def r)
qed

lemma monitor_answers:
  assumes "yields D d rqs d'" and "writes_succeed L" and "ic_decoder c = d"
  shows "\<exists>en'. request_loop L D (monitor bd H DB C point to_text) c en = Some (None, c\<lparr>ic_decoder := d'\<rparr>, en') \<and>
     en_service en' = snd (serve bd H DB C point rqs (en_service en)) \<and>
     writes (tl_log (en_tls en')) = writes (tl_log (en_tls en)) @ map to_text (fst (serve bd H DB C point rqs (en_service en))) \<and>
     en_requests en' = en_requests en + of_nat (length rqs)"
  using assms
proof (induction arbitrary: c en rule: yields.induct)
  case (yields_end d d')
  then show ?case by (subst request_loop.simps) simp
next
  case (yields_request d rq d1 rqs d')
  obtain a ab1 where p: "process_input bd H DB C point rq (en_service en) = (a, ab1)" by fastforce
  define en1 where "en1 = en\<lparr>en_service := ab1, en_requests := en_requests en + 1,
    en_tls := snd (conn_send L c (to_text a) (en_tls en))\<rparr>"
  obtain en' where "request_loop L D (monitor bd H DB C point to_text) (c\<lparr>ic_decoder := d1\<rparr>) en1 =
      Some (None, c\<lparr>ic_decoder := d'\<rparr>, en')"
    "en_service en' = snd (serve bd H DB C point rqs (en_service en1))"
    "writes (tl_log (en_tls en')) = writes (tl_log (en_tls en1)) @ map to_text (fst (serve bd H DB C point rqs (en_service en1)))"
    "en_requests en' = en_requests en1 + of_nat (length rqs)"
    using yields_request.IH [OF yields_request.prems(1), of "c\<lparr>ic_decoder := d1\<rparr>" en1] by auto
  then show ?case
    using yields_request.hyps(1) yields_request.prems(2) p conn_send_once [OF yields_request.prems(1), of c "to_text a" "en_tls en"]
    by (subst request_loop.simps) (simp add: monitor_def en1_def [symmetric], simp add: en1_def case_prod_beta)
qed

section \<open>Properties\<close>

text \<open>C12: no leak and no double free. After any history of accepted connections, receptions
  and shutdowns, every connection of the table is stored under its descriptor, the SSL
  objects that exist are exactly those of the table, and none was freed twice.\<close>

theorem connections_never_leak:
  assumes "(ecall_step catches L D srv)\<^sup>*\<^sup>* en en'" and "tls_inv (en_tls en)"
  shows "live (tl_log (en_tls en')) = handles (tl_table (en_tls en')) \<and> frees_ok {} (tl_log (en_tls en')) \<and>
     (\<forall>k c. map_find (tl_table (en_tls en')) k = Some c \<longrightarrow> ic_fd c = k)"
  using ecalls_inv [OF assms] by (simp add: tls_inv_def)

text \<open>A peer that sends a list of chunks and then closes, and a decoder that makes a request
  of every chunk.\<close>

definition sample_ssl :: "string list openssl" where
  "sample_ssl = \<lparr>os_new = \<lambda>net. (True, net), os_accept = \<lambda>s net. (1, net),
     os_read = \<lambda>s k net. case net of [] \<Rightarrow> ((0, []), []) | x # xs \<Rightarrow> ((int (length x), x), xs),
     os_write = \<lambda>s b net. (int (length b), net),
     os_get_error = \<lambda>s r net. SSL_ERROR_NONE\<rparr>"

definition sample_decoder :: "string list http_decoder" where
  "sample_decoder = \<lparr>hd_new = [], hd_add = \<lambda>b d. (Inr (), d @ [b]),
     hd_get = \<lambda>d. case d of [] \<Rightarrow> (Inr None, [])
       | x # xs \<Rightarrow> (Inr (Some \<lparr>rq_method = ''GET'', rq_path = x, rq_body = []\<rparr>), xs)\<rparr>"

definition echo :: "nat responder" where
  "echo rq n = Some (Inr (rq_path rq), Suc n)"

definition sample_enclave :: "string list \<Rightarrow> (nat, string list, string list) enclave" where
  "sample_enclave net = \<lparr>en_service = 0, en_tls = (tls_start net)\<lparr>tl_ctx := True\<rparr>, en_requests = 0\<rparr>"

definition connected :: "string list \<Rightarrow> (nat, string list, string list) enclave" where
  "connected net = snd (ecall_tls_accept sample_ssl sample_decoder 7 (sample_enclave net))"

lemma sample_enclave_inv: "tls_inv (en_tls (sample_enclave net))"
  by (simp add: sample_enclave_def tls_start_def tls_inv_def handles_def live_def)

lemma connected_eq:
  "connected net = \<lparr>en_service = 0, en_tls = \<lparr>tl_ctx = True,
     tl_table = [(7, \<lparr>ic_fd = 7, ic_ssl = Some 0, ic_decoder = []\<rparr>)], tl_next = 1,
     tl_log = [Call_SSL_new (Some 0), Call_SSL_set_fd (Some 0) 7, Call_SSL_accept (Some 0)], tl_net = net\<rparr>, en_requests = 0\<rparr>"
  by (simp add: connected_def ecall_tls_accept_def addConnection_def accept_connection_def sample_enclave_def
      tls_start_def sample_ssl_def sample_decoder_def SSL_new_def SSL_accept_def calls_def insert_connection_def
      conn_move_def conn_destroy_eq close_calls_def released_def Let_def)

lemma connected_inv: "tls_inv (en_tls (connected net))"
  using ecall_step_inv [OF ecall_step.accept sample_enclave_inv] unfolding connected_def .

theorem connections_never_leak_witness:
  "live (tl_log (en_tls (ecall_finish (connected [])))) = {} \<and> frees_ok {} (tl_log (en_tls (ecall_finish (connected [])))) \<and>
   handles (tl_table (en_tls (connected []))) \<noteq> {}"
proof -
  have step: "(ecall_step (\<lambda>_. True) sample_ssl sample_decoder echo)\<^sup>*\<^sup>* (connected []) (ecall_finish (connected []))"
    by (simp add: ecall_step.finish r_into_rtranclp)
  have "handles (tl_table (en_tls (ecall_finish (connected [])))) = {}"
    by (simp add: ecall_finish_def finish_eq handles_def)
  moreover have "0 \<in> handles (tl_table (en_tls (connected [])))"
    by (simp add: connected_eq handles_def)
  ultimately show ?thesis
    using connections_never_leak [OF step connected_inv] by auto
qed

text \<open>C24: what a reception returns. \<open>ecall_tls_recv\<close> of the monitor never returns 0 or -3:
  it returns -1 and does nothing if the descriptor is not in the table, -2 once the peer has
  closed, with the connection gone, or -4 after a read error, with the connection still in
  the table.\<close>

theorem recv_result:
  assumes "tls_inv (en_tls en)" and "ecall_tls_recv (\<lambda>_. True) L D srv fd en = Some (r, en')"
  shows "(r = Returned (- 1) \<and> map_find (tl_table (en_tls en)) fd = None \<and> en' = en) \<or>
    (r = Returned (- 2) \<and> map_find (tl_table (en_tls en)) fd \<noteq> None \<and> map_find (tl_table (en_tls en')) fd = None) \<or>
    (r = Returned (- 4) \<and> map_find (tl_table (en_tls en)) fd \<noteq> None \<and> map_find (tl_table (en_tls en')) fd \<noteq> None)"
proof (cases "map_find (tl_table (en_tls en)) fd")
  case None
  then show ?thesis using assms(2) by (auto simp: ecall_tls_recv_def getConnection_def recv_catch_def)
next
  case (Some c)
  then obtain y where y: "recv_loop (\<lambda>_. True) L D srv fd c en = Some y" "recv_catch fd (fst y) (snd y) = (r, en')"
    using assms(2) by (auto simp: ecall_tls_recv_def getConnection_def)
  have "fst y \<noteq> Escaped e" for e using monitor_never_escapes [OF y(1)] by simp
  then show ?thesis
    using recv_catch_ok [OF _ y(2)] recv_loop_ok [OF y(1)] assms(1) Some by blast
qed

lemma connected_recv:
  "ecall_tls_recv (\<lambda>_. True) sample_ssl sample_decoder echo 7 (connected []) =
     Some (Returned (- 2), (connected [])\<lparr>en_tls := (en_tls (connected []))\<lparr>tl_table := [],
       tl_log := tl_log (en_tls (connected [])) @ [Call_SSL_read (Some 0), Call_SSL_free (Some 0), Call_close 7]\<rparr>\<rparr>)"
  unfolding ecall_tls_recv_def connected_eq
  by (simp add: getConnection_def recv_loop.simps conn_recv_def SSL_read_def sample_ssl_def conn_close_def
      close_calls_def released_def calls_def recv_catch_def removeConnection_def store_connection_def
      erase_connection_def conn_destroy_eq map_erase_def)

theorem recv_result_witness:
  "\<exists>en'. ecall_tls_recv (\<lambda>_. True) sample_ssl sample_decoder echo 7 (connected []) = Some (Returned (- 2), en') \<and>
     map_find (tl_table (en_tls en')) 7 = None"
  using recv_result [OF connected_inv connected_recv] connected_recv by auto

text \<open>A peer that closes. If the next read finds the connection closed, its SSL object is
  freed once, its descriptor closed once, and it leaves the table.\<close>

lemma peer_close_releases_once:
  assumes "tls_inv (en_tls en)" and "map_find (tl_table (en_tls en)) fd = Some c" and "ic_ssl c = Some h"
    and "fd \<noteq> - 1" and "os_read L (Some h) 1024 (tl_net (en_tls en)) = ((0, buff), net)"
  shows "\<exists>en'. ecall_tls_recv catches L D srv fd en = Some (Returned (- 2), en') \<and>
     tl_log (en_tls en') = tl_log (en_tls en) @ [Call_SSL_read (Some h), Call_SSL_free (Some h), Call_close fd] \<and>
     map_find (tl_table (en_tls en')) fd = None"
proof -
  let ?w = "en_tls en"
  have fd: "ic_fd c = fd" using assms(1,2) by (simp add: tls_inv_def)
  have recv: "conn_recv L c 1024 ?w = (Inl CONNECTION_CLOSED, released c,
      ?w\<lparr>tl_net := net, tl_log := tl_log ?w @ Call_SSL_read (ic_ssl c) # close_calls c\<rparr>)"
    using assms(3,5) by (simp add: conn_recv_def SSL_read_def conn_close_def calls_def)
  show ?thesis
    using remove_released [OF assms(1,2), where net = net and s = "ic_ssl c"] assms(2-4) fd
    by (simp add: ecall_tls_recv_def getConnection_def recv_loop.simps recv recv_catch_def erase_connection_def
        conn_destroy_eq close_calls_def)
qed

text \<open>C25: receiving ends when the peer stops. If every successful read uses up some of what
  the peer sends, the decoder hands out finitely many requests and the service answers each,
  \<open>ecall_tls_recv\<close> returns.\<close>

theorem recv_returns:
  assumes "reads_decrease L left" and "decoder_drains D buffered" and "service_returns srv"
  shows "\<exists>r en'. ecall_tls_recv catches L D srv fd en = Some (r, en')"
  using assms by (rule ecall_recv_returns)

lemma sample_ends: "reads_decrease sample_ssl length" "decoder_drains sample_decoder length" "service_returns echo"
  by (auto simp: service_returns_def echo_def reads_decrease_def decoder_drains_def sample_ssl_def sample_decoder_def split: list.splits)

theorem recv_returns_witness:
  "\<exists>r en'. ecall_tls_recv (\<lambda>_. True) sample_ssl sample_decoder echo 7 (connected [''a'', ''b'']) = Some (r, en')"
  by (rule recv_returns [OF sample_ends])


lemma sample_yields: "yields sample_decoder [''/ping''] [\<lparr>rq_method = ''GET'', rq_path = ''/ping'', rq_body = []\<rparr>] []"
  by (rule yields.intros(2)) (auto simp: sample_decoder_def intro: yields.intros(1))

definition sample_text :: "response option \<Rightarrow> string" where
  "sample_text a = (case a of None \<Rightarrow> [] | Some r \<Rightarrow> rs_body r)"


text \<open>C39: a handshake that fails. \<open>addConnection\<close> frees the SSL object and then asks it for
  the reason of the failure, for the message it prints: a use after the free.\<close>

theorem failed_handshake_uses_freed_object:
  assumes "tl_ctx w" and "map_find (tl_table w) fd = None"
    and "os_new L (tl_net w) = (True, net)" and "os_accept L (Some (tl_next w)) net = (r, net')" and "r \<le> 0"
  shows "\<exists>w'. addConnection L d fd w = (- 2, w') \<and> tl_log w' = tl_log w @
     [Call_SSL_new (Some (tl_next w)), Call_SSL_set_fd (Some (tl_next w)) fd, Call_SSL_accept (Some (tl_next w)),
      Call_SSL_free (Some (tl_next w)), Call_SSL_get_error (Some (tl_next w)), Call_close fd]"
  using assms
  by (simp add: addConnection_def accept_connection_def SSL_new_def SSL_accept_def err_str_def SSL_get_error_def calls_def
      Let_def)

definition refusing_ssl :: "string list openssl" where
  "refusing_ssl = sample_ssl\<lparr>os_accept := \<lambda>s net. (0, net)\<rparr>"

theorem failed_handshake_uses_freed_object_witness:
  "\<exists>w'. addConnection refusing_ssl [] 7 (en_tls (sample_enclave [])) = (- 2, w') \<and> tl_log w' =
     [Call_SSL_new (Some 0), Call_SSL_set_fd (Some 0) 7, Call_SSL_accept (Some 0),
      Call_SSL_free (Some 0), Call_SSL_get_error (Some 0), Call_close 7]"
  using failed_handshake_uses_freed_object [where w = "en_tls (sample_enclave [])" and L = refusing_ssl and fd = 7
      and net = "[]" and net' = "[]" and r = 0 and d = "[]"]
  by (simp add: sample_enclave_def tls_start_def refusing_ssl_def sample_ssl_def)

text \<open>C40: a race. The receiving thread closes a connection and only then removes it from the
  table; if in between the kernel gives the descriptor to a new connection and the accepting
  thread adds it, the removal destroys the new connection: its object is freed and its
  descriptor closed.\<close>

theorem removal_races_with_accept:
  assumes "tl_ctx w" and "map_ok (tl_table w)" and "map_find (tl_table w) fd = Some (released c)" and "fd \<noteq> - 1"
    and "os_new L (tl_net w) = (True, net)" and "os_accept L (Some (tl_next w)) net = (r, net')" and "0 < r"
  shows "map_find (tl_table (snd (addConnection L d fd w))) fd =
       Some \<lparr>ic_fd = fd, ic_ssl = Some (tl_next w), ic_decoder = d\<rparr> \<and>
     map_find (tl_table (snd (removeConnection fd (snd (addConnection L d fd w))))) fd = None \<and>
     tl_log (snd (removeConnection fd (snd (addConnection L d fd w)))) =
       tl_log (snd (addConnection L d fd w)) @ [Call_SSL_free (Some (tl_next w)), Call_close fd]"
proof -
  have "addConnection L d fd w = (0, insert_connection fd \<lparr>ic_fd = fd, ic_ssl = Some (tl_next w), ic_decoder = d\<rparr>
      (w\<lparr>tl_table := map_erase (tl_table w) fd, tl_next := Suc (tl_next w), tl_net := net', tl_log := tl_log w @
         [Call_SSL_new (Some (tl_next w)), Call_SSL_set_fd (Some (tl_next w)) fd, Call_SSL_accept (Some (tl_next w))]\<rparr>))"
    using assms by (simp add: addConnection_def erase_connection_def conn_destroy_eq accept_connection_def SSL_new_def
        SSL_accept_def calls_def Let_def released_def close_calls_def)
  then show ?thesis
    using assms(4) by (simp add: insert_connection_new conn_move_def removeConnection_def erase_connection_def
        conn_destroy_eq close_calls_def)
qed

theorem removal_races_with_accept_witness:
  "\<exists>w. map_find (tl_table w) 7 = Some (released \<lparr>ic_fd = 7, ic_ssl = Some 0, ic_decoder = [] :: string list\<rparr>) \<and>
     map_find (tl_table (snd (removeConnection 7 (snd (addConnection sample_ssl [] 7 w))))) 7 = None \<and>
     tl_log (snd (removeConnection 7 (snd (addConnection sample_ssl [] 7 w)))) =
       tl_log (snd (addConnection sample_ssl [] 7 w)) @ [Call_SSL_free (Some 1), Call_close 7]"
proof -
  let ?c = "\<lparr>ic_fd = 7, ic_ssl = Some 0, ic_decoder = []\<rparr> :: string list income"
  define w where "w = store_connection 7 (released ?c) (en_tls (connected []))"
  have "tl_ctx w" "map_ok (tl_table w)" "map_find (tl_table w) 7 = Some (released ?c)" "tl_next w = 1" "tl_net w = []"
    by (simp_all add: w_def store_connection_def connected_eq map_ok_def)
  then show ?thesis
    using removal_races_with_accept [where w = w and fd = 7 and L = sample_ssl and net = "[]" and net' = "[]" and r = 1
        and d = "[]" and c = ?c]
    by (intro exI [of _ w]) (simp add: sample_ssl_def)
qed

end
