(* ===== verification/Event_Loop.thy ===== *)
theory Event_Loop
  imports Ecalls
begin

text \<open>
  The untrusted part of the servers: the event loop over \<open>epoll\<close> (\<open>event_loop.cpp\<close>,
  \<open>event_loop.h\<close>), the worker threads and the start of the program
  (\<open>sgxserver_bootstrap.cpp\<close>). The kernel is a parameter, a record of system calls over
  a state. The accepting thread and the workers share a queue of ready descriptors; the
  system is a step relation whose steps are one turn of the event loop and one turn of a
  worker.
\<close>

unbundle bit_operations_syntax

section \<open>The kernel\<close>

record sockaddr =
  sin_addr :: "32 word"
  sin_port :: "16 word"

datatype errno = EINTR | EAGAIN | EBADF | ECONNRESET | Other_Errno

record 'k kernel =
  k_inet_addr :: "string \<Rightarrow> 32 word"
  k_socket :: "'k \<Rightarrow> int \<times> 'k"
  k_bind :: "int \<Rightarrow> sockaddr \<Rightarrow> 'k \<Rightarrow> int \<times> 'k"
  k_listen :: "int \<Rightarrow> nat \<Rightarrow> 'k \<Rightarrow> 'k"
  k_connect :: "int \<Rightarrow> sockaddr \<Rightarrow> 'k \<Rightarrow> int \<times> 'k"
  k_getfl :: "int \<Rightarrow> 'k \<Rightarrow> int \<times> 'k"
  k_setfl :: "int \<Rightarrow> int \<Rightarrow> 'k \<Rightarrow> int \<times> 'k"
  k_epoll_create :: "'k \<Rightarrow> int \<times> 'k"
  k_epoll_add :: "int \<Rightarrow> int \<Rightarrow> 32 word \<Rightarrow> 'k \<Rightarrow> int \<times> 'k"
  k_epoll_wait :: "int \<Rightarrow> nat \<Rightarrow> 'k \<Rightarrow> (int \<times> int list \<times> errno) \<times> 'k"
  k_accept :: "int \<Rightarrow> 'k \<Rightarrow> int \<times> 'k"
  k_recv :: "int \<Rightarrow> nat \<Rightarrow> 'k \<Rightarrow> (int \<times> string \<times> errno) \<times> 'k"
  k_close :: "int \<Rightarrow> 'k \<Rightarrow> 'k"

text \<open>The constants of Linux that the code uses.\<close>

definition EPOLLIN :: "32 word" where "EPOLLIN = 1"
definition EPOLLET :: "32 word" where "EPOLLET = 0x80000000"
definition O_NONBLOCK :: int where "O_NONBLOCK = 2048"

text \<open>\<open>htons\<close> on a little-endian machine.\<close>

definition htons :: "16 word \<Rightarrow> 16 word" where
  "htons p = push_bit 8 p OR drop_bit 8 p"

section \<open>SocketEventLoop\<close>

record event_loop =
  el_epollfd :: int
  el_localserver :: sockaddr
  el_remoteserver :: sockaddr
  el_listendpoint :: string
  el_connectendpoint :: string

definition event_loop_new :: event_loop where
  "event_loop_new = \<lparr>el_epollfd = - 1, el_localserver = \<lparr>sin_addr = 0, sin_port = 0\<rparr>,
     el_remoteserver = \<lparr>sin_addr = 0, sin_port = 0\<rparr>, el_listendpoint = [], el_connectendpoint = []\<rparr>"

definition set_listener :: "'k kernel \<Rightarrow> string \<Rightarrow> 16 word \<Rightarrow> event_loop \<Rightarrow> event_loop" where
  "set_listener K host port el =
     el\<lparr>el_listendpoint := host @ '':'' @ to_string_nat (unat port),
        el_localserver := \<lparr>sin_addr = (if host = ''*'' then 0 else k_inet_addr K (c_str host)), sin_port = htons port\<rparr>\<rparr>"

definition set_server :: "'k kernel \<Rightarrow> string \<Rightarrow> 16 word \<Rightarrow> event_loop \<Rightarrow> event_loop" where
  "set_server K host port el =
     el\<lparr>el_connectendpoint := host @ '':'' @ to_string_nat (unat port),
        el_remoteserver := \<lparr>sin_addr = k_inet_addr K (c_str host), sin_port = htons port\<rparr>\<rparr>"

definition bind_n_listen :: "'k kernel \<Rightarrow> event_loop \<Rightarrow> 'k \<Rightarrow> (int \<times> 'k) process" where
  "bind_n_listen K el k =
     (let (fd, k1) = k_socket K k; (r, k2) = k_bind K fd (el_localserver el) k1
      in if r < 0 then Exits 1 else Runs (fd, k_listen K fd 10 k2))"

text \<open>A connection that fails is only reported.\<close>

definition connect :: "'k kernel \<Rightarrow> event_loop \<Rightarrow> 'k \<Rightarrow> int \<times> 'k" where
  "connect K el k = (let (fd, k1) = k_socket K k; (r, k2) = k_connect K fd (el_remoteserver el) k1 in (fd, k2))"

definition setnonblocking :: "'k kernel \<Rightarrow> int \<Rightarrow> 'k \<Rightarrow> 'k process" where
  "setnonblocking K sock k =
     (let (opts, k1) = k_getfl K sock k
      in if opts < 0 then Exits 1
         else let (r, k2) = k_setfl K sock (opts OR O_NONBLOCK) k1
              in if r < 0 then Exits 1 else Runs k2)"

definition create_epoll :: "'k kernel \<Rightarrow> event_loop \<Rightarrow> 'k \<Rightarrow> (event_loop \<times> 'k) process" where
  "create_epoll K el k =
     (let (e, k1) = k_epoll_create K k
      in if e = - 1 then Exits 1 else Runs (el\<lparr>el_epollfd := e\<rparr>, k1))"

definition addto_epoll :: "'k kernel \<Rightarrow> event_loop \<Rightarrow> int \<Rightarrow> 32 word \<Rightarrow> 'k \<Rightarrow> 'k process" where
  "addto_epoll K el fd events k =
     (case if events AND EPOLLET \<noteq> 0 then setnonblocking K fd k else Runs k of
        Exits n \<Rightarrow> Exits n
      | Runs k1 \<Rightarrow>
          (let (r, k2) = k_epoll_add K (el_epollfd el) fd events k1
           in if r = - 1 then Exits 1 else Runs k2))"

text \<open>The whole server: the event loop, the listening socket (-1 for none), the queue of ready
  descriptors, the enclave and the kernel.\<close>

record ('s, 'n, 'd, 'k) server =
  sv_loop :: event_loop
  sv_listen :: int
  sv_queue :: "int list"
  sv_enclave :: "('s, 'n, 'd) enclave"
  sv_kernel :: 'k

text \<open>The part of \<open>event_loop\<close> before its loop.\<close>

definition start_loop :: "'k kernel \<Rightarrow> ('s, 'n, 'd, 'k) server \<Rightarrow> ('s, 'n, 'd, 'k) server process" where
  "start_loop K sv =
     (case if el_epollfd (sv_loop sv) < 0 then create_epoll K (sv_loop sv) (sv_kernel sv)
           else Runs (sv_loop sv, sv_kernel sv) of
        Exits n \<Rightarrow> Exits n
      | Runs (el, k1) \<Rightarrow>
          (if el_listendpoint el = [] then Runs (sv\<lparr>sv_loop := el, sv_listen := - 1, sv_kernel := k1\<rparr>)
           else
             case bind_n_listen K el k1 of
               Exits n \<Rightarrow> Exits n
             | Runs (sock, k2) \<Rightarrow>
                 (case addto_epoll K el sock EPOLLIN k2 of
                    Exits n \<Rightarrow> Exits n
                  | Runs k3 \<Rightarrow> Runs (sv\<lparr>sv_loop := el, sv_listen := sock, sv_kernel := k3\<rparr>))))"

text \<open>One event: a new connection, or a descriptor that is ready. \<open>tls\<close> is the preprocessor
  symbol \<open>TLS_REQUESTS\<close>.\<close>

definition handle_event ::
  "bool \<Rightarrow> 'k kernel \<Rightarrow> 'n openssl \<Rightarrow> 'd http_decoder \<Rightarrow> int \<Rightarrow> ('s, 'n, 'd, 'k) server \<Rightarrow>
     ('s, 'n, 'd, 'k) server process" where
  "handle_event tls K L D fd sv =
     (if fd = sv_listen sv then
        (let (sock, k1) = k_accept K (sv_listen sv) (sv_kernel sv)
         in if sock = - 1 then Exits 1
            else
              let (ret, en) = (if tls then ecall_tls_accept L D sock (sv_enclave sv) else (0, sv_enclave sv));
                  sv1 = sv\<lparr>sv_enclave := en, sv_kernel := k1\<rparr>
              in if ret \<noteq> 0 then Runs sv1
                 else
                   case addto_epoll K (sv_loop sv) sock (EPOLLIN OR EPOLLET) k1 of
                     Exits n \<Rightarrow> Exits n
                   | Runs k2 \<Rightarrow> Runs (sv1\<lparr>sv_kernel := k2\<rparr>))
      else Runs (sv\<lparr>sv_queue := sv_queue sv @ [fd]\<rparr>))"

fun handle_events ::
  "bool \<Rightarrow> 'k kernel \<Rightarrow> 'n openssl \<Rightarrow> 'd http_decoder \<Rightarrow> int list \<Rightarrow> ('s, 'n, 'd, 'k) server \<Rightarrow>
     ('s, 'n, 'd, 'k) server process" where
  "handle_events tls K L D [] sv = Runs sv"
| "handle_events tls K L D (fd # fds) sv =
     (case handle_event tls K L D fd sv of
        Exits n \<Rightarrow> Exits n
      | Runs sv1 \<Rightarrow> handle_events tls K L D fds sv1)"

definition MAX_EVENTS :: nat where
  "MAX_EVENTS = 10"

text \<open>A turn of the loop: whether \<open>epoll_wait\<close> was interrupted or failed, no event is
  handled.\<close>

definition event_turn ::
  "bool \<Rightarrow> 'k kernel \<Rightarrow> 'n openssl \<Rightarrow> 'd http_decoder \<Rightarrow> ('s, 'n, 'd, 'k) server \<Rightarrow> ('s, 'n, 'd, 'k) server process" where
  "event_turn tls K L D sv =
     (let ((nfds, fds, e), k1) = k_epoll_wait K (el_epollfd (sv_loop sv)) MAX_EVENTS (sv_kernel sv);
          sv1 = sv\<lparr>sv_kernel := k1\<rparr>
      in if nfds = - 1 \<and> e = EINTR then Runs sv1
         else handle_events tls K L D (take (nat nfds) fds) sv1)"

section \<open>Workers\<close>

text \<open>\<open>consume_fd\<close> without TLS: the bytes read until the socket has no more, is closed or
  fails.\<close>

partial_function (option) consume_loop :: "'k kernel \<Rightarrow> int \<Rightarrow> string \<Rightarrow> 'k \<Rightarrow> (string \<times> 'k) option" where
  "consume_loop K fd msg k =
     (case k_recv K fd 1000 k of
        ((sz, buff, e), k1) \<Rightarrow>
          if 0 \<le> sz then
            if sz = 0 then Some (msg, k_close K fd k1)
            else consume_loop K fd (msg @ take (nat sz) buff) k1
          else Some (msg, if e = ECONNRESET then k_close K fd k1 else k1))"

text \<open>A turn of \<open>enclave_thread\<close> on the descriptor it has taken from the queue. With TLS the
  result of the reception is ignored.\<close>

definition consume_fd ::
  "(exn \<Rightarrow> bool) \<Rightarrow> 'n openssl \<Rightarrow> 'd http_decoder \<Rightarrow> 's responder \<Rightarrow> int \<Rightarrow> ('s, 'n, 'd, 'k) server \<Rightarrow>
     (ecall_end \<times> ('s, 'n, 'd, 'k) server) option" where
  "consume_fd catches L D srv fd sv =
     map_option (\<lambda>(r, en). (r, sv\<lparr>sv_enclave := en\<rparr>)) (ecall_tls_recv catches L D srv fd (sv_enclave sv))"

definition take_ready :: "('s, 'n, 'd, 'k) server \<Rightarrow> (int \<times> ('s, 'n, 'd, 'k) server) option" where
  "take_ready sv = (case sv_queue sv of [] \<Rightarrow> None | fd # q \<Rightarrow> Some (fd, sv\<lparr>sv_queue := q\<rparr>))"

section \<open>Start and end\<close>

text \<open>\<open>main\<close> after the arguments are parsed: the return values 1 and 2, or the event loop on
  \<open>args.port\<close>, whose type \<open>size_t\<close> is narrowed to an unsigned short.\<close>

definition server_main ::
  "bool \<Rightarrow> bool \<Rightarrow> (('s, 'n, 'd) enclave \<Rightarrow> (int result \<times> ('s, 'n, 'd) enclave) process) \<Rightarrow> 'k kernel \<Rightarrow>
     64 word \<Rightarrow> ('s, 'n, 'd) enclave \<Rightarrow> 'k \<Rightarrow> (exn, ('s, 'n, 'd, 'k) server) sum process" where
  "server_main native enclave_fails init K port en k =
     (if \<not> native \<and> enclave_fails then Exits 1
      else
        case init en of
          Exits n \<Rightarrow> Exits n
        | Runs (Inl e, en1) \<Rightarrow> Runs (Inl e)
        | Runs (Inr ret, en1) \<Rightarrow>
            if ret \<noteq> 0 then Exits 2
            else
              case start_loop K \<lparr>sv_loop = set_listener K ''*'' (ucast port) event_loop_new, sv_listen = - 1,
                     sv_queue = [], sv_enclave = en1, sv_kernel = k\<rparr> of
                Exits n \<Rightarrow> Exits n
              | Runs sv \<Rightarrow> Runs (Inr sv))"

definition ctrlc_handler :: "('s, 'n, 'd, 'k) server \<Rightarrow> ('s, 'n, 'd, 'k) server" where
  "ctrlc_handler sv = sv\<lparr>sv_enclave := ecall_finish (sv_enclave sv)\<rparr>"

section \<open>The running server\<close>

text \<open>The descriptors that a turn of the event loop finds ready, without the listening socket.\<close>

definition polled :: "'k kernel \<Rightarrow> ('s, 'n, 'd, 'k) server \<Rightarrow> int list" where
  "polled K sv =
     (let ((nfds, fds, e), k1) = k_epoll_wait K (el_epollfd (sv_loop sv)) MAX_EVENTS (sv_kernel sv)
      in filter (\<lambda>fd. fd \<noteq> sv_listen sv) (if nfds = - 1 \<and> e = EINTR then [] else take (nat nfds) fds))"

text \<open>A run of the event loop and the workers, with the descriptors found ready and those
  taken by workers, each in order.\<close>

inductive server_run ::
  "bool \<Rightarrow> 'k kernel \<Rightarrow> (exn \<Rightarrow> bool) \<Rightarrow> 'n openssl \<Rightarrow> 'd http_decoder \<Rightarrow> 's responder \<Rightarrow>
     ('s, 'n, 'd, 'k) server \<Rightarrow> int list \<Rightarrow> int list \<Rightarrow> ('s, 'n, 'd, 'k) server \<Rightarrow> bool"
  for tls K catches L D srv sv where
  start: "server_run tls K catches L D srv sv [] [] sv"
| poll: "server_run tls K catches L D srv sv ready taken sv1 \<Longrightarrow> event_turn tls K L D sv1 = Runs sv2 \<Longrightarrow>
    server_run tls K catches L D srv sv (ready @ polled K sv1) taken sv2"
| work: "server_run tls K catches L D srv sv ready taken sv1 \<Longrightarrow> take_ready sv1 = Some (fd, sv2) \<Longrightarrow>
    consume_fd catches L D srv fd sv2 = Some (r, sv3) \<Longrightarrow>
    server_run tls K catches L D srv sv ready (taken @ [fd]) sv3"

lemma handle_event_effect:
  assumes "handle_event tls K L D fd sv = Runs sv'"
  shows "sv_queue sv' = sv_queue sv @ (if fd = sv_listen sv then [] else [fd]) \<and> sv_listen sv' = sv_listen sv \<and>
    (tls_inv (en_tls (sv_enclave sv)) \<longrightarrow> tls_inv (en_tls (sv_enclave sv')))"
proof (cases "fd = sv_listen sv")
  case False
  then show ?thesis using assms by (auto simp: handle_event_def)
next
  case True
  have "tls_inv w \<Longrightarrow> tls_inv (en_tls (snd (if tls then ecall_tls_accept L D sock en else (0, en))))"
    if "en_tls en = w" for sock w and en :: "('a, 'b, 'c) enclave"
    using that addConnection_inv by (auto simp: ecall_tls_accept_def case_prod_beta)
  then show ?thesis
    using assms True
    by (auto simp: handle_event_def case_prod_beta Let_def split: if_splits process.splits)
qed

lemma handle_events_effect:
  assumes "handle_events tls K L D fds sv = Runs sv'"
  shows "sv_queue sv' = sv_queue sv @ filter (\<lambda>fd. fd \<noteq> sv_listen sv) fds \<and> sv_listen sv' = sv_listen sv \<and>
    (tls_inv (en_tls (sv_enclave sv)) \<longrightarrow> tls_inv (en_tls (sv_enclave sv')))"
  using assms
proof (induction fds arbitrary: sv)
  case Nil
  then show ?case by simp
next
  case (Cons fd fds)
  then obtain sv1 where sv1: "handle_event tls K L D fd sv = Runs sv1" "handle_events tls K L D fds sv1 = Runs sv'"
    by (auto split: process.splits)
  show ?case using Cons.IH [OF sv1(2)] handle_event_effect [OF sv1(1)] by auto
qed

lemma event_turn_effect:
  assumes "event_turn tls K L D sv = Runs sv'"
  shows "sv_queue sv' = sv_queue sv @ polled K sv \<and> sv_listen sv' = sv_listen sv \<and>
    (tls_inv (en_tls (sv_enclave sv)) \<longrightarrow> tls_inv (en_tls (sv_enclave sv')))"
proof -
  obtain nfds fds e k1 where p: "k_epoll_wait K (el_epollfd (sv_loop sv)) MAX_EVENTS (sv_kernel sv) = ((nfds, fds, e), k1)"
    by (metis surj_pair)
  show ?thesis
    using assms handle_events_effect [of tls K L D "take (nat nfds) fds" "sv\<lparr>sv_kernel := k1\<rparr>" sv'] p
    by (auto simp: event_turn_def polled_def split: if_splits)
qed

lemma server_run_effect:
  assumes "server_run tls K catches L D srv sv ready taken sv'"
  shows "sv_queue sv @ ready = taken @ sv_queue sv' \<and>
    (tls_inv (en_tls (sv_enclave sv)) \<longrightarrow> tls_inv (en_tls (sv_enclave sv')))"
  using assms
proof (induction rule: server_run.induct)
  case start
  then show ?case by simp
next
  case (poll ready taken sv1 sv2)
  then show ?case using event_turn_effect [OF poll.hyps(2)] by auto
next
  case (work ready taken sv1 fd sv2 r sv3)
  have "sv_queue sv1 = fd # sv_queue sv2" "sv_enclave sv2 = sv_enclave sv1"
    using work.hyps(2) by (auto simp: take_ready_def split: list.splits)
  moreover obtain en where "ecall_tls_recv catches L D srv fd (sv_enclave sv2) = Some (r, en)"
    "sv3 = sv2\<lparr>sv_enclave := en\<rparr>"
    using work.hyps(3) by (auto simp: consume_fd_def)
  ultimately show ?case using work.IH ecall_tls_recv_ok by auto
qed

section \<open>Properties\<close>

text \<open>C20: nothing that is ready is lost or reordered. In every run of the event loop and the
  workers the descriptors that \<open>epoll\<close> reported are, in order, those that workers have
  taken followed by those that wait in the queue; and the ownership invariant of the
  connections holds throughout.\<close>

theorem ready_descriptors_in_order:
  assumes "server_run tls K catches L D srv sv ready taken sv'" and "tls_inv (en_tls (sv_enclave sv))"
  shows "sv_queue sv @ ready = taken @ sv_queue sv' \<and> tls_inv (en_tls (sv_enclave sv'))"
  using server_run_effect [OF assms(1)] assms(2) by blast

text \<open>A kernel with one connection, descriptor 7, that is always ready.\<close>

definition sample_kernel :: "nat kernel" where
  "sample_kernel = \<lparr>k_inet_addr = \<lambda>h. 0, k_socket = \<lambda>k. (3, k), k_bind = \<lambda>fd a k. (0, k), k_listen = \<lambda>fd n k. k,
     k_connect = \<lambda>fd a k. (0, k), k_getfl = \<lambda>fd k. (0, k), k_setfl = \<lambda>fd f k. (0, k), k_epoll_create = \<lambda>k. (4, k),
     k_epoll_add = \<lambda>e fd ev k. (0, k), k_epoll_wait = \<lambda>e n k. ((1, [7], Other_Errno), k + 1), k_accept = \<lambda>s k. (7, k),
     k_recv = \<lambda>fd n k. ((- 1, [], EAGAIN), k), k_close = \<lambda>fd k. k\<rparr>"

definition sample_server :: "(nat, string list, string list, nat) server" where
  "sample_server = \<lparr>sv_loop = event_loop_new\<lparr>el_epollfd := 4\<rparr>, sv_listen = 3, sv_queue = [],
     sv_enclave = connected [], sv_kernel = 0\<rparr>"

theorem ready_descriptors_in_order_witness:
  "\<exists>sv'. server_run True sample_kernel (\<lambda>_. True) sample_ssl sample_decoder echo sample_server [7, 7] [7] sv' \<and> sv_queue sv' = [7]"
proof -
  let ?run = "server_run True sample_kernel (\<lambda>_. True) sample_ssl sample_decoder echo sample_server"
  have turn: "event_turn True sample_kernel sample_ssl sample_decoder sv =
      Runs (sv\<lparr>sv_kernel := sv_kernel sv + 1, sv_queue := sv_queue sv @ [7]\<rparr>)" "polled sample_kernel sv = [7]"
    if "sv_listen sv = 3" for sv :: "(nat, string list, string list, nat) server"
    using that by (simp_all add: event_turn_def sample_kernel_def handle_event_def polled_def)
  let ?s1 = "sample_server\<lparr>sv_kernel := 1, sv_queue := [7]\<rparr>"
  have "?run [7] [] ?s1"
    using server_run.poll [OF server_run.start turn(1) [of sample_server], of "\<lambda>_. True" echo] turn(2) [of sample_server]
    by (simp add: sample_server_def)
  from server_run.poll [OF this turn(1)] have "?run [7, 7] [] (sample_server\<lparr>sv_kernel := 2, sv_queue := [7, 7]\<rparr>)"
    using turn(2) [of ?s1] by (simp add: sample_server_def numeral_2_eq_2)
  from server_run.work [OF this, of 7 "sample_server\<lparr>sv_kernel := 2, sv_queue := [7]\<rparr>"]
  obtain sv' where r: "?run [7, 7] [7] sv'"
    using connected_recv by (auto simp: take_ready_def consume_fd_def sample_server_def)
  have "sv_queue sv' = [7]"
    using ready_descriptors_in_order [OF r] connected_inv by (simp add: sample_server_def)
  with r show ?thesis by blast
qed

text \<open>A client whose handshake fails does no harm. The event loop closes its descriptor,
  leaves the table of connections and the queue as they were, does not register it with
  \<open>epoll\<close>, and goes on.\<close>

lemma failed_handshake_dropped:
  assumes "tl_ctx (en_tls (sv_enclave sv))" and "k_accept K (sv_listen sv) (sv_kernel sv) = (sock, k')" and "sock \<noteq> - 1"
    and "map_find (tl_table (en_tls (sv_enclave sv))) sock = None"
    and "os_new L (tl_net (en_tls (sv_enclave sv))) = (True, net)"
    and "os_accept L (Some (tl_next (en_tls (sv_enclave sv)))) net = (r, net')" and "r \<le> 0"
  shows "\<exists>sv'. handle_event True K L D (sv_listen sv) sv = Runs sv' \<and> sv_kernel sv' = k' \<and> sv_queue sv' = sv_queue sv \<and>
     tl_table (en_tls (sv_enclave sv')) = tl_table (en_tls (sv_enclave sv)) \<and>
     last (tl_log (en_tls (sv_enclave sv'))) = Call_close sock"
proof -
  obtain w' where "addConnection L (hd_new D) sock (en_tls (sv_enclave sv)) = (- 2, w')"
    "tl_table w' = tl_table (en_tls (sv_enclave sv))" "last (tl_log w') = Call_close sock"
    using assms(1,4-7) by (simp add: addConnection_def accept_connection_def SSL_new_def SSL_accept_def err_str_def
        SSL_get_error_def calls_def Let_def)
  then show ?thesis
    using assms(2,3) by (simp add: handle_event_def ecall_tls_accept_def)
qed

end
