(* ===== verification/Cmd_Args.thy ===== *)
theory Cmd_Args
  imports Event_Loop
begin

text \<open>
  The command lines of the two servers (\<open>anonymbe.cpp\<close>, \<open>writeproxy.cpp\<close>) and the
  argument structures they fill (\<open>anonymbe_args.h\<close>, \<open>writeproxy_args.h\<close>), whose
  character arrays go as they are into the enclaves. A character array is a list of its
  size; what C reads from it as a string is the part before the first NUL.
\<close>

section \<open>C strings and numbers\<close>

text \<open>\<open>strncpy(dst, src, n)\<close>: at most \<open>n\<close> bytes, filled up with NULs if the string is
  shorter; no terminator if it is not.\<close>

definition strncpy :: "string \<Rightarrow> string \<Rightarrow> nat \<Rightarrow> string" where
  "strncpy dst src n = string_resize n (c_str src) @ drop n dst"

text \<open>\<open>std::stoi\<close>: blanks, a sign and digits; anything may follow. Its two exceptions are
  logic errors.\<close>

definition is_space :: "char \<Rightarrow> bool" where
  "is_space c \<longleftrightarrow> c \<in> {CHR 0x20, CHR 0x09, CHR 0x0A, CHR 0x0B, CHR 0x0C, CHR 0x0D}"

definition stoi :: "string \<Rightarrow> int result" where
  "stoi s =
     (let t = dropWhile is_space (c_str s);
          negative = (t \<noteq> [] \<and> hd t = CHR ''-'');
          u = (if t \<noteq> [] \<and> (hd t = CHR ''-'' \<or> hd t = CHR ''+'') then tl t else t);
          ds = takeWhile is_digit_char u;
          n = int (digits_value ds);
          v = (if negative then - n else n)
      in if ds = [] then Inl (Invalid_Argument ''stoi'')
         else if v < - (2 ^ 31) \<or> 2 ^ 31 \<le> v then Inl (Logic_Error ''stoi'')
         else Inr v)"

datatype opt_result = Opt_Ok | ARGP_ERR_UNKNOWN

section \<open>The monitor\<close>

record anonymbe_args =
  aa_port :: "64 word"
  aa_indexed :: bool
  aa_mongo :: string

definition mongo_size :: nat where
  "mongo_size = 1024"

text \<open>\<open>aa_indexed\<close> is whether the character \<open>indexed\<close> is not 0.\<close>

definition anonymbe_parse_opt :: "char \<Rightarrow> string \<Rightarrow> anonymbe_args \<Rightarrow> (opt_result \<times> anonymbe_args) result" where
  "anonymbe_parse_opt key arg args =
     (if key = CHR ''p'' then
        (case stoi arg of Inl e \<Rightarrow> Inl e | Inr n \<Rightarrow> Inr (Opt_Ok, args\<lparr>aa_port := word_of_int n\<rparr>))
      else if key = CHR ''m'' then
        Inr (Opt_Ok, args\<lparr>aa_mongo := strncpy (aa_mongo args) arg (length (aa_mongo args))\<rparr>)
      else if key = CHR ''i'' then
        Inr (Opt_Ok, if c_str arg = ''false'' then args\<lparr>aa_indexed := False\<rparr> else args)
      else Inr (ARGP_ERR_UNKNOWN, args))"

definition default_mongo :: string where
  "default_mongo = ''mongodb://sgx-3.maas:27017/'' @ ''?ssl=true&sslAllowInvalidCertificates=true&'' @
     ''sslAllowInvalidHostnames=true''"

definition anonymbe_init_args :: "anonymbe_args \<Rightarrow> anonymbe_args" where
  "anonymbe_init_args args =
     args\<lparr>aa_port := 4444, aa_indexed := True, aa_mongo := strncpy (aa_mongo args) default_mongo (length (aa_mongo args))\<rparr>"

section \<open>The writer proxy\<close>

record writeproxy_args =
  wa_port :: "64 word"
  wa_minioendpoint :: string
  wa_miniosecret :: string
  wa_minioaccesskey :: string
  wa_tokenuser :: string
  wa_tokenpass :: string
  wa_tokenendpoint :: string
  wa_amendpoint :: string

text \<open>\<open>strncpy\<close> into an array, leaving its last byte.\<close>

definition copy_arg :: "string \<Rightarrow> string \<Rightarrow> string" where
  "copy_arg dst arg = strncpy dst arg (length dst - 1)"

definition writeproxy_parse_opt :: "char \<Rightarrow> string \<Rightarrow> writeproxy_args \<Rightarrow> (opt_result \<times> writeproxy_args) result" where
  "writeproxy_parse_opt key arg args =
     (if key = CHR ''p'' then
        (case stoi arg of Inl e \<Rightarrow> Inl e | Inr n \<Rightarrow> Inr (Opt_Ok, args\<lparr>wa_port := word_of_int n\<rparr>))
      else if key = CHR ''m'' then Inr (Opt_Ok, args\<lparr>wa_minioendpoint := copy_arg (wa_minioendpoint args) arg\<rparr>)
      else if key = CHR ''a'' then Inr (Opt_Ok, args\<lparr>wa_minioaccesskey := copy_arg (wa_minioaccesskey args) arg\<rparr>)
      else if key = CHR ''k'' then Inr (Opt_Ok, args\<lparr>wa_miniosecret := copy_arg (wa_miniosecret args) arg\<rparr>)
      else if key = CHR ''u'' then Inr (Opt_Ok, args\<lparr>wa_tokenuser := copy_arg (wa_tokenuser args) arg\<rparr>)
      else if key = CHR ''w'' then Inr (Opt_Ok, args\<lparr>wa_tokenpass := copy_arg (wa_tokenpass args) arg\<rparr>)
      else if key = CHR ''t'' then Inr (Opt_Ok, args\<lparr>wa_tokenendpoint := copy_arg (wa_tokenendpoint args) arg\<rparr>)
      else if key = CHR ''e'' then Inr (Opt_Ok, args\<lparr>wa_amendpoint := copy_arg (wa_amendpoint args) arg\<rparr>)
      else Inr (ARGP_ERR_UNKNOWN, args))"

definition zeroed :: "string \<Rightarrow> string" where
  "zeroed a = replicate (length a) (CHR 0x00)"

definition writeproxy_init_args :: "writeproxy_args \<Rightarrow> writeproxy_args" where
  "writeproxy_init_args args =
     args\<lparr>wa_port := 4445,
       wa_minioendpoint := zeroed (wa_minioendpoint args), wa_minioaccesskey := zeroed (wa_minioaccesskey args),
       wa_miniosecret := zeroed (wa_miniosecret args), wa_tokenuser := zeroed (wa_tokenuser args),
       wa_tokenpass := zeroed (wa_tokenpass args), wa_tokenendpoint := zeroed (wa_tokenendpoint args),
       wa_amendpoint := zeroed (wa_amendpoint args)\<rparr>"

text \<open>The options of a command line, in order; an unknown option ends the parsing.\<close>

fun parse_options :: "(char \<times> string) list \<Rightarrow> writeproxy_args \<Rightarrow> (opt_result \<times> writeproxy_args) result" where
  "parse_options [] args = Inr (Opt_Ok, args)"
| "parse_options ((key, arg) # opts) args =
     (case writeproxy_parse_opt key arg args of
        Inl e \<Rightarrow> Inl e
      | Inr (ARGP_ERR_UNKNOWN, args1) \<Rightarrow> Inr (ARGP_ERR_UNKNOWN, args1)
      | Inr (Opt_Ok, args1) \<Rightarrow> parse_options opts args1)"

text \<open>\<open>ecall_init\<close> of the writer proxy ends every array with a NUL before it reads any.\<close>

definition end_array :: "string \<Rightarrow> string" where
  "end_array a = a[length a - 1 := CHR 0x00]"

definition terminate_args :: "writeproxy_args \<Rightarrow> writeproxy_args" where
  "terminate_args args =
     args\<lparr>wa_minioendpoint := end_array (wa_minioendpoint args), wa_miniosecret := end_array (wa_miniosecret args),
       wa_minioaccesskey := end_array (wa_minioaccesskey args), wa_tokenuser := end_array (wa_tokenuser args),
       wa_tokenpass := end_array (wa_tokenpass args), wa_tokenendpoint := end_array (wa_tokenendpoint args),
       wa_amendpoint := end_array (wa_amendpoint args)\<rparr>"

definition wa_arrays :: "writeproxy_args \<Rightarrow> string list" where
  "wa_arrays args = [wa_minioendpoint args, wa_miniosecret args, wa_minioaccesskey args, wa_tokenuser args,
     wa_tokenpass args, wa_tokenendpoint args, wa_amendpoint args]"

text \<open>The callback of OpenSSL for a password (\<open>password_cb\<close> of \<open>tls_config.cpp\<close>): the
  buffer, of \<open>n\<close> bytes, and the length returned.\<close>

definition password_cb :: "string \<Rightarrow> nat \<Rightarrow> string \<Rightarrow> string \<times> nat" where
  "password_cb buf n password =
     (let buf1 = (strncpy buf password n)[n - 1 := CHR 0x00] in (buf1, length (c_str buf1)))"

section \<open>Lemmas\<close>

lemma c_str_append: "c_str (s @ t) = (if CHR 0x00 \<in> set s then c_str s else s @ c_str t)"
  unfolding c_str_def by (induction s) auto

lemma c_str_idem [simp]: "c_str (c_str s) = c_str s"
  by (simp add: c_str_def)

lemma c_str_resize: "c_str (string_resize n (c_str s) @ [CHR 0x00]) = take n (c_str s)"
proof -
  have "CHR 0x00 \<notin> set (take n (c_str s))"
    using c_str_no_nul [of s] by (meson in_set_takeD)
  moreover have "c_str (replicate k (CHR 0x00)) = []" "c_str [CHR 0x00] = []" for k
    by (cases k) (simp_all add: c_str_def)
  ultimately show ?thesis by (simp add: string_resize_def c_str_append)
qed

lemma length_strncpy: "n \<le> length dst \<Longrightarrow> length (strncpy dst src n) = length dst"
  by (simp add: strncpy_def)

text \<open>An array of \<open>n\<close> bytes whose last byte is NUL.\<close>

definition ended :: "nat \<Rightarrow> string \<Rightarrow> bool" where
  "ended n a \<longleftrightarrow> length a = n \<and> 0 < n \<and> last a = CHR 0x00"

lemma ended_split: "ended n a \<Longrightarrow> a = butlast a @ [CHR 0x00]"
  unfolding ended_def by (metis append_butlast_last_id length_greater_0_conv)

lemma ended_copy: 
  assumes "ended n dst"
  shows "ended n (copy_arg dst arg)" "c_str (copy_arg dst arg) = take (n - 1) (c_str arg)"
proof -
  have "drop (n - 1) dst = [CHR 0x00]"
    using ended_split [OF assms] assms unfolding ended_def by (metis append_eq_conv_conj length_butlast)
  then have eq: "copy_arg dst arg = string_resize (n - 1) (c_str arg) @ [CHR 0x00]"
    using assms by (simp add: copy_arg_def strncpy_def ended_def)
  show "ended n (copy_arg dst arg)" using assms by (simp add: eq ended_def)
  show "c_str (copy_arg dst arg) = take (n - 1) (c_str arg)" by (simp add: eq c_str_resize)
qed

lemma ended_short: "ended n a \<Longrightarrow> length (c_str a) < n"
proof -
  assume e: "ended n a"
  then have "c_str a = c_str (butlast a @ [CHR 0x00])" using ended_split [OF e] by simp
  also have "length \<dots> \<le> length (butlast a)"
    using length_takeWhile_le [of "\<lambda>c. c \<noteq> CHR 0x00" "butlast a"] by (simp add: c_str_append) (simp add: c_str_def)
  finally have "length (c_str a) \<le> n - 1" using e by (simp add: ended_def)
  then show ?thesis using e unfolding ended_def by linarith
qed

lemma ended_end_array: "length a = n \<Longrightarrow> 0 < n \<Longrightarrow> ended n (end_array a)"
  by (cases a rule: rev_cases) (auto simp: ended_def end_array_def list_update_append)

lemma c_str_end_array: "length a = Suc n \<Longrightarrow> c_str (end_array a) = take n (c_str a)"
  by (cases a rule: rev_cases) (auto simp: end_array_def c_str_def takeWhile_append list_update_append take_all [OF length_takeWhile_le])

lemma ended_zeroed: "length a = n \<Longrightarrow> 0 < n \<Longrightarrow> ended n (zeroed a)"
  by (simp add: ended_def zeroed_def)

lemma parse_opt_ended:
  assumes "\<forall>a \<in> set (wa_arrays args). ended 100 a" and "writeproxy_parse_opt key arg args = Inr (r, args')"
  shows "\<forall>a \<in> set (wa_arrays args'). ended 100 a"
  using assms ended_copy(1) [of 100]
  by (auto simp: writeproxy_parse_opt_def wa_arrays_def split: if_splits sum.splits)

lemma parse_options_ended:
  assumes "\<forall>a \<in> set (wa_arrays args). ended 100 a" and "parse_options opts args = Inr (r, args')"
  shows "\<forall>a \<in> set (wa_arrays args'). ended 100 a"
  using assms
proof (induction opts args rule: parse_options.induct)
  case (1 args)
  then show ?case by simp
next
  case (2 key arg opts args)
  then show ?case using parse_opt_ended by (fastforce split: sum.splits opt_result.splits)
qed

section \<open>Properties\<close>

text \<open>C33: the strings of the writer proxy are terminated. Whatever the arrays held before
  \<open>init_args\<close> and whatever options follow, every array of 100 bytes ends with a NUL and
  holds a string of at most 99 characters.\<close>

theorem writeproxy_args_terminated:
  assumes "\<forall>a \<in> set (wa_arrays args). length a = 100" and "parse_options opts (writeproxy_init_args args) = Inr (r, args')"
  shows "\<forall>a \<in> set (wa_arrays args'). length a = 100 \<and> last a = CHR 0x00 \<and> length (c_str a) \<le> 99"
proof -
  have "\<forall>a \<in> set (wa_arrays (writeproxy_init_args args)). ended 100 a"
    using assms(1) ended_zeroed [of _ 100] by (simp add: writeproxy_init_args_def wa_arrays_def)
  from parse_options_ended [OF this assms(2)] show ?thesis
    using ended_short [of 100] by (fastforce simp: ended_def)
qed

definition raw_args :: writeproxy_args where
  "raw_args = \<lparr>wa_port = 0, wa_minioendpoint = replicate 100 (CHR ''x''), wa_miniosecret = replicate 100 (CHR ''x''),
     wa_minioaccesskey = replicate 100 (CHR ''x''), wa_tokenuser = replicate 100 (CHR ''x''),
     wa_tokenpass = replicate 100 (CHR ''x''), wa_tokenendpoint = replicate 100 (CHR ''x''),
     wa_amendpoint = replicate 100 (CHR ''x'')\<rparr>"

theorem writeproxy_args_terminated_witness:
  "\<exists>args'. parse_options [(CHR ''m'', replicate 200 (CHR ''h''))] (writeproxy_init_args raw_args) = Inr (Opt_Ok, args') \<and>
     length (c_str (wa_minioendpoint args')) \<le> 99"
proof -
  obtain args' where p: "parse_options [(CHR ''m'', replicate 200 (CHR ''h''))] (writeproxy_init_args raw_args) = Inr (Opt_Ok, args')"
    by (simp add: writeproxy_parse_opt_def)
  have "\<forall>a \<in> set (wa_arrays raw_args). length a = 100" by (simp add: wa_arrays_def raw_args_def)
  from writeproxy_args_terminated [OF this p] p show ?thesis by (auto simp: wa_arrays_def)
qed

text \<open>The enclave does not trust its caller. Whatever arrays the untrusted side passes to
  \<open>ecall_init\<close> of the writer proxy, after the terminators are written every one holds a
  string of at most 99 characters, which is what was passed if that was terminated.\<close>

lemma untrusted_args_terminated:
  assumes "\<forall>a \<in> set (wa_arrays args). length a = 100"
  shows "wa_arrays (terminate_args args) = map end_array (wa_arrays args) \<and>
     (\<forall>a \<in> set (wa_arrays args). length (c_str (end_array a)) \<le> 99 \<and> c_str (end_array a) = take 99 (c_str a))"
proof
  show "wa_arrays (terminate_args args) = map end_array (wa_arrays args)"
    by (simp add: wa_arrays_def terminate_args_def)
  show "\<forall>a \<in> set (wa_arrays args). length (c_str (end_array a)) \<le> 99 \<and> c_str (end_array a) = take 99 (c_str a)"
  proof
    fix a assume "a \<in> set (wa_arrays args)"
    then have len: "length a = 100" using assms by blast
    then have "c_str (end_array a) = take 99 (c_str a)" using c_str_end_array [of a 99] by simp
    then show "length (c_str (end_array a)) \<le> 99 \<and> c_str (end_array a) = take 99 (c_str a)" by simp
  qed
qed

lemma untrusted_args_terminated_example:
  "wa_arrays (terminate_args raw_args) = replicate 7 (replicate 99 (CHR ''x'') @ [CHR 0x00]) \<and>
   c_str (end_array (replicate 100 (CHR ''x''))) = replicate 99 (CHR ''x'')"
proof -
  have "\<forall>a \<in> set (wa_arrays raw_args). length a = 100" by (simp add: wa_arrays_def raw_args_def)
  note t = untrusted_args_terminated [OF this]
  have "wa_arrays raw_args = replicate 7 (replicate 100 (CHR ''x''))"
    by (simp add: wa_arrays_def raw_args_def numeral_eq_Suc)
  moreover have "c_str (replicate 100 (CHR ''x'')) = replicate 100 (CHR ''x'')" by (simp add: c_str_def)
  moreover have "end_array (replicate 100 (CHR ''x'')) = replicate 99 (CHR ''x'') @ [CHR 0x00]"
    by (simp add: end_array_def numeral_eq_Suc)
  ultimately show ?thesis using t by simp
qed

text \<open>The connection string of the monitor need not be terminated. An argument of 1024
  characters or more fills the array without a NUL, so that reading it as a string runs
  past its end; every shorter argument is stored whole.\<close>

lemma mongo_argument_termination:
  assumes "length (aa_mongo args) = mongo_size" and "anonymbe_parse_opt (CHR ''m'') arg args = Inr (r, args')"
  shows "if mongo_size \<le> length (c_str arg) then CHR 0x00 \<notin> set (aa_mongo args')
     else c_str (aa_mongo args') = c_str arg"
proof -
  have m: "aa_mongo args' = string_resize mongo_size (c_str arg)"
    using assms by (auto simp: anonymbe_parse_opt_def strncpy_def)
  show ?thesis
  proof (cases "mongo_size \<le> length (c_str arg)")
    case True
    then show ?thesis using c_str_no_nul [of arg] in_set_takeD by (fastforce simp: m string_resize_def)
  next
    case False
    then obtain k where "mongo_size - length (c_str arg) = Suc k" by (metis Suc_diff_Suc not_le)
    then have "aa_mongo args' = c_str arg @ CHR 0x00 # replicate k (CHR 0x00)"
      using False by (simp add: m string_resize_def)
    then show ?thesis using False c_str_no_nul [of arg] by (simp add: c_str_append) (simp add: c_str_def)
  qed
qed

definition raw_monitor_args :: anonymbe_args where
  "raw_monitor_args = \<lparr>aa_port = 0, aa_indexed = True, aa_mongo = replicate 1024 (CHR 0x00)\<rparr>"

lemma mongo_argument_termination_example:
  "\<exists>args'. anonymbe_parse_opt (CHR ''m'') (replicate 1024 (CHR ''m'')) raw_monitor_args = Inr (Opt_Ok, args') \<and>
     CHR 0x00 \<notin> set (aa_mongo args')"
proof -
  obtain args' where p: "anonymbe_parse_opt (CHR ''m'') (replicate 1024 (CHR ''m'')) raw_monitor_args = Inr (Opt_Ok, args')"
    by (simp add: anonymbe_parse_opt_def)
  have "c_str (replicate 1024 (CHR ''m'')) = replicate 1024 (CHR ''m'')" by (simp add: c_str_def)
  then show ?thesis
    using mongo_argument_termination [OF _ p] p by (simp add: raw_monitor_args_def mongo_size_def)
qed

lemma htons_htons [simp]: "htons (htons p) = p"
  unfolding htons_def by (rule bit_word_eqI) (auto simp: bit_simps)

lemma start_loop_address:
  assumes "start_loop K sv = Runs sv'"
  shows "el_localserver (sv_loop sv') = el_localserver (sv_loop sv) \<and> el_listendpoint (sv_loop sv') = el_listendpoint (sv_loop sv)"
  using assms by (auto simp: start_loop_def create_epoll_def Let_def case_prod_beta split: process.splits if_splits)

text \<open>The port. The server listens on the number that \<open>stoi\<close> reads from the option,
  modulo 65536, without a check that it is a port; an option that is not a number, or not
  one of 32 bits, ends in an exception.\<close>

lemma listening_port_wraps:
  assumes "anonymbe_parse_opt (CHR ''p'') arg args = Inr (r, args')"
    and "server_main native fails init K (aa_port args') en k = Runs (Inr sv)"
  shows "\<exists>n. stoi arg = Inr n \<and> uint (htons (sin_port (el_localserver (sv_loop sv)))) = n mod 65536 \<and>
     el_listendpoint (sv_loop sv) = ''*:'' @ to_string_nat (nat (n mod 65536))"
proof -
  obtain n where n: "stoi arg = Inr n" "aa_port args' = word_of_int n"
    using assms(1) by (auto simp: anonymbe_parse_opt_def split: sum.splits)
  obtain sv0 where "start_loop K sv0 = Runs sv" "sv_loop sv0 = set_listener K ''*'' (ucast (aa_port args')) event_loop_new"
    using assms(2) by (fastforce simp: server_main_def split: if_splits process.splits prod.splits sum.splits)
  moreover have "uint (ucast (word_of_int n :: 64 word) :: 16 word) = n mod 65536"
    by (simp add: unsigned_ucast_eq uint_word_of_int take_bit_eq_mod mod_mod_cancel)
  ultimately show ?thesis
    using start_loop_address [of K sv0 sv] n
    by (simp add: set_listener_def unat_eq_nat_uint)
qed

lemma port_70000_wraps:
  "\<exists>sv. server_main True False (\<lambda>en. Runs (Inr 0, en)) sample_kernel 70000 (sample_enclave []) 0 = Runs (Inr sv) \<and>
     el_listendpoint (sv_loop sv) = ''*:4464''"
proof -
  have s: "stoi ''70000'' = Inr 70000"
    by (simp add: stoi_def c_str_def is_space_def is_digit_char_def digits_value_def)
  have p: "anonymbe_parse_opt (CHR ''p'') ''70000'' raw_monitor_args = Inr (Opt_Ok, raw_monitor_args\<lparr>aa_port := 70000\<rparr>)"
    by (simp add: anonymbe_parse_opt_def s)
  obtain sv where sv: "server_main True False (\<lambda>en. Runs (Inr 0, en)) sample_kernel 70000 (sample_enclave []) 0 = Runs (Inr sv)"
    by (simp add: server_main_def start_loop_def create_epoll_def bind_n_listen_def addto_epoll_def sample_kernel_def
        set_listener_def event_loop_new_def EPOLLIN_def EPOLLET_def)
  have "to_string_nat 4464 = ''4464''" by (simp add: to_string_nat.simps digit_char_def) code_simp
  then show ?thesis
    using listening_port_wraps [OF p, of True False "\<lambda>en. Runs (Inr 0, en)" sample_kernel "sample_enclave []" 0 sv] sv s
    by simp
qed

end
