(* ===== verification/Writer_Proxy.thy ===== *)
theory Writer_Proxy
  imports Cmd_Args
begin

text \<open>
  The writer proxy (\<open>writerproxy_service.cpp\<close>, \<open>writerproxy_service.h\<close>,
  \<open>ecalls_writeproxy.cpp\<close>): it forwards uploads to the object store and hands out
  temporary credentials. The HTTP classes, the object store client, the TLS client
  connections and the URL functions are not in the repository; they are the record
  \<open>proxy_env\<close>. Two loops of the code need not end, the retry of \<open>forward\<close> and the
  loop of \<open>request_reply\<close>: they are partial functions, with \<open>None\<close> for a call that
  does not return.
\<close>

section \<open>Integers of JSON values\<close>

text \<open>A double converted to an \<open>int\<close>: truncated towards zero; outside the range of
  \<open>int\<close> the language leaves the result open, \<open>wild\<close> is what the machine gives.\<close>

fun double_to_int :: "(double \<Rightarrow> 32 word) \<Rightarrow> double \<Rightarrow> 32 word" where
  "double_to_int wild (Dbl neg m e) =
     (let n = (if 0 \<le> e then int m * 2 ^ nat e else int (m div 2 ^ nat (- e)));
          v = (if neg then - n else n)
      in if - (2 ^ 31) \<le> v \<and> v < 2 ^ 31 then word_of_int v else wild (Dbl neg m e))"
| "double_to_int wild (Dbl_Inf neg) = wild (Dbl_Inf neg)"

text \<open>\<open>from_json\<close> for \<open>int\<close>: the conversion keeps the low 32 bits of an integer.\<close>

fun json_get_int :: "(double \<Rightarrow> 32 word) \<Rightarrow> json \<Rightarrow> int result" where
  "json_get_int wild (Json_Unsigned w) = Inr (sint (ucast w :: 32 word))"
| "json_get_int wild (Json_Integer w) = Inr (sint (ucast w :: 32 word))"
| "json_get_int wild (Json_Float x) = Inr (sint (double_to_int wild x))"
| "json_get_int wild (Json_Boolean b) = Inr (if b then 1 else 0)"
| "json_get_int wild j = Inl (type_error_create 302 (''type must be number, but is '' @ type_name j))"

definition json_int :: "(double \<Rightarrow> 32 word) \<Rightarrow> json \<Rightarrow> string \<Rightarrow> int result" where
  "json_int wild j field = (case json_at j field of Inl e \<Rightarrow> Inl e | Inr v \<Rightarrow> json_get_int wild v)"

section \<open>Environment and state\<close>

record http_url =
  hu_host :: string
  hu_port :: int

text \<open>A request that the proxy builds: method, URL, protocol, headers and body.\<close>

record out_request =
  or_method :: string
  or_url :: string
  or_protocol :: string
  or_headers :: "(string \<times> string) list"
  or_body :: string

datatype minio_exn = No_Such_Bucket | Error_Response | Minio_Std_Exception string

text \<open>The code outside the repository: URLs, the texts of requests, \<open>split\<close>, Base64, the
  object store over a state \<open>'m\<close>, the network over a state \<open>'t\<close> and the decoder of
  responses over a state \<open>'r\<close>.\<close>

record ('m, 't, 'r) proxy_env =
  pe_default_url :: http_url
  pe_parse_url :: "string \<Rightarrow> http_url"
  pe_query_url :: "http_url \<Rightarrow> (string \<times> string) list \<Rightarrow> string"
  pe_request_text :: "out_request \<Rightarrow> string"
  pe_split :: "string \<Rightarrow> string \<Rightarrow> string list"
  pe_base64 :: "string \<Rightarrow> string"
  pe_client_new :: "string \<Rightarrow> string \<Rightarrow> string \<Rightarrow> bool"
  pe_forward_object :: "request \<Rightarrow> 'm \<Rightarrow> minio_exn option \<times> 'm"
  pe_make_bucket :: "string \<Rightarrow> 'm \<Rightarrow> bool \<times> 'm"
  pe_connect :: "string \<Rightarrow> int \<Rightarrow> 't \<Rightarrow> bool \<times> 't"
  pe_send :: "string \<Rightarrow> 't \<Rightarrow> int \<times> 't"
  pe_recv :: "nat \<Rightarrow> 't \<Rightarrow> (int \<times> string) \<times> 't"
  pe_decoder_new :: 'r
  pe_add_chunk :: "string \<Rightarrow> 'r \<Rightarrow> 'r result"
  pe_get_response :: "'r \<Rightarrow> response option"
  pe_successful :: "response \<Rightarrow> bool"
  pe_wild_int :: "double \<Rightarrow> 32 word"

record ('m, 't) writer_proxy =
  wp_tuser :: string
  wp_tpass :: string
  wp_isendpoint :: http_url
  wp_minioendpoint :: http_url
  wp_amendpoint :: http_url
  wp_minioclient :: bool
  wp_builder :: response
  wp_minio :: 'm
  wp_net :: 't

definition proxy_new :: "('m, 't, 'r) proxy_env \<Rightarrow> 'm \<Rightarrow> 't \<Rightarrow> ('m, 't) writer_proxy" where
  "proxy_new E mn net =
     \<lparr>wp_tuser = [], wp_tpass = [], wp_isendpoint = pe_default_url E, wp_minioendpoint = pe_default_url E,
      wp_amendpoint = pe_default_url E, wp_minioclient = False,
      wp_builder = \<lparr>rs_protocol = [], rs_code = 0, rs_message = [], rs_headers = [], rs_body = []\<rparr>,
      wp_minio = mn, wp_net = net\<rparr>"

section \<open>init\<close>

definition starts_with_http :: "string \<Rightarrow> bool" where
  "starts_with_http s \<longleftrightarrow> take 4 s = ''http''"

text \<open>The end of \<open>init\<close>, once the endpoints are accepted: TLS, the common part of all
  responses, the object store client.\<close>

definition proxy_init_services ::
  "('m, 't, 'r) proxy_env \<Rightarrow> http_strings \<Rightarrow> bool \<Rightarrow> writeproxy_args \<Rightarrow> ('m, 't) writer_proxy \<Rightarrow> ('n, 'd) tls \<Rightarrow>
     (int \<times> ('m, 't) writer_proxy \<times> ('n, 'd) tls) process" where
  "proxy_init_services E H context_made args p w =
     (case tls_init context_made w of
        Exits n \<Rightarrow> Exits n
      | Runs w1 \<Rightarrow>
          let p1 = p\<lparr>wp_builder := (wp_builder p)\<lparr>rs_protocol := hs_http11 H,
                       rs_headers := [(hs_connection H, hs_keepalive H), (''Server'', ''A-SKY WriterProxy'')]\<rparr>,
                     wp_minioendpoint := pe_parse_url E (''https://'' @ c_str (wa_minioendpoint args))\<rparr>
          in if pe_client_new E (''https://'' @ c_str (wa_minioendpoint args)) (c_str (wa_minioaccesskey args))
               (c_str (wa_miniosecret args))
             then Runs (0, p1\<lparr>wp_minioclient := True\<rparr>, w1) else Exits 2)"

definition proxy_init ::
  "('m, 't, 'r) proxy_env \<Rightarrow> http_strings \<Rightarrow> bool \<Rightarrow> writeproxy_args \<Rightarrow> ('m, 't) writer_proxy \<Rightarrow> ('n, 'd) tls \<Rightarrow>
     (int \<times> ('m, 't) writer_proxy \<times> ('n, 'd) tls) process" where
  "proxy_init E H context_made args p w =
     (if c_str (wa_minioendpoint args) = [] \<or> c_str (wa_minioaccesskey args) = [] \<or> c_str (wa_miniosecret args) = []
      then Runs (- 1, p, w)
      else
        let p1 = p\<lparr>wp_tuser := c_str (wa_tokenuser args), wp_tpass := c_str (wa_tokenpass args)\<rparr>;
            token = c_str (wa_tokenendpoint args); am = c_str (wa_amendpoint args)
        in if starts_with_http (c_str (wa_minioendpoint args)) \<or> starts_with_http am \<or> starts_with_http token
           then Runs (- 2, p1, w)
           else if (token = []) \<noteq> (wp_tuser p1 = []) \<or> (token = []) \<noteq> (wp_tpass p1 = [])
           then Runs (- 3, p1, w)
           else
             let p2 = (if token \<noteq> [] then p1\<lparr>wp_isendpoint := pe_parse_url E (''https://'' @ token)\<rparr> else p1)
             in if am \<noteq> [] then
                  let p3 = p2\<lparr>wp_amendpoint := pe_parse_url E (''https://'' @ am)\<rparr>;
                      (ok, net) = pe_connect E (hu_host (wp_amendpoint p3)) (hu_port (wp_amendpoint p3)) (wp_net p3)
                  in if ok then proxy_init_services E H context_made args (p3\<lparr>wp_net := net\<rparr>) w else Exits 1
                else proxy_init_services E H context_made args p2 w)"

text \<open>\<open>ecall_init\<close> of the writer proxy's enclave terminates the arrays first.\<close>

definition proxy_ecall_init ::
  "('m, 't, 'r) proxy_env \<Rightarrow> http_strings \<Rightarrow> bool \<Rightarrow> writeproxy_args \<Rightarrow> (('m, 't) writer_proxy, 'n, 'd) enclave \<Rightarrow>
     (int \<times> (('m, 't) writer_proxy, 'n, 'd) enclave) process" where
  "proxy_ecall_init E H context_made args en =
     (case proxy_init E H context_made (terminate_args args) (en_service en) (en_tls en) of
        Exits n \<Rightarrow> Exits n
      | Runs (r, p, w) \<Rightarrow> Runs (r, en\<lparr>en_service := p, en_tls := w\<rparr>))"

definition proxy_finish :: "(('m, 't) writer_proxy, 'n, 'd) enclave \<Rightarrow> (('m, 't) writer_proxy, 'n, 'd) enclave" where
  "proxy_finish en = en\<lparr>en_service := (en_service en)\<lparr>wp_minioclient := False\<rparr>, en_tls := tls_finish (en_tls en)\<rparr>"

section \<open>Requests\<close>

text \<open>\<open>response_builder.code(c).message(m)\<close> changes the builder that all requests share; its
  \<open>build()\<close> is what it then holds.\<close>

definition set_status :: "nat \<Rightarrow> string \<Rightarrow> ('m, 't) writer_proxy \<Rightarrow> ('m, 't) writer_proxy" where
  "set_status code message p = p\<lparr>wp_builder := (wp_builder p)\<lparr>rs_code := code, rs_message := message\<rparr>\<rparr>"

definition answered :: "nat \<Rightarrow> string \<Rightarrow> ('m, 't) writer_proxy \<Rightarrow> response \<times> ('m, 't) writer_proxy" where
  "answered code message p = (let p1 = set_status code message p in (wp_builder p1, p1))"

text \<open>\<open>check_user\<close> pings the access monitor if there is one, ignores what comes back and
  returns true.\<close>

definition check_user :: "('m, 't, 'r) proxy_env \<Rightarrow> http_strings \<Rightarrow> ('m, 't) writer_proxy \<Rightarrow> bool \<times> ('m, 't) writer_proxy" where
  "check_user E H p =
     (if 0 < hu_port (wp_amendpoint p) then
        let ping = pe_request_text E \<lparr>or_method = ''GET'', or_url = ''http://0:0/ping'', or_protocol = hs_http11 H,
              or_headers = [(''Host'', hu_host (wp_amendpoint p) @ '':'' @ to_string_int (hu_port (wp_amendpoint p)))],
              or_body = []\<rparr>;
            (sent, net1) = pe_send E ping (wp_net p);
            (received, net2) = pe_recv E 500 net1
        in (True, p\<lparr>wp_net := net2\<rparr>)
      else (True, p))"

definition make_bucket :: "('m, 't, 'r) proxy_env \<Rightarrow> request \<Rightarrow> ('m, 't) writer_proxy \<Rightarrow> bool \<times> ('m, 't) writer_proxy" where
  "make_bucket E rq p =
     (let pieces = pe_split E (rq_path rq) ''/'';
          bucket = (if pieces \<noteq> [] then hd pieces else [])
      in if bucket = [] then (False, p)
         else let (made, mn) = pe_make_bucket E bucket (wp_minio p) in (made, p\<lparr>wp_minio := mn\<rparr>))"

text \<open>The answers of \<open>forward\<close> to an exception that leads to no second attempt.\<close>

definition forward_failed :: "minio_exn \<Rightarrow> ('m, 't) writer_proxy \<Rightarrow> response \<times> ('m, 't) writer_proxy" where
  "forward_failed x p =
     (case x of
        Minio_Std_Exception w \<Rightarrow> if w = ''No response'' then answered 444 w p else answered 200 ''OK'' p
      | _ \<Rightarrow> answered 409 ''Conflict'' p)"

text \<open>\<open>forward\<close>: what the recursive call returns is dropped, and the status 200 follows.\<close>

partial_function (option) forward ::
  "('m, 't, 'r) proxy_env \<Rightarrow> http_strings \<Rightarrow> request \<Rightarrow> ('m, 't) writer_proxy \<Rightarrow> (response \<times> ('m, 't) writer_proxy) option" where
  "forward E H rq p =
     (let (ok, p1) = check_user E H p
      in if \<not> ok then Some (answered 401 ''Unauthorized'' p1)
         else
           let (x, mn) = pe_forward_object E rq (wp_minio p1); p2 = p1\<lparr>wp_minio := mn\<rparr>
           in if x = None then Some (answered 200 ''OK'' p2)
              else if x = Some No_Such_Bucket then
                let (made, p3) = make_bucket E rq p2
                in if made then Option.bind (forward E H rq p3) (\<lambda>(r, p4). Some (answered 200 ''OK'' p4))
                   else Some (answered 409 ''Conflict'' p3)
              else Some (forward_failed (the x) p2))"

text \<open>The loop of \<open>request_reply\<close> over the chunks of a response.\<close>

datatype reply_end = Reply response | Broken | Thrown exn

partial_function (option) reply_loop :: "('m, 't, 'r) proxy_env \<Rightarrow> 'r \<Rightarrow> 't \<Rightarrow> (reply_end \<times> 't) option" where
  "reply_loop E d net =
     (case pe_recv E 5000 net of
        ((len, buff), net1) \<Rightarrow>
          if len < 0 then Some (Broken, net1)
          else
            case pe_add_chunk E (take (nat len) buff) d of
              Inl e \<Rightarrow> Some (Thrown e, net1)
            | Inr d1 \<Rightarrow>
                (case pe_get_response E d1 of
                   Some r \<Rightarrow> Some (Reply r, net1)
                 | None \<Rightarrow> reply_loop E d1 net1))"

text \<open>\<open>request_reply\<close> throws a response, or an exception of the decoder, or returns the body
  of a successful response and the empty string for any other.\<close>

datatype reply_result = Throws_Response response | Throws_Exn exn | Returns string

definition request_reply ::
  "('m, 't, 'r) proxy_env \<Rightarrow> http_url \<Rightarrow> out_request \<Rightarrow> ('m, 't) writer_proxy \<Rightarrow>
     (reply_result \<times> ('m, 't) writer_proxy) option" where
  "request_reply E endpoint rq p =
     (if hu_port endpoint = - 1 then
        (let (r, p1) = answered 405 ''Method Not Allowed'' p in Some (Throws_Response r, p1))
      else
        let (error, p1) = answered 504 ''Gateway Timeout'' p;
            (ok, net1) = pe_connect E (hu_host endpoint) (hu_port endpoint) (wp_net p1);
            p2 = p1\<lparr>wp_net := net1\<rparr>
        in if \<not> ok then Some (Throws_Response error, p2)
           else
             let (n, net2) = pe_send E (pe_request_text E rq) net1; p3 = p2\<lparr>wp_net := net2\<rparr>
             in if n \<le> 0 then Some (Throws_Response error, p3)
                else
                  map_option (\<lambda>(x, net3).
                      (case x of
                         Broken \<Rightarrow> Throws_Response error
                       | Thrown e \<Rightarrow> Throws_Exn e
                       | Reply r \<Rightarrow> Returns (if pe_successful E r then rs_body r else []),
                       p3\<lparr>wp_net := net3\<rparr>))
                    (reply_loop E (pe_decoder_new E) net2))"

text \<open>The two requests of \<open>generate_token\<close>.\<close>

definition token_request :: "('m, 't, 'r) proxy_env \<Rightarrow> http_strings \<Rightarrow> ('m, 't) writer_proxy \<Rightarrow> out_request" where
  "token_request E H p =
     \<lparr>or_method = ''POST'', or_url = ''http://0:0/oauth2/token'', or_protocol = hs_http11 H,
      or_headers = [(''Host'', hu_host (wp_isendpoint p) @ '':'' @ to_string_int (hu_port (wp_isendpoint p))),
        (hs_auth H, ''Basic '' @ pe_base64 E (wp_tuser p @ '':'' @ wp_tpass p)),
        (hs_contenttype H, ''application/x-www-form-urlencoded'')],
      or_body = ''grant_type=client_credentials''\<rparr>"

definition credentials_request ::
  "('m, 't, 'r) proxy_env \<Rightarrow> http_strings \<Rightarrow> int \<Rightarrow> string \<Rightarrow> ('m, 't) writer_proxy \<Rightarrow> out_request" where
  "credentials_request E H expires token p =
     \<lparr>or_method = ''POST'',
      or_url = pe_query_url E (wp_minioendpoint p)
        [(''Action'', ''AssumeRoleWithClientGrants''), (''DurationSeconds'', to_string_int expires), (''Token'', token)],
      or_protocol = hs_http11 H,
      or_headers = [(''Host'', hu_host (wp_minioendpoint p) @ '':'' @ to_string_int (hu_port (wp_minioendpoint p)))],
      or_body = []\<rparr>"

text \<open>The second half of \<open>generate_token\<close>: from the answer of the identity server to the
  credentials.\<close>

definition fetch_credentials ::
  "('m, 't, 'r) proxy_env \<Rightarrow> http_strings \<Rightarrow> char \<Rightarrow> string \<Rightarrow> ('m, 't) writer_proxy \<Rightarrow>
     (response result \<times> ('m, 't) writer_proxy) option" where
  "fetch_credentials E H point access_token p =
     (case json_parse point access_token of
        Inl e \<Rightarrow> Some (Inl e, p)
      | Inr j \<Rightarrow>
     (case json_int (pe_wild_int E) j ''expires_in'' of
        Inl e \<Rightarrow> Some (Inl e, p)
      | Inr expires \<Rightarrow>
     (case json_str j ''access_token'' of
        Inl e \<Rightarrow> Some (Inl e, p)
      | Inr token \<Rightarrow>
          map_option (\<lambda>(x, p1).
              case x of
                Throws_Response r \<Rightarrow> (Inr (append_body (''Error communicating with minio'' @ nl) r), p1)
              | Throws_Exn e \<Rightarrow> (Inl e, p1)
              | Returns credentials \<Rightarrow>
                  (Inr (append_body credentials ((wp_builder p1)\<lparr>rs_code := 200, rs_message := ''OK''\<rparr>)), p1))
            (request_reply E (wp_minioendpoint p) (credentials_request E H expires token p) p))))"

definition generate_token ::
  "('m, 't, 'r) proxy_env \<Rightarrow> http_strings \<Rightarrow> char \<Rightarrow> ('m, 't) writer_proxy \<Rightarrow>
     (response result \<times> ('m, 't) writer_proxy) option" where
  "generate_token E H point p =
     (case check_user E H p of
        (False, p1) \<Rightarrow> Some (let (r, p2) = answered 401 ''Unauthorized'' p1 in (Inr r, p2))
      | (True, p1) \<Rightarrow>
          Option.bind (request_reply E (wp_isendpoint p1) (token_request E H p1) p1) (\<lambda>(x, p2).
            case x of
              Throws_Response r \<Rightarrow>
                Some (Inr (append_body (''Error communicating with Identity Server'' @ nl) r), p2)
            | Throws_Exn e \<Rightarrow> Some (Inl e, p2)
            | Returns access_token \<Rightarrow> fetch_credentials E H point access_token p2))"

definition treat_request ::
  "('m, 't, 'r) proxy_env \<Rightarrow> http_strings \<Rightarrow> char \<Rightarrow> request \<Rightarrow> ('m, 't) writer_proxy \<Rightarrow>
     (response result \<times> ('m, 't) writer_proxy) option" where
  "treat_request E H point rq p =
     (if rq_method rq = ''GET'' \<and> rq_path rq = ''/ping'' then
        Some (let (r, p1) = answered 200 ''OK'' p in (Inr r, p1))
      else if rq_method rq = ''GET'' \<and> rq_path rq = ''/token'' then generate_token E H point p
      else if rq_method rq = ''PUT'' then map_option (\<lambda>(r, p1). (Inr r, p1)) (forward E H rq p)
      else Some (let (r, p1) = answered 400 ''Bad Request'' p in (Inr r, p1)))"

text \<open>The responder of the writer proxy's enclave.\<close>

definition proxy_responder ::
  "('m, 't, 'r) proxy_env \<Rightarrow> http_strings \<Rightarrow> char \<Rightarrow> (response \<Rightarrow> string) \<Rightarrow> ('m, 't) writer_proxy responder" where
  "proxy_responder E H point to_text rq p = map_option (map_prod (map_sum id to_text) id) (treat_request E H point rq p)"

section \<open>Lemmas\<close>

lemma check_user_true:
  "fst (check_user E H p)" "wp_builder (snd (check_user E H p)) = wp_builder p"
  "wp_minio (snd (check_user E H p)) = wp_minio p"
  by (simp_all add: check_user_def case_prod_beta Let_def)

text \<open>What all responses share: the protocol, the headers, and a builder without a body.\<close>

definition same_frame :: "response \<Rightarrow> response \<Rightarrow> bool" where
  "same_frame b b' \<longleftrightarrow> rs_protocol b' = rs_protocol b \<and> rs_headers b' = rs_headers b \<and> rs_body b' = rs_body b"

definition proper :: "nat set \<Rightarrow> response \<Rightarrow> response \<Rightarrow> bool" where
  "proper codes b r \<longleftrightarrow> rs_protocol r = rs_protocol b \<and> rs_headers r = rs_headers b \<and> rs_code r \<in> codes"

lemma same_frame_refl [simp]: "same_frame b b"
  by (simp add: same_frame_def)

lemma same_frame_trans: "same_frame a b \<Longrightarrow> same_frame b c \<Longrightarrow> same_frame a c"
  by (simp add: same_frame_def)

lemma proper_frame: "same_frame a b \<Longrightarrow> proper S b r \<Longrightarrow> proper S a r"
  by (simp add: same_frame_def proper_def)

lemma proper_mono: "proper S b r \<Longrightarrow> S \<subseteq> T \<Longrightarrow> proper T b r"
  by (auto simp: proper_def)

lemma answered_frame:
  "same_frame (wp_builder p) (wp_builder (snd (answered c m p)))" "proper {c} (wp_builder p) (fst (answered c m p))"
  "rs_code (fst (answered c m p)) = c" "rs_body (fst (answered c m p)) = rs_body (wp_builder p)"
  "wp_net (snd (answered c m p)) = wp_net p" "wp_minio (snd (answered c m p)) = wp_minio p"
  "wp_minioendpoint (snd (answered c m p)) = wp_minioendpoint p"
  by (simp_all add: answered_def set_status_def same_frame_def proper_def Let_def)

definition forward_ok :: "('m, 't) writer_proxy \<Rightarrow> response \<times> ('m, 't) writer_proxy \<Rightarrow> bool" where
  "forward_ok p y \<longleftrightarrow> same_frame (wp_builder p) (wp_builder (snd y)) \<and> proper {200, 409, 444} (wp_builder p) (fst y)"

lemma answered_ok: "c \<in> {200, 409, 444} \<Longrightarrow> wp_builder p' = wp_builder p \<Longrightarrow> forward_ok p (answered c m p')"
  using answered_frame(1,2) [where p = p' and c = c and m = m] by (auto simp: forward_ok_def proper_def)

lemma forward_ok_cong: "wp_builder p' = wp_builder p \<Longrightarrow> forward_ok p' y \<longleftrightarrow> forward_ok p y"
  by (simp add: forward_ok_def)

lemma forward_failed_ok: "wp_builder p' = wp_builder p \<Longrightarrow> forward_ok p (forward_failed x p')"
  unfolding forward_failed_def by (cases x) (simp_all add: answered_ok)

lemma make_bucket_builder: "wp_builder (snd (make_bucket E rq p)) = wp_builder p"
  by (simp add: make_bucket_def case_prod_beta Let_def)

lemma forward_step:
  "forward E H rq p =
     (let p1 = snd (check_user E H p); (x, mn) = pe_forward_object E rq (wp_minio p); p2 = p1\<lparr>wp_minio := mn\<rparr>
      in if x = None then Some (answered 200 ''OK'' p2)
         else if x = Some No_Such_Bucket then
           let (made, p3) = make_bucket E rq p2
           in if made then Option.bind (forward E H rq p3) (\<lambda>(r, p4). Some (answered 200 ''OK'' p4))
              else Some (answered 409 ''Conflict'' p3)
         else Some (forward_failed (the x) p2))"
  by (subst forward.simps) (simp add: check_user_true case_prod_beta Let_def)

lemma forward_shape:
  assumes "forward E H rq p = Some y"
  shows "forward_ok p y"
proof (rule forward.raw_induct [where P = "\<lambda>E H rq p y. forward_ok p y", OF _ assms], goal_cases)
  case (1 fw E H rq p y)
  obtain x mn where f: "pe_forward_object E rq (wp_minio p) = (x, mn)" by fastforce
  let ?p2 = "(snd (check_user E H p))\<lparr>wp_minio := mn\<rparr>"
  have b2: "wp_builder ?p2 = wp_builder p" by (simp add: check_user_true)
  obtain made p3 where m: "make_bucket E rq ?p2 = (made, p3)" by fastforce
  have b3: "wp_builder p3 = wp_builder p" using make_bucket_builder [of E rq ?p2] m b2 by simp
  have body: "(if x = None then Some (answered 200 ''OK'' ?p2)
      else if x = Some No_Such_Bucket then
        if made then Option.bind (fw E H rq p3) (\<lambda>(r, p4). Some (answered 200 ''OK'' p4))
        else Some (answered 409 ''Conflict'' p3)
      else Some (forward_failed (the x) ?p2)) = Some y"
    using 1(2) f m by (simp add: check_user_true case_prod_beta Let_def cong: if_cong)
  show ?case
  proof (cases "x = Some No_Such_Bucket \<and> made")
    case True
    then obtain r p4 where r: "fw E H rq p3 = Some (r, p4)" and y: "y = answered 200 ''OK'' p4"
      using body by (auto simp: bind_eq_Some_conv)
    have "forward_ok p (r, p4)" using 1(1) [OF r] forward_ok_cong [OF b3] by simp
    then have fr: "same_frame (wp_builder p) (wp_builder p4)" by (simp add: forward_ok_def)
    have "proper {200, 409, 444} (wp_builder p4) (fst y)"
      unfolding y by (rule proper_mono [OF answered_frame(2)]) simp
    then show ?thesis
      using fr same_frame_trans [OF fr answered_frame(1)] proper_frame [OF fr] unfolding forward_ok_def y by simp
  next
    case False
    then show ?thesis
      using body b2 b3 answered_ok [of 200 ?p2 p] answered_ok [of 409 p3 p] forward_failed_ok [of ?p2 p]
      by (auto split: if_splits)
  qed
qed

text \<open>Every exchange with a server leaves a proper builder, and throws only responses 405 and
  504.\<close>

lemma request_reply_shape:
  assumes "request_reply E u rq p = Some (x, p')"
  shows "same_frame (wp_builder p) (wp_builder p')" "wp_minioendpoint p' = wp_minioendpoint p"
    "\<And>r. x = Throws_Response r \<Longrightarrow> proper {405, 504} (wp_builder p) r"
proof -
  have "same_frame (wp_builder p) (wp_builder p') \<and> wp_minioendpoint p' = wp_minioendpoint p \<and>
      (\<forall>r. x = Throws_Response r \<longrightarrow> proper {405, 504} (wp_builder p) r)"
  proof (cases "hu_port u = - 1")
    case True
    then show ?thesis
      using assms answered_frame(1,2,7) [where p = p and c = 405 and m = "''Method Not Allowed''"]
      by (auto simp: request_reply_def case_prod_beta elim: proper_mono)
  next
    case False
    note fr = answered_frame(1,2,7) [where p = p and c = 504 and m = "''Gateway Timeout''"]
    let ?a = "answered 504 ''Gateway Timeout'' p"
    obtain ok net1 where c: "pe_connect E (hu_host u) (hu_port u) (wp_net (snd ?a)) = (ok, net1)" by fastforce
    obtain n net2 where n: "pe_send E (pe_request_text E rq) net1 = (n, net2)" by fastforce
    have "(\<exists>net. p' = (snd ?a)\<lparr>wp_net := net\<rparr>) \<and> (\<forall>r. x = Throws_Response r \<longrightarrow> r = fst ?a)"
    proof (cases "ok \<and> 0 < n")
      case True
      then obtain z net3 where "reply_loop E (pe_decoder_new E) net2 = Some (z, net3)"
        using assms False c n by (auto simp: request_reply_def case_prod_beta Let_def)
      then show ?thesis
        using assms False c n True by (cases z) (auto simp: request_reply_def case_prod_beta Let_def)
    next
      case no: False
      then show ?thesis
        using assms False c n by (auto simp: request_reply_def case_prod_beta Let_def split: if_splits)
    qed
    then show ?thesis using fr by (auto elim: proper_mono)
  qed
  then show "same_frame (wp_builder p) (wp_builder p')" "wp_minioendpoint p' = wp_minioendpoint p"
    "\<And>r. x = Throws_Response r \<Longrightarrow> proper {405, 504} (wp_builder p) r" by auto
qed

definition proxy_codes :: "nat set" where
  "proxy_codes = {200, 400, 405, 409, 444, 504}"

definition token_ok :: "('m, 't) writer_proxy \<Rightarrow> response result \<times> ('m, 't) writer_proxy \<Rightarrow> bool" where
  "token_ok p y \<longleftrightarrow> same_frame (wp_builder p) (wp_builder (snd y)) \<and>
     (\<forall>r. fst y = Inr r \<longrightarrow> proper {200, 405, 504} (wp_builder p) r)"

lemma proper_append [simp]: "proper S b (append_body t r) = proper S b r"
  by (simp add: proper_def append_body_def)

lemma proper_sub: "proper {405, 504} b r \<Longrightarrow> proper {200, 405, 504} b r"
  by (erule proper_mono) simp

lemma token_ok_frame: "same_frame (wp_builder p) (wp_builder p1) \<Longrightarrow> token_ok p1 y \<Longrightarrow> token_ok p y"
  unfolding token_ok_def using same_frame_trans proper_frame by blast

lemma fetch_credentials_shape:
  assumes "fetch_credentials E H point t p = Some y"
  shows "token_ok p y"
proof -
  consider (thrown) e where "y = (Inl e, p)"
    | (asked) u x p1 where "request_reply E (wp_minioendpoint p) u p = Some (x, p1)"
        "y = (case x of
                Throws_Response r \<Rightarrow> (Inr (append_body (''Error communicating with minio'' @ nl) r), p1)
              | Throws_Exn e \<Rightarrow> (Inl e, p1)
              | Returns credentials \<Rightarrow>
                  (Inr (append_body credentials ((wp_builder p1)\<lparr>rs_code := 200, rs_message := ''OK''\<rparr>)), p1))"
    using assms unfolding fetch_credentials_def by (auto split: sum.splits)
  then show ?thesis
  proof cases
    case thrown
    then show ?thesis by (simp add: token_ok_def)
  next
    case asked
    then show ?thesis
      using request_reply_shape [OF asked(1)]
      by (cases x) (auto simp: token_ok_def proper_sub, simp add: proper_def same_frame_def)
  qed
qed

lemma generate_token_shape:
  assumes "generate_token E H point p = Some y"
  shows "token_ok p y"
proof -
  let ?p1 = "snd (check_user E H p)"
  have fr1: "same_frame (wp_builder p) (wp_builder ?p1)" by (simp add: check_user_true)
  obtain x p2 where x: "request_reply E (wp_isendpoint ?p1) (token_request E H ?p1) ?p1 = Some (x, p2)"
    and y: "(case x of
              Throws_Response r \<Rightarrow>
                Some (Inr (append_body (''Error communicating with Identity Server'' @ nl) r), p2)
            | Throws_Exn e \<Rightarrow> Some (Inl e, p2)
            | Returns access_token \<Rightarrow> fetch_credentials E H point access_token p2) = Some y"
    using assms check_user_true(1) [of E H p]
    by (auto simp: generate_token_def bind_eq_Some_conv split: prod.splits bool.splits)
  note r = request_reply_shape [OF x]
  have "token_ok ?p1 y"
  proof (cases x)
    case (Returns t)
    then have "fetch_credentials E H point t p2 = Some y" using y by simp
    then show ?thesis by (intro token_ok_frame [OF r(1)] fetch_credentials_shape)
  qed (use y r in \<open>auto simp: token_ok_def proper_sub\<close>)
  then show ?thesis by (rule token_ok_frame [OF fr1])
qed

lemma treat_request_shape:
  assumes "treat_request E H point rq p = Some (Inr r, p')"
  shows "proper proxy_codes (wp_builder p) r \<and> same_frame (wp_builder p) (wp_builder p')"
proof -
  have a: "proper proxy_codes (wp_builder p) (fst (answered c m p))" if "c \<in> proxy_codes" for c m
    using that by (intro proper_mono [OF answered_frame(2)]) simp
  have "(r, p') = answered 200 ''OK'' p \<or> (r, p') = answered 400 ''Bad Request'' p \<or>
      generate_token E H point p = Some (Inr r, p') \<or> forward E H rq p = Some (r, p')"
    using assms by (auto simp: treat_request_def case_prod_beta Let_def split: if_splits)
  then consider (simple) c m where "c \<in> proxy_codes" "(r, p') = answered c m p"
    | (token) "generate_token E H point p = Some (Inr r, p')"
    | (put) "forward E H rq p = Some (r, p')"
    unfolding proxy_codes_def by blast
  then show ?thesis
  proof cases
    case (simple c m)
    then show ?thesis using a [of c m] answered_frame(1) [of p c m] by (metis fst_conv snd_conv)
  next
    case token
    then show ?thesis
      using generate_token_shape [OF token] by (auto simp: token_ok_def proxy_codes_def elim: proper_mono)
  next
    case put
    then show ?thesis
      using forward_shape [OF put] by (auto simp: forward_ok_def proxy_codes_def elim: proper_mono)
  qed
qed

section \<open>Loops that do not end\<close>

text \<open>An object store that always misses the bucket it has just been told to make.\<close>

lemma forward_never_returns:
  assumes "\<And>mn. fst (pe_forward_object E rq mn) = Some No_Such_Bucket" and "\<And>b mn. fst (pe_make_bucket E b mn)"
    and "pe_split E (rq_path rq) ''/'' = b # bs" and "b \<noteq> []"
  shows "forward E H rq p = None"
proof -
  have made: "fst (make_bucket E rq q)" for q
    using assms(2-4) by (simp add: make_bucket_def case_prod_beta Let_def)
  have "\<not> (E' = E \<and> H' = H \<and> rq' = rq)" if "forward E' H' rq' q = Some y" for E' H' rq' q y
  proof (rule forward.raw_induct [where P = "\<lambda>E' H' rq' q y. \<not> (E' = E \<and> H' = H \<and> rq' = rq)", OF _ that], goal_cases)
    case (1 fw E' H' rq' q y)
    show ?case
    proof
      assume e: "E' = E \<and> H' = H \<and> rq' = rq"
      then have "\<exists>q3 y'. fw E H rq q3 = Some y'"
        using 1(2) assms(1) made
        by (auto simp: check_user_true case_prod_beta Let_def bind_eq_Some_conv cong: if_cong)
      then show False using 1(1) by blast
    qed
  qed
  then show ?thesis by (metis not_Some_eq)
qed

text \<open>A peer that closes before its response is complete, so that every further read returns
  nothing.\<close>

lemma reply_loop_never_returns:
  assumes "\<And>k. pe_recv E k net = ((0, []), net)" and "pe_add_chunk E [] d = Inr d" and "pe_get_response E d = None"
  shows "reply_loop E d net = None"
proof -
  have "\<not> (E' = E \<and> d' = d \<and> net' = net)" if "reply_loop E' d' net' = Some y" for E' d' net' y
  proof (rule reply_loop.raw_induct [where P = "\<lambda>E' d' net' y. \<not> (E' = E \<and> d' = d \<and> net' = net)", OF _ that], goal_cases)
    case (1 rl E' d' net' y)
    then show ?case using 1(1) [of E d net y] assms by auto
  qed
  then show ?thesis by (metis not_Some_eq)
qed

section \<open>Properties\<close>


text \<open>An environment whose object store misses the bucket once, and then refuses the object.\<close>

definition sample_env :: "(nat, unit, unit) proxy_env" where
  "sample_env = \<lparr>pe_default_url = \<lparr>hu_host = [], hu_port = - 1\<rparr>, pe_parse_url = \<lambda>s. \<lparr>hu_host = s, hu_port = 443\<rparr>,
     pe_query_url = \<lambda>u q. hu_host u, pe_request_text = or_url, pe_split = \<lambda>s d. [s], pe_base64 = id,
     pe_client_new = \<lambda>a b c. True,
     pe_forward_object = \<lambda>rq n. (if n = 0 then Some No_Such_Bucket else Some Error_Response, n),
     pe_make_bucket = \<lambda>b n. (True, Suc n), pe_connect = \<lambda>h k t. (True, t), pe_send = \<lambda>s t. (1, t),
     pe_recv = \<lambda>k t. ((0, []), t), pe_decoder_new = (), pe_add_chunk = \<lambda>c d. Inr d, pe_get_response = \<lambda>d. None,
     pe_successful = \<lambda>r. True, pe_wild_int = \<lambda>d. 0\<rparr>"

definition upload :: request where
  "upload = \<lparr>rq_method = ''PUT'', rq_path = ''bucket'', rq_body = ''data''\<rparr>"

lemma sample_upload:
  "forward sample_env sample_http upload (proxy_new sample_env 0 ()) =
     Some (answered 200 ''OK'' (snd (answered 409 ''Conflict'' (proxy_new sample_env 1 ()))))"
proof -
  have p: "(proxy_new sample_env 0 ())\<lparr>wp_minio := 1\<rparr> = proxy_new sample_env 1 ()" by (simp add: proxy_new_def)
  have "forward sample_env sample_http upload (proxy_new sample_env 1 ()) =
      Some (answered 409 ''Conflict'' (proxy_new sample_env 1 ()))"
    by (subst forward_step) (simp add: sample_env_def check_user_def proxy_new_def forward_failed_def)
  then show ?thesis
    by (subst forward_step)
      (simp add: sample_env_def check_user_def proxy_new_def make_bucket_def upload_def case_prod_beta)
qed


text \<open>C38: a failed upload reported as a success. If the bucket is missing and can be made, the
  answer has status 200 whatever comes of the second attempt, because the result of the
  recursive call is dropped.\<close>

theorem retried_upload_always_ok:
  assumes "pe_forward_object E rq (wp_minio p) = (Some No_Such_Bucket, mn)"
    and "fst (make_bucket E rq ((snd (check_user E H p))\<lparr>wp_minio := mn\<rparr>))"
    and "forward E H rq p = Some (r, p')"
  shows "rs_code r = 200 \<and> rs_message r = ''OK''"
  using assms
  by (subst (asm) forward_step)
    (auto simp: case_prod_beta bind_eq_Some_conv answered_def set_status_def Let_def)

theorem retried_upload_always_ok_witness:
  "\<exists>r p'. forward sample_env sample_http upload (proxy_new sample_env 0 ()) = Some (r, p') \<and> rs_code r = 200 \<and>
     fst (pe_forward_object sample_env upload (wp_minio p')) = Some Error_Response"
proof -
  let ?a = "answered 200 ''OK'' (snd (answered 409 ''Conflict'' (proxy_new sample_env 1 ())))"
  have "pe_forward_object sample_env upload (wp_minio (proxy_new sample_env 0 ())) = (Some No_Such_Bucket, 0)"
    "fst (make_bucket sample_env upload ((snd (check_user sample_env sample_http (proxy_new sample_env 0 ())))\<lparr>wp_minio := 0\<rparr>))"
    by (simp_all add: sample_env_def proxy_new_def check_user_def make_bucket_def upload_def)
  from retried_upload_always_ok [OF this, of "fst ?a" "snd ?a"] have "rs_code (fst ?a) = 200"
    using sample_upload by simp
  moreover have "wp_minio (snd ?a) = 1" by (simp add: answered_def set_status_def proxy_new_def)
  ultimately show ?thesis
    using sample_upload by (intro exI [of _ "fst ?a"] exI [of _ "snd ?a"]) (simp add: sample_env_def)
qed

end
