(* ===== verification/Profile.thy ===== *)
theory Profile
  imports Writer_Proxy Json_Accepting
begin

text \<open>
  The profiling program (\<open>profile.cpp\<close>): it calls the monitor directly, without network,
  with requests that it builds itself: one user and one group, then ten thousand users that
  join the group, and an envelope for all of them. Its requests go through the texts of the
  HTTP library and the HTTP decoder, its bodies through the JSON parser. The HTTP classes are
  parameters: \<open>text\<close> is \<open>build().toString()\<close> of a request builder, \<open>D\<close> the decoder.
\<close>

section \<open>State\<close>

text \<open>\<open>MyConnection\<close>: the flag and the decoder of its base class.\<close>

record 'd my_connection =
  mc_p :: bool
  mc_decoder :: 'd

text \<open>The variables of the program: the service, the counter (an unsigned long), the two
  request builders, the connection of \<open>main\<close>, and what was written to standard output.\<close>

record ('s, 'd) profile =
  pr_anonymbe :: 's
  pr_requests :: "64 word"
  pr_put :: out_request
  pr_post :: out_request
  pr_conn :: "'d my_connection"
  pr_out :: string

definition newline :: string where
  "newline = [CHR 0x0A]"

definition print_text :: "string \<Rightarrow> ('s, 'd) profile \<Rightarrow> ('s, 'd) profile" where
  "print_text s st = st\<lparr>pr_out := pr_out st @ s\<rparr>"

text \<open>\<open>MyConnection::send\<close>. It has no \<open>return\<close>: the caller stores the value that is
  missing and does not look at it.\<close>

definition my_send :: "string \<Rightarrow> ('s, 'd) profile \<Rightarrow> ('s, 'd) profile" where
  "my_send buff st = (if mc_p (pr_conn st) then print_text (buff @ newline) st else st)"

definition set_print :: "bool \<Rightarrow> ('s, 'd) profile \<Rightarrow> ('s, 'd) profile" where
  "set_print b st = st\<lparr>pr_conn := (pr_conn st)\<lparr>mc_p := b\<rparr>\<rparr>"

definition set_decoder :: "'d \<Rightarrow> ('s, 'd) profile \<Rightarrow> ('s, 'd) profile" where
  "set_decoder d st = st\<lparr>pr_conn := (pr_conn st)\<lparr>mc_decoder := d\<rparr>\<rparr>"

section \<open>process_input\<close>

text \<open>\<open>++requests_received\<close> with the message at every hundred thousandth request.\<close>

definition count_request :: "('s, 'd) profile \<Rightarrow> ('s, 'd) profile" where
  "count_request st =
     (let n = pr_requests st + 1; st1 = st\<lparr>pr_requests := n\<rparr>
      in if n mod 100000 = 0 then print_text (to_string_nat (unat (n div 1000)) @ ''k Requests'' @ newline) st1 else st1)"

text \<open>The loop over the requests that the decoder has ready; \<open>None\<close> if it does not end.\<close>

partial_function (option) ready_loop ::
  "'d http_decoder \<Rightarrow> 's responder \<Rightarrow> ('s, 'd) profile \<Rightarrow> (exn option \<times> ('s, 'd) profile) option" where
  "ready_loop D srv st =
     (case hd_get D (mc_decoder (pr_conn st)) of
        (Inl e, d) \<Rightarrow> Some (Some e, set_decoder d st)
      | (Inr None, d) \<Rightarrow> Some (None, set_decoder d st)
      | (Inr (Some rq), d) \<Rightarrow>
          (let st1 = count_request (set_decoder d st)
           in case srv rq (pr_anonymbe st1) of
                None \<Rightarrow> None
              | Some (Inl e, s) \<Rightarrow> Some (Some e, st1\<lparr>pr_anonymbe := s\<rparr>)
              | Some (Inr response, s) \<Rightarrow> ready_loop D srv (my_send response (st1\<lparr>pr_anonymbe := s\<rparr>))))"

definition profile_caught :: "exn option \<Rightarrow> ('s, 'd) profile \<Rightarrow> ('s, 'd) profile" where
  "profile_caught x st =
     (case x of
        None \<Rightarrow> st
      | Some e \<Rightarrow> print_text ((if is_std_exception e then ''Error: ['' @ c_str (what e) @ '']''
                             else '':_(   o.O   ;_;'') @ newline) st)"

definition profile_input ::
  "'d http_decoder \<Rightarrow> 's responder \<Rightarrow> string \<Rightarrow> ('s, 'd) profile \<Rightarrow> ('s, 'd) profile option" where
  "profile_input D srv input st =
     map_option (\<lambda>(x, st1). profile_caught x st1)
       (case hd_add D input (mc_decoder (pr_conn st)) of
          (Inl e, d) \<Rightarrow> Some (Some e, set_decoder d st)
        | (Inr _, d) \<Rightarrow> ready_loop D srv (set_decoder d st))"

definition doreq ::
  "'d http_decoder \<Rightarrow> 's responder \<Rightarrow> string \<Rightarrow> ('s, 'd) profile \<Rightarrow> ('s, 'd) profile option" where
  "doreq D srv request st = profile_input D srv request st"

section \<open>Requests\<close>

text \<open>The two global builders.\<close>

definition request_builder :: "http_strings \<Rightarrow> string \<Rightarrow> out_request" where
  "request_builder H verb =
     \<lparr>or_method = verb, or_url = [], or_protocol = hs_http11 H, or_headers = [], or_body = []\<rparr>"

definition usergroup :: "int \<Rightarrow> int \<Rightarrow> string" where
  "usergroup g u =
     ''{'' @ dq @ ''user_id'' @ dq @ '': '' @ dq @ ''user'' @ to_string_int u @
     dq @ '','' @ dq @ ''group_name'' @ dq @ '': '' @ dq @ ''group'' @ to_string_int g @ dq @ ''}''"

definition make_usergroup_req :: "out_request \<Rightarrow> int \<Rightarrow> int \<Rightarrow> out_request" where
  "make_usergroup_req r gid uid =
     r\<lparr>or_url := ''https://localhost/access/usergroup'', or_body := usergroup gid uid\<rparr>"

definition make_group_req :: "out_request \<Rightarrow> int \<Rightarrow> int \<Rightarrow> out_request" where
  "make_group_req r gid uid =
     r\<lparr>or_url := ''https://localhost/access/group'', or_body := usergroup gid uid\<rparr>"

definition make_user_req :: "out_request \<Rightarrow> int \<Rightarrow> out_request" where
  "make_user_req r i =
     r\<lparr>or_url := ''https://localhost/access/user'',
       or_body := ''{'' @ dq @ ''user_id'' @ dq @ '': '' @ dq @ ''user'' @ to_string_int i @ dq @ ''}''\<rparr>"

definition make_envelope_req :: "(string \<Rightarrow> string) \<Rightarrow> out_request \<Rightarrow> int \<Rightarrow> string \<Rightarrow> out_request" where
  "make_envelope_req b64_encode r i key =
     r\<lparr>or_url := ''https://localhost/verifier/envelope'',
       or_body := ''{'' @ dq @ ''group_id'' @ dq @ '': '' @ dq @ ''group'' @ to_string_int i @
         dq @ '', '' @ dq @ ''bucket_key'' @ dq @ '': '' @ dq @ b64_encode key @ dq @ '' }''\<rparr>"

text \<open>A request through one of the two builders, which keeps what the request set.\<close>

definition do_post ::
  "'d http_decoder \<Rightarrow> 's responder \<Rightarrow> (out_request \<Rightarrow> string) \<Rightarrow> (out_request \<Rightarrow> out_request) \<Rightarrow>
     ('s, 'd) profile \<Rightarrow> ('s, 'd) profile option" where
  "do_post D srv text mk st =
     (let r = mk (pr_post st) in doreq D srv (text r) (st\<lparr>pr_post := r\<rparr>))"

definition do_put ::
  "'d http_decoder \<Rightarrow> 's responder \<Rightarrow> (out_request \<Rightarrow> string) \<Rightarrow> (out_request \<Rightarrow> out_request) \<Rightarrow>
     ('s, 'd) profile \<Rightarrow> ('s, 'd) profile option" where
  "do_put D srv text mk st =
     (let r = mk (pr_put st) in doreq D srv (text r) (st\<lparr>pr_put := r\<rparr>))"

section \<open>main\<close>

text \<open>The loop from \<open>i\<close> on, \<open>n\<close> turns.\<close>

fun join_loop ::
  "'d http_decoder \<Rightarrow> 's responder \<Rightarrow> (out_request \<Rightarrow> string) \<Rightarrow> nat \<Rightarrow> int \<Rightarrow>
     ('s, 'd) profile \<Rightarrow> ('s, 'd) profile option" where
  "join_loop D srv text 0 i st = Some st"
| "join_loop D srv text (Suc n) i st =
     (let st1 = (if i mod 1000 = 0 then print_text (to_string_int i @ newline) st else st)
      in Option.bind (do_post D srv text (\<lambda>r. make_user_req r i) st1) (\<lambda>st2.
         Option.bind (do_put D srv text (\<lambda>r. make_usergroup_req r 1 i) st2) (\<lambda>st3.
           join_loop D srv text n (i + 1) st3)))"

text \<open>The key in the source, in the UTF-8 of the file.\<close>

definition profile_key :: string where
  "profile_key = ''klsdfja'' @ [CHR 0xC3, CHR 0xA7] @ ''lvk''"

definition profile_requests ::
  "'d http_decoder \<Rightarrow> 's responder \<Rightarrow> (out_request \<Rightarrow> string) \<Rightarrow> (string \<Rightarrow> string) \<Rightarrow>
     ('s, 'd) profile \<Rightarrow> ('s, 'd) profile option" where
  "profile_requests D srv text b64_encode st =
     Option.bind (do_post D srv text (\<lambda>r. make_user_req r 0) (set_print True st)) (\<lambda>st1.
     Option.bind (do_post D srv text (\<lambda>r. make_group_req r 1 0) st1) (\<lambda>st2.
     Option.bind (join_loop D srv text 10000 1 (set_print False st2)) (\<lambda>st3.
       do_post D srv text (\<lambda>r. make_envelope_req b64_encode r 1 profile_key) (set_print False st3))))"

text \<open>The variables before \<open>main\<close>: \<open>indexed_\<close> of the service and the flag of the
  connection have no value, nor has \<open>args.indexed\<close>, which \<open>init\<close> reads.\<close>

definition profile_start ::
  "http_strings \<Rightarrow> 'd http_decoder \<Rightarrow> bool \<Rightarrow> bool \<Rightarrow> 'db \<Rightarrow> 'e \<Rightarrow> (('db, 'e) anonymbe, 'd) profile" where
  "profile_start H D garbage garbage_p db ent =
     \<lparr>pr_anonymbe = anonymbe_new garbage db ent, pr_requests = 0,
      pr_put = request_builder H ''PUT'', pr_post = request_builder H ''POST'',
      pr_conn = \<lparr>mc_p = garbage_p, mc_decoder = hd_new D\<rparr>, pr_out = []\<rparr>"

text \<open>\<open>main\<close>: an exception of \<open>init\<close> that is a \<open>std::exception\<close> is printed, another ends
  the program.\<close>

definition profile_main ::
  "build \<Rightarrow> http_strings \<Rightarrow> 'db database_ops \<Rightarrow> 'e crypto \<Rightarrow> char \<Rightarrow> (response option \<Rightarrow> string) \<Rightarrow>
     'd http_decoder \<Rightarrow> (out_request \<Rightarrow> string) \<Rightarrow> bool \<Rightarrow> (('db, 'e) anonymbe, 'd) profile \<Rightarrow>
     (ecall_end \<times> (('db, 'e) anonymbe, 'd) profile) option" where
  "profile_main bd H DB C point to_text D text indexed st =
     (let (r, ab) = anonymbe_init bd DB [] indexed (pr_anonymbe st); st1 = st\<lparr>pr_anonymbe := ab\<rparr>
      in case r of
           Inl e \<Rightarrow>
             Some (if is_std_exception e
                   then (Returned 0, print_text (''> Error: ['' @ c_str (what e) @ '']'' @ newline) st1)
                   else (Uncaught, st1))
         | Inr _ \<Rightarrow>
             map_option (Pair (Returned 0))
               (profile_requests D (monitor bd H DB C point to_text) text (cr_b64_encode C) st1))"

section \<open>The bodies\<close>

text \<open>Characters that stand for themselves in a JSON string.\<close>

definition plain_char :: "char \<Rightarrow> bool" where
  "plain_char c \<longleftrightarrow> 0x20 \<le> (of_char c :: nat) \<and> of_char c < (0x80 :: nat) \<and> c \<noteq> CHR 0x22 \<and> c \<noteq> CHR 0x5C"

lemma plain_string_text: "list_all plain_char s \<Longrightarrow> string_text s s"
  by (induction s) (auto simp: plain_char_def intro: string_text.intros)

lemma plain_to_string: "0 \<le> i \<Longrightarrow> list_all plain_char (to_string_int i)"
proof -
  have "plain_char c" if "is_digit_char c" for c
    using that by (auto simp: is_digit_char_def plain_char_def)
  then show "list_all plain_char (to_string_int i)" if "0 \<le> i"
    using that to_string_nat_is_digit by (auto simp: to_string_int_def list_all_iff)
qed

lemma quoted_grammar: "list_all plain_char s \<Longrightarrow> json_grammar point (Json_String s) (dq @ s @ dq)"
  by (intro jg_string plain_string_text)

lemma grammar_text_parses: "json_grammar point v t \<Longrightarrow> json_parse point t = Inr v"
  using document_accepted [of point v t "[]"] unfolding json_document_def input_ends_def
  by (metis append_Nil append_Nil2 list.pred_inject(1))

lemma one_member:
  assumes "list_all plain_char k" and "list_all plain_char s"
  shows "json_parse point (''{'' @ dq @ k @ dq @ '': '' @ dq @ s @ dq @ ''}'') = Inr (Json_Object [(k, Json_String s)])"
proof -
  have "members_grammar point [(k, Json_String s)] ([] @ dq @ k @ dq @ [] @ CHR '':'' # '' '' @ (dq @ s @ dq) @ [])"
    by (rule mg_last [OF plain_string_text quoted_grammar]) (use assms in \<open>simp_all add: white_def\<close>)
  from jg_object [OF this] show ?thesis
    using grammar_text_parses [of point] by simp
qed

text \<open>Two members, with white space after the comma and before the closing brace as the
  program writes it.\<close>

lemma two_members:
  assumes "list_all plain_char k" and "list_all plain_char s" and "list_all plain_char l" and "list_all plain_char t"
    and "list_all white ws" and "list_all white ws'"
  shows "json_parse point (''{'' @ dq @ k @ dq @ '': '' @ dq @ s @ dq @ '','' @ ws @ dq @ l @ dq @ '': '' @ dq @ t @ dq @ ws' @ ''}'') =
    Inr (Json_Object (map_assign [(k, Json_String s)] l (Json_String t)))"
proof -
  have last: "members_grammar point [(l, Json_String t)] (ws @ dq @ l @ dq @ [] @ CHR '':'' # '' '' @ (dq @ t @ dq) @ ws')"
    by (rule mg_last [OF plain_string_text quoted_grammar]) (use assms in \<open>simp_all add: white_def\<close>)
  have "members_grammar point [(k, Json_String s), (l, Json_String t)] ([] @ dq @ k @ dq @ [] @ CHR '':'' # '' '' @ (dq @ s @ dq) @ [] @ CHR '','' #
      (ws @ dq @ l @ dq @ [] @ CHR '':'' # '' '' @ (dq @ t @ dq) @ ws'))"
    by (rule mg_more [OF plain_string_text quoted_grammar _ _ _ _ last]) (use assms in \<open>simp_all add: white_def\<close>)
  from jg_object [OF this] show ?thesis
    using grammar_text_parses [of point] by simp
qed

definition user_name :: "int \<Rightarrow> string" where
  "user_name i = ''user'' @ to_string_int i"

definition group_name :: "int \<Rightarrow> string" where
  "group_name i = ''group'' @ to_string_int i"

lemma user_name_inj:
  assumes "0 \<le> i" and "0 \<le> j" and "user_name i = user_name j"
  shows "i = j"
proof -
  have "to_string_nat (nat i) = to_string_nat (nat j)"
    using assms by (simp add: user_name_def to_string_int_def)
  then have "nat i = nat j" by (metis digits_value_to_string)
  then show ?thesis using assms by simp
qed

lemma plain_names:
  "0 \<le> i \<Longrightarrow> list_all plain_char (user_name i)" "0 \<le> i \<Longrightarrow> list_all plain_char (group_name i)"
  "list_all plain_char ''user_id''" "list_all plain_char ''group_name''" "list_all plain_char ''group_id''"
  "list_all plain_char ''bucket_key''"
  using plain_to_string by (simp_all add: user_name_def group_name_def plain_char_def)

lemma user_body:
  assumes "0 \<le> i"
  shows "json_parse point (or_body (make_user_req r i)) = Inr (Json_Object [(''user_id'', Json_String (user_name i))])"
  using one_member [OF plain_names(3) plain_names(1) [OF assms]] by (simp add: make_user_req_def user_name_def)

lemma usergroup_body:
  assumes "0 \<le> u" and "0 \<le> g"
  shows "\<exists>j. json_parse point (usergroup g u) = Inr j \<and> json_str j ''user_id'' = Inr (user_name u) \<and>
    json_str j ''group_name'' = Inr (group_name g)"
  using two_members [OF plain_names(3) plain_names(1) [OF assms(1)] plain_names(4) plain_names(2) [OF assms(2)], of "[]" "[]" point]
  by (simp add: usergroup_def user_name_def group_name_def json_str_eq)

lemma envelope_body:
  assumes "0 \<le> g" and "list_all plain_char (b64_encode key)"
  shows "\<exists>j. json_parse point (or_body (make_envelope_req b64_encode r g key)) = Inr j \<and>
    json_str j ''group_id'' = Inr (group_name g) \<and> json_str j ''bucket_key'' = Inr (b64_encode key) \<and>
    (\<nexists>u. json_str j ''user_id'' = Inr u)"
  using two_members [OF plain_names(5) plain_names(2) [OF assms(1)] plain_names(6) assms(2), of "'' ''" "'' ''" point]
  by (simp add: make_envelope_req_def group_name_def json_str_eq white_def)

section \<open>One request\<close>

text \<open>What the program relies on in the HTTP library: a decoder that has handed out all of its
  input and then gets the text of a request for a path on \<open>localhost\<close> hands out that
  request, and nothing else.\<close>

definition simple_path :: "string \<Rightarrow> bool" where
  "simple_path p \<longleftrightarrow> p \<noteq> [] \<and> hd p = CHR ''/'' \<and> list_all (\<lambda>c. c = CHR ''/'' \<or> (97 \<le> (of_char c :: nat) \<and> of_char c \<le> (122 :: nat))) p"

definition texts_decode :: "'d http_decoder \<Rightarrow> (out_request \<Rightarrow> string) \<Rightarrow> ('d \<Rightarrow> bool) \<Rightarrow> bool" where
  "texts_decode D text drained \<longleftrightarrow> drained (hd_new D) \<and>
     (\<forall>r path d. drained d \<longrightarrow> or_method r \<in> {''PUT'', ''POST''} \<longrightarrow> simple_path path \<longrightarrow>
        or_url r = ''https://localhost'' @ path \<longrightarrow>
        (\<exists>d1 d2 d3. hd_add D (text r) d = (Inr (), d1) \<and>
           hd_get D d1 = (Inr (Some \<lparr>rq_method = or_method r, rq_path = path, rq_body = or_body r\<rparr>), d2) \<and>
           hd_get D d2 = (Inr None, d3) \<and> drained d3))"

lemma count_request_quiet:
  assumes "pr_requests st = word_of_nat k" and "Suc k < 100000"
  shows "count_request st = st\<lparr>pr_requests := word_of_nat (Suc k)\<rparr>"
proof -
  have "unat (word_of_nat (Suc k) :: 64 word) = Suc k"
    using assms(2) by (simp add: unat_of_nat take_bit_nat_eq_self del: of_nat_Suc)
  then have "unat ((word_of_nat (Suc k) :: 64 word) mod 100000) = Suc k"
    using assms(2) by (simp add: unat_mod)
  then have "(word_of_nat (Suc k) :: 64 word) mod 100000 \<noteq> 0" by (metis nat.distinct(1) unat_0)
  then show ?thesis using assms(1) by (simp add: count_request_def Let_def add.commute)
qed

lemma ready_loop_once:
  assumes "hd_get D (mc_decoder (pr_conn st)) = (Inr (Some rq), d2)" and "hd_get D d2 = (Inr None, d3)"
    and "process_input bd H DB C point rq (pr_anonymbe st) = (a, ab)"
    and "pr_requests st = word_of_nat k" and "Suc k < 100000"
  shows "ready_loop D (monitor bd H DB C point to_text) st =
    Some (None, st\<lparr>pr_anonymbe := ab, pr_requests := word_of_nat (Suc k), pr_conn := (pr_conn st)\<lparr>mc_decoder := d3\<rparr>,
      pr_out := pr_out st @ (if mc_p (pr_conn st) then to_text a @ newline else [])\<rparr>)"
proof -
  let ?st = "my_send (to_text a) ((set_decoder d2 st)\<lparr>pr_requests := word_of_nat (Suc k), pr_anonymbe := ab\<rparr>)"
  have "count_request (set_decoder d2 st) = (set_decoder d2 st)\<lparr>pr_requests := word_of_nat (Suc k)\<rparr>"
    by (rule count_request_quiet) (use assms in \<open>simp_all add: set_decoder_def\<close>)
  then have "ready_loop D (monitor bd H DB C point to_text) st = ready_loop D (monitor bd H DB C point to_text) ?st"
    using assms(1,3) by (subst ready_loop.simps) (simp add: set_decoder_def monitor_def)
  also have "\<dots> = Some (None, set_decoder d3 ?st)"
    using assms(2) by (subst ready_loop.simps) (simp add: my_send_def print_text_def set_decoder_def)
  finally show ?thesis by (simp add: set_decoder_def my_send_def print_text_def)
qed

lemma doreq_once:
  assumes "texts_decode D text drained" and "drained (mc_decoder (pr_conn st))" and "or_method r \<in> {''PUT'', ''POST''}"
    and "or_url r = ''https://localhost'' @ path" and "simple_path path"
    and "process_input bd H DB C point \<lparr>rq_method = or_method r, rq_path = path, rq_body = or_body r\<rparr> (pr_anonymbe st) = (a, ab)"
    and "pr_requests st = word_of_nat k" and "Suc k < 100000"
  shows "\<exists>d. drained d \<and> doreq D (monitor bd H DB C point to_text) (text r) st =
    Some (st\<lparr>pr_anonymbe := ab, pr_requests := word_of_nat (Suc k), pr_conn := (pr_conn st)\<lparr>mc_decoder := d\<rparr>,
      pr_out := pr_out st @ (if mc_p (pr_conn st) then to_text a @ newline else [])\<rparr>)"
proof -
  obtain d1 d2 d3 where d: "hd_add D (text r) (mc_decoder (pr_conn st)) = (Inr (), d1)"
    "hd_get D d1 = (Inr (Some \<lparr>rq_method = or_method r, rq_path = path, rq_body = or_body r\<rparr>), d2)"
    "hd_get D d2 = (Inr None, d3)" "drained d3"
    using assms(1-5) unfolding texts_decode_def by blast
  have "ready_loop D (monitor bd H DB C point to_text) (set_decoder d1 st) =
      Some (None, (set_decoder d1 st)\<lparr>pr_anonymbe := ab, pr_requests := word_of_nat (Suc k),
        pr_conn := (pr_conn (set_decoder d1 st))\<lparr>mc_decoder := d3\<rparr>,
        pr_out := pr_out (set_decoder d1 st) @ (if mc_p (pr_conn (set_decoder d1 st)) then to_text a @ newline else [])\<rparr>)"
    by (rule ready_loop_once [OF _ d(3)]) (use d(2) assms(6-8) in \<open>simp_all add: set_decoder_def\<close>)
  then show ?thesis
    using d(1,4) by (intro exI [of _ d3]) (simp add: doreq_def profile_input_def profile_caught_def set_decoder_def)
qed

section \<open>The run\<close>

text \<open>Between two requests: the database represents a store with the users \<open>us\<close> and the groups
  \<open>gs\<close>, the decoder has nothing left, and \<open>k\<close> requests were counted.\<close>

definition profile_at ::
  "build \<Rightarrow> ('d \<Rightarrow> bool) \<Rightarrow> string set \<Rightarrow> (string \<rightharpoonup> string set) \<Rightarrow> nat \<Rightarrow> ((memdb, 'e) anonymbe, 'd) profile \<Rightarrow> bool" where
  "profile_at bd drained us gs k st \<longleftrightarrow>
     (let ab = pr_anonymbe st; s = mem_abs (ab_database ab)
      in mem_inv (ab_database ab) \<and> dom (st_users s) = us \<and> st_groups s = gs \<and> (ab_init ab \<or> bd_memdatabase bd)) \<and>
     drained (mc_decoder (pr_conn st)) \<and> or_method (pr_put st) = ''PUT'' \<and> or_method (pr_post st) = ''POST'' \<and>
     pr_requests st = word_of_nat k"

text \<open>A request brings the store to \<open>s'\<close> and prints an answer with status 200 if printing is
  on.\<close>

definition request_done ::
  "(response option \<Rightarrow> string) \<Rightarrow> ((memdb, 'e) anonymbe, 'd) profile \<Rightarrow> ((memdb, 'e) anonymbe, 'd) profile \<Rightarrow> bool" where
  "request_done to_text st st' \<longleftrightarrow> mc_p (pr_conn st') = mc_p (pr_conn st) \<and>
     (\<exists>r. rs_code r = 200 \<and> pr_out st' = pr_out st @ (if mc_p (pr_conn st) then to_text (Some r) @ newline else []))"

lemma simple_path_valid: "simple_path p \<Longrightarrow> utf8_valid p"
proof -
  have "list_all (\<lambda>c. c = CHR ''/'' \<or> (97 \<le> (of_char c :: nat) \<and> of_char c \<le> (122 :: nat))) p \<Longrightarrow> utf8_valid p"
    by (induction p) (auto simp: utf8_valid_Cons_ascii)
  then show "simple_path p \<Longrightarrow> utf8_valid p" by (simp add: simple_path_def)
qed

lemma request_effect:
  assumes "texts_decode D text drained" and "rand_fills C" and "crypto_text C"
    and at: "profile_at bd drained us gs k st" and "Suc k < 100000"
    and "or_method r \<in> {''PUT'', ''POST''}" and "or_url r = ''https://localhost'' @ path" and "simple_path path"
    and parse: "json_parse point (or_body r) = Inr j"
    and rq: "rq = \<lparr>rq_method = or_method r, rq_path = path, rq_body = or_body r\<rparr>"
    and s': "s' = (case requested_call bd point (fst (random_key bd C (ab_entropy (pr_anonymbe st)))) rq of
      None \<Rightarrow> mem_abs (ab_database (pr_anonymbe st)) | Some c \<Rightarrow> snd (spec_apply c (mem_abs (ab_database (pr_anonymbe st)))))"
  shows "\<exists>st' a. doreq D (monitor bd H mem_ops C point to_text) (text r) st = Some st' \<and>
    profile_at bd drained (dom (st_users s')) (st_groups s') (Suc k) st' \<and>
    fst (process_input bd H mem_ops C point rq (pr_anonymbe st)) = Some a \<and> mc_p (pr_conn st') = mc_p (pr_conn st) \<and>
    pr_out st' = pr_out st @ (if mc_p (pr_conn st) then to_text (Some a) @ newline else [])"
proof -
  let ?ab = "pr_anonymbe st"
  note at' = at [unfolded profile_at_def Let_def]
  obtain a ab where p: "process_input bd H mem_ops C point rq ?ab = (a, ab)" by fastforce
  have "\<exists>rs. fst (process_input bd H mem_ops C point rq ?ab) = Some rs"
    by (rule mem_process_input_total) (use at' assms(3) simple_path_valid [OF assms(8)] parse rq in simp_all)
  moreover have "mem_inv (ab_database ab)"
    using mem.process_input_inv [where ab = ?ab and bd = bd and H = H and point = point and rq = rq, OF _ assms(2)] at' p by simp
  moreover have "mem_abs (ab_database ab) = s'"
    using mem.process_input_sim [where ab = ?ab and bd = bd and H = H and point = point and rq = rq, OF _ assms(2)] at' p s' by simp
  moreover have "ab_init ab \<or> bd_memdatabase bd"
    using mem.process_input_ready [where ab = ?ab and bd = bd and H = H and point = point and rq = rq and C = C] at' p by simp
  moreover obtain d where "drained d" "doreq D (monitor bd H mem_ops C point to_text) (text r) st =
      Some (st\<lparr>pr_anonymbe := ab, pr_requests := word_of_nat (Suc k), pr_conn := (pr_conn st)\<lparr>mc_decoder := d\<rparr>,
        pr_out := pr_out st @ (if mc_p (pr_conn st) then to_text a @ newline else [])\<rparr>)"
    using doreq_once [OF assms(1) _ assms(6-8) p [unfolded rq] _ assms(5)] at' by blast
  ultimately show ?thesis
    using at' p by (auto simp: profile_at_def)
qed

text \<open>A request that stands for a call which the abstract store carries out.\<close>

lemma request_step:
  assumes "texts_decode D text drained" and "rand_fills C" and "crypto_text C"
    and at: "profile_at bd drained us gs k st" and "Suc k < 100000"
    and "or_method r \<in> {''PUT'', ''POST''}" and "or_url r = ''https://localhost'' @ path" and "simple_path path"
    and "json_parse point (or_body r) = Inr j"
    and call: "requested_call bd point (fst (random_key bd C (ab_entropy (pr_anonymbe st))))
      \<lparr>rq_method = or_method r, rq_path = path, rq_body = or_body r\<rparr> = Some c"
    and ok: "spec_apply c (mem_abs (ab_database (pr_anonymbe st))) = (Done (), s')"
  shows "\<exists>st'. doreq D (monitor bd H mem_ops C point to_text) (text r) st = Some st' \<and>
    profile_at bd drained (dom (st_users s')) (st_groups s') (Suc k) st' \<and> request_done to_text st st'"
proof -
  let ?rq = "\<lparr>rq_method = or_method r, rq_path = path, rq_body = or_body r\<rparr>"
  obtain st' a where st': "doreq D (monitor bd H mem_ops C point to_text) (text r) st = Some st'"
    "profile_at bd drained (dom (st_users s')) (st_groups s') (Suc k) st'"
    "fst (process_input bd H mem_ops C point ?rq (pr_anonymbe st)) = Some a" "mc_p (pr_conn st') = mc_p (pr_conn st)"
    "pr_out st' = pr_out st @ (if mc_p (pr_conn st) then to_text (Some a) @ newline else [])"
    using request_effect [OF assms(1-9) refl, of s' H to_text] call ok by auto
  have "call_ok c" using requested_call_ok [OF random_key_length [OF assms(2)] call] .
  then have "rs_code a = 200"
    using mem.process_input_code [OF _ _ call st'(3)] at ok by (simp add: profile_at_def Let_def)
  then show ?thesis using st' by (auto simp: request_done_def)
qed

lemmas make_req_defs = make_user_req_def make_group_req_def make_usergroup_req_def make_envelope_req_def

lemma make_req_simps [simp]:
  "or_method (make_user_req r i) = or_method r" "or_method (make_group_req r g i) = or_method r"
  "or_method (make_usergroup_req r g i) = or_method r" "or_method (make_envelope_req b r i k) = or_method r"
  "or_url (make_user_req r i) = ''https://localhost'' @ ''/access/user''"
  "or_url (make_group_req r g i) = ''https://localhost'' @ ''/access/group''"
  "or_url (make_usergroup_req r g i) = ''https://localhost'' @ ''/access/usergroup''"
  "or_url (make_envelope_req b r i k) = ''https://localhost'' @ ''/verifier/envelope''"
  "or_body (make_group_req r g i) = usergroup g i" "or_body (make_usergroup_req r g i) = usergroup g i"
  by (simp_all add: make_req_defs)

lemma simple_paths:
  "simple_path ''/access/user''" "simple_path ''/access/group''" "simple_path ''/access/usergroup''"
  "simple_path ''/verifier/envelope''"
  by (simp_all add: simple_path_def)

lemma profile_at_builders:
  assumes "profile_at bd drained us gs k st"
  shows "or_method r = ''POST'' \<Longrightarrow> profile_at bd drained us gs k (st\<lparr>pr_post := r\<rparr>)"
    "or_method r = ''PUT'' \<Longrightarrow> profile_at bd drained us gs k (st\<lparr>pr_put := r\<rparr>)"
    "or_method (pr_post st) = ''POST''" "or_method (pr_put st) = ''PUT''"
    "dom (st_users (mem_abs (ab_database (pr_anonymbe st)))) = us" "st_groups (mem_abs (ab_database (pr_anonymbe st))) = gs"
  using assms by (simp_all add: profile_at_def Let_def)

lemma request_done_builders [simp]:
  "request_done to_text (st\<lparr>pr_post := r\<rparr>) st' = request_done to_text st st'"
  "request_done to_text (st\<lparr>pr_put := r\<rparr>) st' = request_done to_text st st'"
  by (simp_all add: request_done_def)

lemma post_user:
  assumes "texts_decode D text drained" and "rand_fills C" and "crypto_text C"
    and at: "profile_at bd drained us gs k st" and "Suc k < 100000" and "0 \<le> i" and "user_name i \<notin> us"
  shows "\<exists>st'. do_post D (monitor bd H mem_ops C point to_text) text (\<lambda>r. make_user_req r i) st = Some st' \<and>
    profile_at bd drained (insert (user_name i) us) gs (Suc k) st' \<and> request_done to_text st st'"
proof -
  let ?r = "make_user_req (pr_post st) i" 
  let ?st = "st\<lparr>pr_post := ?r\<rparr>"
  let ?s = "mem_abs (ab_database (pr_anonymbe ?st))" and ?key = "fst (random_key bd C (ab_entropy (pr_anonymbe ?st)))"
  have at1: "profile_at bd drained us gs k ?st" and m: "or_method ?r = ''POST''"
    using profile_at_builders [OF at] by simp_all
  have call: "requested_call bd point ?key \<lparr>rq_method = or_method ?r, rq_path = ''/access/user'', rq_body = or_body ?r\<rparr> =
      Some (Create_User (user_name i) ?key)"
    using user_body [OF assms(6), of point "pr_post st"] m by (simp add: requested_call_def json_str_def json_at_def json_get_string_def)
  have ok: "spec_apply (Create_User (user_name i) ?key) ?s = (Done (), ?s\<lparr>st_users := (st_users ?s)(user_name i \<mapsto> ?key)\<rparr>)"
    using profile_at_builders(5) [OF at] assms(7) by (simp add: spec_create_user_def)
  show ?thesis
    using request_step [OF assms(1-3) at1 assms(5) _ make_req_simps(5) simple_paths(1) user_body [OF assms(6)] call ok, of H to_text] m
      profile_at_builders(5,6) [OF at]
    by (simp add: do_post_def Let_def)
qed

lemma post_group:
  assumes "texts_decode D text drained" and "rand_fills C" and "crypto_text C"
    and at: "profile_at bd drained us gs k st" and "Suc k < 100000" and "0 \<le> g" and "0 \<le> i"
    and "user_name i \<in> us" and "gs (group_name g) = None"
  shows "\<exists>st'. do_post D (monitor bd H mem_ops C point to_text) text (\<lambda>r. make_group_req r g i) st = Some st' \<and>
    profile_at bd drained us (gs(group_name g \<mapsto> {user_name i})) (Suc k) st' \<and> request_done to_text st st'"
proof -
  let ?r = "make_group_req (pr_post st) g i" 
  let ?st = "st\<lparr>pr_post := ?r\<rparr>"
  let ?s = "mem_abs (ab_database (pr_anonymbe ?st))" and ?key = "fst (random_key bd C (ab_entropy (pr_anonymbe ?st)))"
  have at1: "profile_at bd drained us gs k ?st" and m: "or_method ?r = ''POST''"
    using profile_at_builders [OF at] by simp_all
  obtain j where j: "json_parse point (or_body ?r) = Inr j" "json_str j ''user_id'' = Inr (user_name i)"
    "json_str j ''group_name'' = Inr (group_name g)"
    using usergroup_body [OF assms(7,6)] by auto
  have call: "requested_call bd point ?key \<lparr>rq_method = or_method ?r, rq_path = ''/access/group'', rq_body = or_body ?r\<rparr> =
      Some (Create_Group (group_name g) (user_name i))"
    using j m by (simp add: requested_call_def)
  have ok: "spec_apply (Create_Group (group_name g) (user_name i)) ?s =
      (Done (), ?s\<lparr>st_groups := (st_groups ?s)(group_name g \<mapsto> {user_name i})\<rparr>)"
    using profile_at_builders(5,6) [OF at] assms(8,9) by (auto simp add: spec_create_group_def)
  show ?thesis
    using request_step [OF assms(1-3) at1 assms(5) _ make_req_simps(6) simple_paths(2) j(1) call ok, of H to_text] m
      profile_at_builders(5,6) [OF at]
    by (simp add: do_post_def Let_def)
qed

lemma put_member:
  assumes "texts_decode D text drained" and "rand_fills C" and "crypto_text C"
    and at: "profile_at bd drained us gs k st" and "Suc k < 100000" and "0 \<le> g" and "0 \<le> i"
    and "user_name i \<in> us" and "gs (group_name g) = Some M" and "user_name i \<notin> M"
  shows "\<exists>st'. do_put D (monitor bd H mem_ops C point to_text) text (\<lambda>r. make_usergroup_req r g i) st = Some st' \<and>
    profile_at bd drained us (gs(group_name g \<mapsto> insert (user_name i) M)) (Suc k) st' \<and> request_done to_text st st'"
proof -
  let ?r = "make_usergroup_req (pr_put st) g i" 
  let ?st = "st\<lparr>pr_put := ?r\<rparr>"
  let ?s = "mem_abs (ab_database (pr_anonymbe ?st))" and ?key = "fst (random_key bd C (ab_entropy (pr_anonymbe ?st)))"
  have at1: "profile_at bd drained us gs k ?st" and m: "or_method ?r = ''PUT''"
    using profile_at_builders [OF at] by simp_all
  obtain j where j: "json_parse point (or_body ?r) = Inr j" "json_str j ''user_id'' = Inr (user_name i)"
    "json_str j ''group_name'' = Inr (group_name g)"
    using usergroup_body [OF assms(7,6)] by auto
  have call: "requested_call bd point ?key \<lparr>rq_method = or_method ?r, rq_path = ''/access/usergroup'', rq_body = or_body ?r\<rparr> =
      Some (Add_User_To_Group (group_name g) (user_name i))"
    using j m by (simp add: requested_call_def)
  have ok: "spec_apply (Add_User_To_Group (group_name g) (user_name i)) ?s =
      (Done (), ?s\<lparr>st_groups := (st_groups ?s)(group_name g \<mapsto> insert (user_name i) M)\<rparr>)"
    using profile_at_builders(5,6) [OF at] assms(8-10) by (auto simp add: spec_add_user_to_group_def)
  show ?thesis
    using request_step [OF assms(1-3) at1 assms(5) _ make_req_simps(7) simple_paths(3) j(1) call ok, of H to_text] m
      profile_at_builders(5,6) [OF at]
    by (simp add: do_put_def Let_def)
qed

text \<open>The envelope request changes nothing in the store.\<close>

lemma post_envelope:
  assumes "texts_decode D text drained" and "rand_fills C" and "crypto_text C"
    and at: "profile_at bd drained us gs k st" and "Suc k < 100000" and "0 \<le> g" and "list_all plain_char (b64_encode key)"
    and "\<not> mc_p (pr_conn st)"
  shows "\<exists>st'. do_post D (monitor bd H mem_ops C point to_text) text (\<lambda>r. make_envelope_req b64_encode r g key) st = Some st' \<and>
    profile_at bd drained us gs (Suc k) st' \<and> pr_out st' = pr_out st"
proof -
  let ?r = "make_envelope_req b64_encode (pr_post st) g key" 
  let ?st = "st\<lparr>pr_post := ?r\<rparr>"
  let ?s = "mem_abs (ab_database (pr_anonymbe ?st))" and ?key = "fst (random_key bd C (ab_entropy (pr_anonymbe ?st)))"
  have at1: "profile_at bd drained us gs k ?st" and m: "or_method ?r = ''POST''"
    using profile_at_builders [OF at] by simp_all
  obtain j where j: "json_parse point (or_body ?r) = Inr j" "\<nexists>u. json_str j ''user_id'' = Inr u"
    using envelope_body [of g b64_encode key point] assms(6,7) by blast
  have "requested_call bd point ?key \<lparr>rq_method = or_method ?r, rq_path = ''/verifier/envelope'', rq_body = or_body ?r\<rparr> = None"
    using j m by (auto simp: requested_call_def split: sum.splits)
  then show ?thesis
    using request_effect [OF assms(1-3) at1 assms(5) _ make_req_simps(8) simple_paths(4) j(1) refl refl, of H to_text] m
      profile_at_builders(5,6) [OF at] assms(8)
    by (auto simp: do_post_def Let_def)
qed

text \<open>What the loop prints, and the loop itself.\<close>

definition progress :: "int list \<Rightarrow> string" where
  "progress is = concat (map (\<lambda>i. to_string_int i @ newline) (filter (\<lambda>i. i mod 1000 = 0) is))"

lemma profile_at_print: "profile_at bd drained us gs k (print_text s st) = profile_at bd drained us gs k st"
  "profile_at bd drained us gs k (set_print b st) = profile_at bd drained us gs k st"
  by (simp_all add: profile_at_def print_text_def set_print_def)

lemma join_turn:
  assumes "texts_decode D text drained" and "rand_fills C" and "crypto_text C"
    and at: "profile_at bd drained us [group_name 1 \<mapsto> us] k st" and "Suc (Suc k) < 100000" and "0 \<le> i"
    and "user_name i \<notin> us" and "\<not> mc_p (pr_conn st)"
  shows "\<exists>st'. profile_at bd drained (insert (user_name i) us) [group_name 1 \<mapsto> insert (user_name i) us] (Suc (Suc k)) st' \<and>
    pr_out st' = pr_out st @ progress [i] \<and> \<not> mc_p (pr_conn st') \<and>
    join_loop D (monitor bd H mem_ops C point to_text) text (Suc n) i st =
      join_loop D (monitor bd H mem_ops C point to_text) text n (i + 1) st'"
proof -
  let ?srv = "monitor bd H mem_ops C point to_text"
  let ?st = "if i mod 1000 = 0 then print_text (to_string_int i @ newline) st else st"
  have st: "profile_at bd drained us [group_name 1 \<mapsto> us] k ?st" "\<not> mc_p (pr_conn ?st)" "pr_out ?st = pr_out st @ progress [i]"
    using at assms(8) by (simp_all add: profile_at_print progress_def) (simp_all add: print_text_def)
  obtain st2 where st2: "do_post D ?srv text (\<lambda>r. make_user_req r i) ?st = Some st2"
    "profile_at bd drained (insert (user_name i) us) [group_name 1 \<mapsto> us] (Suc k) st2" "request_done to_text ?st st2"
    using post_user [OF assms(1-3) st(1) _ assms(6,7), of H point to_text] assms(5) by auto
  obtain st3 where st3: "do_put D ?srv text (\<lambda>r. make_usergroup_req r 1 i) st2 = Some st3"
    "profile_at bd drained (insert (user_name i) us) [group_name 1 \<mapsto> insert (user_name i) us] (Suc (Suc k)) st3"
    "request_done to_text st2 st3"
    using put_member [OF assms(1-3) st2(2) assms(5) _ assms(6), of 1 us H point to_text] assms(7) by auto
  have "join_loop D ?srv text (Suc n) i st = join_loop D ?srv text n (i + 1) st3"
    using st2(1) st3(1) by (simp add: Let_def)
  then show ?thesis
    using st2(3) st3(2,3) st(2,3) unfolding request_done_def by auto
qed

text \<open>The names of the first \<open>n\<close> users.\<close>

definition user_names :: "int \<Rightarrow> string set" where
  "user_names n = user_name ` {0..<n}"

lemma user_names_Suc: "0 \<le> i \<Longrightarrow> user_names (i + 1) = insert (user_name i) (user_names i)" "0 \<le> i \<Longrightarrow> user_name i \<notin> user_names i"
proof -
  assume i: "0 \<le> i"
  have "{0..<i + 1} = insert i {0..<i}" using i by auto
  then show "user_names (i + 1) = insert (user_name i) (user_names i)" by (simp add: user_names_def)
  show "user_name i \<notin> user_names i" using user_name_inj i by (fastforce simp: user_names_def)
qed

lemma join_loop_joins:
  assumes "texts_decode D text drained" and "rand_fills C" and "crypto_text C"
  shows "profile_at bd drained (user_names i) [group_name 1 \<mapsto> user_names i] k st \<Longrightarrow> k + 2 * n < 100000 \<Longrightarrow> 0 \<le> i \<Longrightarrow>
    \<not> mc_p (pr_conn st) \<Longrightarrow>
    \<exists>st'. join_loop D (monitor bd H mem_ops C point to_text) text n i st = Some st' \<and>
      profile_at bd drained (user_names (i + int n)) [group_name 1 \<mapsto> user_names (i + int n)] (k + 2 * n) st' \<and>
      pr_out st' = pr_out st @ progress [i..i + int n - 1]"
proof (induction n arbitrary: i k st)
  case 0
  then show ?case by (simp add: progress_def)
next
  case (Suc n)
  let ?loop = "join_loop D (monitor bd H mem_ops C point to_text) text"
  obtain st1 where st1: "profile_at bd drained (user_names (i + 1)) [group_name 1 \<mapsto> user_names (i + 1)] (Suc (Suc k)) st1"
    "pr_out st1 = pr_out st @ progress [i]" "\<not> mc_p (pr_conn st1)" "?loop (Suc n) i st = ?loop n (i + 1) st1"
    using join_turn [OF assms Suc.prems(1) _ Suc.prems(3) user_names_Suc(2) [OF Suc.prems(3)] Suc.prems(4), of H point to_text n]
      Suc.prems(2) user_names_Suc(1) [OF Suc.prems(3)] by auto
  have bounds: "Suc (Suc k) + 2 * n < 100000" "0 \<le> i + 1" using Suc.prems(2,3) by simp_all
  have eqs: "i + 1 + int n = i + int (Suc n)" "Suc (Suc k) + 2 * n = k + 2 * Suc n" by simp_all
  obtain st' where st': "?loop n (i + 1) st1 = Some st'"
    "profile_at bd drained (user_names (i + int (Suc n))) [group_name 1 \<mapsto> user_names (i + int (Suc n))] (k + 2 * Suc n) st'"
    "pr_out st' = pr_out st1 @ progress [i + 1..i + int (Suc n) - 1]"
    using Suc.IH [OF st1(1) bounds st1(3), unfolded eqs] by blast
  have "[i..i + int (Suc n) - 1] = i # [i + 1..i + int (Suc n) - 1]" by (rule upto_rec1) simp
  then have "pr_out st' = pr_out st @ progress [i..i + int (Suc n) - 1]"
    using st1(2) st'(3) by (simp add: progress_def)
  then show ?case using st1(4) st'(1,2) by metis
qed

lemma profile_requests_run:
  assumes "texts_decode D text drained" and "rand_fills C" and "crypto_text C" and "\<And>s. list_all plain_char (b64_encode s)"
    and at: "profile_at bd drained {} Map.empty 0 st"
  shows "\<exists>st' r1 r2. profile_requests D (monitor bd H mem_ops C point to_text) text b64_encode st = Some st' \<and>
    rs_code r1 = 200 \<and> rs_code r2 = 200 \<and>
    pr_out st' = pr_out st @ to_text (Some r1) @ newline @ to_text (Some r2) @ newline @ progress [1..10000] \<and>
    profile_at bd drained (user_names 10001) [group_name 1 \<mapsto> user_names 10001] 20003 st'"
proof -
  let ?srv = "monitor bd H mem_ops C point to_text"
  have at0: "profile_at bd drained {} Map.empty 0 (set_print True st)" using at by (simp add: profile_at_print)
  obtain st1 where st1: "do_post D ?srv text (\<lambda>r. make_user_req r 0) (set_print True st) = Some st1"
    "profile_at bd drained {user_name 0} Map.empty 1 st1" "request_done to_text (set_print True st) st1"
    using post_user [OF assms(1-3) at0, of 0 H point to_text] by auto
  obtain st2 where st2: "do_post D ?srv text (\<lambda>r. make_group_req r 1 0) st1 = Some st2"
    "profile_at bd drained {user_name 0} [group_name 1 \<mapsto> {user_name 0}] 2 st2" "request_done to_text st1 st2"
    using post_group [OF assms(1-3) st1(2), of 1 0 H point to_text] by (auto simp: numeral_2_eq_2)
  have one: "user_names 1 = {user_name 0}" using user_names_Suc(1) [of 0] by (simp add: user_names_def)
  have "profile_at bd drained (user_names 1) [group_name 1 \<mapsto> user_names 1] 2 (set_print False st2)"
    "\<not> mc_p (pr_conn (set_print False st2))"
    using st2(2) one by (simp_all add: profile_at_print) (simp add: set_print_def)
  from join_loop_joins [OF assms(1-3) this(1) _ _ this(2), of 10000 H point to_text]
  obtain st3 where st3: "join_loop D ?srv text 10000 1 (set_print False st2) = Some st3"
    "profile_at bd drained (user_names 10001) [group_name 1 \<mapsto> user_names 10001] 20002 (set_print False st3)"
    "pr_out st3 = pr_out st2 @ progress [1..10000]"
    by (auto simp: profile_at_print) (simp add: set_print_def)
  obtain st4 where st4: "do_post D ?srv text (\<lambda>r. make_envelope_req b64_encode r 1 profile_key) (set_print False st3) = Some st4"
    "profile_at bd drained (user_names 10001) [group_name 1 \<mapsto> user_names 10001] 20003 st4" "pr_out st4 = pr_out st3"
    using post_envelope [OF assms(1-3) st3(2), of 1 b64_encode profile_key H point to_text] assms(4) by (auto simp: set_print_def)
  have "profile_requests D ?srv text b64_encode st = Some st4"
    using st1(1) st2(1) st3(1) st4(1) by (simp add: profile_requests_def)
  moreover obtain r1 where "rs_code r1 = 200" "pr_out st1 = pr_out st @ to_text (Some r1) @ newline" "mc_p (pr_conn st1)"
    using st1(3) by (auto simp: request_done_def set_print_def)
  moreover obtain r2 where "rs_code r2 = 200" "pr_out st2 = pr_out st1 @ to_text (Some r2) @ newline"
    using st2(3) \<open>mc_p (pr_conn st1)\<close> by (auto simp: request_done_def)
  ultimately show ?thesis using st3(3) st4(2,3) by auto
qed

section \<open>Property\<close>


text \<open>A small HTTP library: the text of a request is its method, its URL and its body,
  separated by NUL bytes.\<close>

definition nul_text :: "out_request \<Rightarrow> string" where
  "nul_text r = or_method r @ [CHR 0x00] @ or_url r @ [CHR 0x00] @ or_body r"

definition nul_split :: "string \<Rightarrow> string \<times> string" where
  "nul_split s = (takeWhile (\<lambda>c. c \<noteq> CHR 0x00) s, tl (dropWhile (\<lambda>c. c \<noteq> CHR 0x00) s))"

definition nul_request :: "string \<Rightarrow> request" where
  "nul_request s =
     (let (m, t) = nul_split s; (u, b) = nul_split t
      in \<lparr>rq_method = m, rq_path = drop 17 u, rq_body = b\<rparr>)"

definition nul_decoder :: "string list http_decoder" where
  "nul_decoder = \<lparr>hd_new = [], hd_add = \<lambda>b d. (Inr (), d @ [b]),
     hd_get = \<lambda>d. (case d of [] \<Rightarrow> (Inr None, []) | s # ss \<Rightarrow> (Inr (Some (nul_request s)), ss))\<rparr>"

lemma nul_split_append: "CHR 0x00 \<notin> set a \<Longrightarrow> nul_split (a @ CHR 0x00 # b) = (a, b)"
  unfolding nul_split_def by (induction a) auto

lemma simple_path_no_nul: "simple_path p \<Longrightarrow> CHR 0x00 \<notin> set p"
proof
  assume "simple_path p" "CHR 0x00 \<in> set p"
  then have "CHR 0x00 = CHR ''/'' \<or> 97 \<le> (of_char (CHR 0x00) :: nat)"
    unfolding simple_path_def list_all_iff by blast
  then show False by simp
qed

lemma nul_decodes: "texts_decode nul_decoder nul_text (\<lambda>d. d = [])"
proof -
  have "nul_request (nul_text r) = \<lparr>rq_method = or_method r, rq_path = path, rq_body = or_body r\<rparr>"
    if "or_method r \<in> {''PUT'', ''POST''}" "simple_path path" "or_url r = ''https://localhost'' @ path" for r path
  proof -
    have "CHR 0x00 \<notin> set (or_method r)" "CHR 0x00 \<notin> set (or_url r)"
      using that simple_path_no_nul by auto
    then have "nul_split (nul_text r) = (or_method r, or_url r @ CHR 0x00 # or_body r)"
      "nul_split (or_url r @ CHR 0x00 # or_body r) = (or_url r, or_body r)"
      by (simp_all add: nul_text_def nul_split_append)
    then show ?thesis using that(3) by (simp add: nul_request_def)
  qed
  moreover have "hd_add nul_decoder s [] = (Inr (), [s])" "hd_get nul_decoder [s] = (Inr (Some (nul_request s)), [])"
    "hd_get nul_decoder [] = (Inr None, [])" "hd_new nul_decoder = []" for s
    by (simp_all add: nul_decoder_def)
  ultimately show ?thesis unfolding texts_decode_def by metis
qed

lemma plain_char_code:
  "plain_char c \<longleftrightarrow> 32 \<le> (of_char c :: nat) \<and> of_char c < (128 :: nat) \<and> of_char c \<noteq> (34 :: nat) \<and> of_char c \<noteq> (92 :: nat)"
proof -
  have "c = CHR 0x22 \<longleftrightarrow> of_char c = (of_char (CHR 0x22) :: nat)" "c = CHR 0x5C \<longleftrightarrow> of_char c = (of_char (CHR 0x5C) :: nat)"
    by (metis char_of_char)+
  then show ?thesis by (auto simp: plain_char_def)
qed

lemma hex_text_plain: "list_all plain_char (hex_text s)"
proof (induction s)
  case (Cons c s)
  have "plain_char (hex_digit 0x41 d)" if "d < 16" for d
    using that by (simp add: plain_char_code hex_digit_def)
  moreover have "(of_char c :: nat) div 16 < 16"
    using nat_of_char_less_256 [of c] by (simp add: less_mult_imp_div_less)
  ultimately show ?case using Cons by (simp add: hex_text_def hex2_def)
qed (simp add: hex_text_def)


end
