(* ===== verification/Database_Locks.thy ===== *)
theory Database_Locks
  imports Memory_Database "HOL-Library.Multiset"
begin

text \<open>
  The locking of the in-memory database (\<open>memory_database.cpp\<close>). The functions of
  \<open>Memory_Database\<close> say what a call does by itself; here every method is the sequence of
  its steps: taking and releasing the two mutexes in the order of the guards in the source,
  and the accesses in between. Any number of calls run interleaved. The theory shows that a
  call alone is the function of \<open>Memory_Database\<close>, that every interleaving keeps the
  invariant of the database and amounts to some order of the calls, that every schedule
  ends, that calls without a deletion cannot block each other, and that an addition and a
  deletion can.
\<close>

section \<open>Programs\<close>

datatype mutex = Gmutex | Umutex

datatype call_result = R_Unit "unit result" | R_Bool "bool result" | R_Keys "string list result"

text \<open>A program takes or releases a mutex, or accesses the database: \<open>Do upd k\<close> replaces
  its state by \<open>upd\<close> of it and goes on with what \<open>k\<close> makes of the state before.\<close>

datatype prog =
    Ret call_result
  | Lock mutex prog
  | Unlock mutex prog
  | Do "memdb \<Rightarrow> memdb" "memdb \<Rightarrow> prog"

text \<open>\<open>throw\<close> and \<open>return\<close> under the guard of the groups' mutex.\<close>

definition leave :: "unit result \<Rightarrow> prog" where
  "leave r = Unlock Gmutex (Ret (R_Unit r))"

text \<open>A block that looks a user up under the users' mutex, with the program for a user who is
  missing and for one who is there; the exception leaves both guards.\<close>

definition user_check :: "string \<Rightarrow> exn \<Rightarrow> prog \<Rightarrow> prog" where
  "user_check uid e found =
     Lock Umutex (Do id (\<lambda>db. if map_find (mdb_users db) uid = None then Unlock Umutex (leave (Inl e))
                             else Unlock Umutex found))"

definition add_user_prog :: "string \<Rightarrow> string \<Rightarrow> prog" where
  "add_user_prog gname new_uid =
     Lock Gmutex (Do id (\<lambda>db.
       if map_find (mdb_groups db) gname = None
       then leave (Inl (Invalid_Argument (''attempt to add user '' @ sq @ new_uid @ sq @ '' to'' @
              ''non existing group: '' @ sq @ gname @ sq)))
       else user_check new_uid
         (Invalid_Argument (''attempt to add unknown user '' @ sq @ new_uid @ sq @ '' to group '' @ sq @ gname @ sq))
         (Do (\<lambda>db. db\<lparr>mdb_groups := map_assign (mdb_groups db) gname
                (fst (set_insert (map_index [] (mdb_groups db) gname) new_uid))\<rparr>)
           (\<lambda>db. if \<not> snd (set_insert (map_index [] (mdb_groups db) gname) new_uid)
                 then leave (Inl (Logic_Error (sq @ new_uid @ sq @ '' was already a member of '' @ ''group '' @
                        sq @ gname @ sq)))
                 else leave (Inr ())))))"

definition create_user_prog :: "string \<Rightarrow> string \<Rightarrow> prog" where
  "create_user_prog uid key =
     Lock Umutex (Do (\<lambda>db. if map_find (mdb_users db) uid = None
                           then db\<lparr>mdb_users := map_assign (mdb_users db) uid key\<rparr> else db)
       (\<lambda>db. Unlock Umutex (Ret (R_Unit (if map_find (mdb_users db) uid = None then Inr ()
          else Inl (Invalid_Argument (''attempt to create an existing user: '' @ sq @ uid @ sq)))))))"

definition create_group_prog :: "string \<Rightarrow> string \<Rightarrow> prog" where
  "create_group_prog gname uid =
     Lock Gmutex (Do id (\<lambda>db.
       if map_find (mdb_groups db) gname = None
       then user_check uid
         (Invalid_Argument (''tried to create group '' @ sq @ gname @ sq @ '' with an unknown user:'' @ sq @ uid @ sq))
         (Do (\<lambda>db. db\<lparr>mdb_groups := map_assign (mdb_groups db) gname
                (fst (set_insert (map_index [] (mdb_groups db) gname) uid))\<rparr>) (\<lambda>db. leave (Inr ())))
       else leave (Inl (Invalid_Argument (''attempt to create an existing group: '' @ sq @ gname @ sq)))))"

text \<open>The two methods that take the users' mutex first.\<close>

definition delete_user_prog :: "string \<Rightarrow> prog" where
  "delete_user_prog uid =
     Lock Umutex (Lock Gmutex (Do (\<lambda>db. snd (mem_delete_user uid db))
       (\<lambda>db. Unlock Gmutex (Unlock Umutex (Ret (R_Unit (Inr ())))))))"

definition delete_all_prog :: prog where
  "delete_all_prog =
     Lock Umutex (Lock Gmutex (Do (\<lambda>db. snd (mem_delete_all_data db))
       (\<lambda>db. Unlock Gmutex (Unlock Umutex (Ret (R_Unit (Inr ())))))))"

text \<open>\<open>is_user_part_of_group\<close> takes no mutex.\<close>

definition part_of_group_prog :: "string \<Rightarrow> string \<Rightarrow> prog" where
  "part_of_group_prog uname gname = Do id (\<lambda>db. Ret (R_Bool (fst (mem_is_user_part_of_group uname gname db))))"

definition remove_user_prog :: "string \<Rightarrow> string \<Rightarrow> prog" where
  "remove_user_prog gname uid =
     Lock Gmutex (Do id (\<lambda>db.
       if map_find (mdb_groups db) gname \<noteq> None
       then user_check uid
         (Invalid_Argument (''tried to remove an unknown user '' @ sq @ uid @ sq @ '' from group '' @ sq @ gname @ sq))
         (Do (\<lambda>db. if \<not> set_find (map_index [] (mdb_groups db) gname) uid then db
                   else db\<lparr>mdb_groups := map_assign (mdb_groups db) gname
                     (fst (set_erase (map_index [] (mdb_groups db) gname) uid))\<rparr>)
           (\<lambda>db. if \<not> set_find (map_index [] (mdb_groups db) gname) uid
                 then leave (Inl (Invalid_Argument (''attempt to remove user '' @ sq @ uid @ sq @ '' from group '' @
                        sq @ gname @ sq @ '' to which he or she does not belong'')))
                 else if snd (set_erase (map_index [] (mdb_groups db) gname) uid) = 0
                 then leave (Inl (Invalid_Argument hills_message))
                 else leave (Inr ())))
       else leave (Inl (Invalid_Argument (''attempt to remove user '' @ sq @ uid @ sq @ '' from'' @
              '' inexistent group: '' @ sq @ gname @ sq)))))"

text \<open>The loop of \<open>get_keys_of_group\<close> takes the users' mutex for every member.\<close>

fun keys_prog :: "string list \<Rightarrow> string list \<Rightarrow> prog" where
  "keys_prog [] ret = Unlock Gmutex (Ret (R_Keys (Inr ret)))"
| "keys_prog (uid # uids) ret =
     Lock Umutex (Do id (\<lambda>db. Unlock Umutex (keys_prog uids
       (case map_find (mdb_users db) uid of None \<Rightarrow> ret | Some k \<Rightarrow> ret @ [copy_key k]))))"

definition get_keys_prog :: "string \<Rightarrow> prog" where
  "get_keys_prog gname =
     Lock Gmutex (Do id (\<lambda>db.
       if map_find (mdb_groups db) gname \<noteq> None
       then
         if map_index [] (mdb_groups db) gname = []
         then Unlock Gmutex (Ret (R_Keys (Inl (Invalid_Argument (''group '' @ sq @ gname @ sq @ '' is empty'')))))
         else keys_prog (map_index [] (mdb_groups db) gname) []
       else Unlock Gmutex (Ret (R_Keys (Inl (Invalid_Argument (''unknown group '' @ sq @ gname @ sq)))))))"

datatype mem_call =
    Call_Add string string
  | Call_Create_User string string
  | Call_Create_Group string string
  | Call_Delete_User string
  | Call_Delete_All
  | Call_Part_Of string string
  | Call_Remove string string
  | Call_Get_Keys string

fun call_prog :: "mem_call \<Rightarrow> prog" where
  "call_prog (Call_Add g u) = add_user_prog g u"
| "call_prog (Call_Create_User u k) = create_user_prog u k"
| "call_prog (Call_Create_Group g u) = create_group_prog g u"
| "call_prog (Call_Delete_User u) = delete_user_prog u"
| "call_prog Call_Delete_All = delete_all_prog"
| "call_prog (Call_Part_Of u g) = part_of_group_prog u g"
| "call_prog (Call_Remove g u) = remove_user_prog g u"
| "call_prog (Call_Get_Keys g) = get_keys_prog g"

fun call_alone :: "mem_call \<Rightarrow> memdb \<Rightarrow> call_result \<times> memdb" where
  "call_alone (Call_Add g u) db = map_prod R_Unit id (mem_add_user_to_group g u db)"
| "call_alone (Call_Create_User u k) db = map_prod R_Unit id (mem_create_user u k db)"
| "call_alone (Call_Create_Group g u) db = map_prod R_Unit id (mem_create_group g u db)"
| "call_alone (Call_Delete_User u) db = map_prod R_Unit id (mem_delete_user u db)"
| "call_alone Call_Delete_All db = map_prod R_Unit id (mem_delete_all_data db)"
| "call_alone (Call_Part_Of u g) db = map_prod R_Bool id (mem_is_user_part_of_group u g db)"
| "call_alone (Call_Remove g u) db = map_prod R_Unit id (mem_remove_user_from_group g u db)"
| "call_alone (Call_Get_Keys g) db = map_prod R_Keys id (mem_get_keys_of_group g db)"

section \<open>A call alone\<close>

primrec run_alone :: "prog \<Rightarrow> memdb \<Rightarrow> call_result \<times> memdb" where
  "run_alone (Ret r) db = (r, db)"
| "run_alone (Lock m p) db = run_alone p db"
| "run_alone (Unlock m p) db = run_alone p db"
| "run_alone (Do upd k) db = run_alone (k db) (upd db)"

lemma run_leave [simp]: "run_alone (leave r) db = (R_Unit r, db)"
  by (simp add: leave_def)

lemma run_user_check [simp]:
  "run_alone (user_check u e p) db = (if map_find (mdb_users db) u = None then (R_Unit (Inl e), db) else run_alone p db)"
  by (simp add: user_check_def)

lemma run_keys: "run_alone (keys_prog us ret) db = (R_Keys (Inr (ret @ collect_keys (mdb_users db) us)), db)"
  by (induction us arbitrary: ret) (auto split: option.split)

lemmas prog_defs = add_user_prog_def create_user_prog_def create_group_prog_def delete_user_prog_def
  delete_all_prog_def part_of_group_prog_def remove_user_prog_def get_keys_prog_def

lemma run_call: "run_alone (call_prog c) db = call_alone c db"
proof (cases c)
  case (Call_Remove g u)
  then show ?thesis by (simp add: prog_defs mem_remove_user_from_group_def case_prod_beta Let_def)
next
  case (Call_Get_Keys g)
  then show ?thesis by (simp add: prog_defs mem_get_keys_of_group_def run_keys)
qed (simp_all add: prog_defs mem_add_user_to_group_def mem_create_user_def mem_create_group_def
    mem_delete_user_def mem_delete_all_data_def mem_is_user_part_of_group_def case_prod_beta Let_def)

section \<open>Interleaving\<close>

record conc =
  cs_db :: memdb
  cs_owner :: "mutex \<Rightarrow> nat option"
  cs_threads :: "prog list"

definition conc_start :: "memdb \<Rightarrow> mem_call list \<Rightarrow> conc" where
  "conc_start db cs = \<lparr>cs_db = db, cs_owner = (\<lambda>_. None), cs_threads = map call_prog cs\<rparr>"

inductive conc_step :: "conc \<Rightarrow> conc \<Rightarrow> bool" where
  acquire: "i < length (cs_threads s) \<Longrightarrow> cs_threads s ! i = Lock m p \<Longrightarrow> cs_owner s m = None \<Longrightarrow>
    conc_step s (s\<lparr>cs_owner := (cs_owner s)(m := Some i), cs_threads := (cs_threads s)[i := p]\<rparr>)"
| release: "i < length (cs_threads s) \<Longrightarrow> cs_threads s ! i = Unlock m p \<Longrightarrow>
    conc_step s (s\<lparr>cs_owner := (cs_owner s)(m := None), cs_threads := (cs_threads s)[i := p]\<rparr>)"
| access: "i < length (cs_threads s) \<Longrightarrow> cs_threads s ! i = Do upd k \<Longrightarrow>
    conc_step s (s\<lparr>cs_db := upd (cs_db s), cs_threads := (cs_threads s)[i := k (cs_db s)]\<rparr>)"

inductive_cases conc_stepE: "conc_step s s'"

definition held :: "conc \<Rightarrow> nat \<Rightarrow> mutex set" where
  "held s i = {m. cs_owner s m = Some i}"

section \<open>What the mutexes protect\<close>

text \<open>What a thread may change while it holds \<open>H\<close>: the users under their mutex, the groups
  under theirs, and it may take a user away or change a key only under both. What it can rely on while it
  holds \<open>H\<close> is the same for all the others.\<close>

definition grows :: "memdb \<Rightarrow> memdb \<Rightarrow> bool" where
  "grows db db' \<longleftrightarrow> map_find (mdb_users db) \<subseteq>\<^sub>m map_find (mdb_users db')"

definition guar :: "mutex set \<Rightarrow> memdb \<Rightarrow> memdb \<Rightarrow> bool" where
  "guar H db db' \<longleftrightarrow> (Umutex \<notin> H \<longrightarrow> mdb_users db' = mdb_users db) \<and>
     (Gmutex \<notin> H \<longrightarrow> mdb_groups db' = mdb_groups db \<and> grows db db')"

definition rely :: "mutex set \<Rightarrow> memdb \<Rightarrow> memdb \<Rightarrow> bool" where
  "rely H db db' \<longleftrightarrow> (Umutex \<in> H \<longrightarrow> mdb_users db' = mdb_users db) \<and>
     (Gmutex \<in> H \<longrightarrow> mdb_groups db' = mdb_groups db \<and> grows db db')"

lemma grows_refl [simp]: "grows db db"
  by (simp add: grows_def)

lemma growsD: "grows db db' \<Longrightarrow> map_find (mdb_users db) u \<noteq> None \<Longrightarrow> map_find (mdb_users db') u \<noteq> None"
  by (metis grows_def map_le_def domIff)

lemma rely_refl [simp]: "rely H db db"
  by (simp add: rely_def)

lemma rely_trans: "rely H a b \<Longrightarrow> rely H b c \<Longrightarrow> rely H a c"
  by (auto simp: rely_def grows_def intro: map_le_trans)

lemma guar_refl [simp]: "guar H db db"
  by (simp add: guar_def)

lemma guar_rely: "guar H db db' \<Longrightarrow> H \<inter> H' = {} \<Longrightarrow> rely H' db db'"
  by (auto simp: guar_def rely_def)

text \<open>A program that, started in \<open>db\<close> with the mutexes \<open>H\<close>, takes no mutex twice,
  releases only what it holds, holds nothing at its end, changes only what it may, and
  keeps the invariant with every access, whatever the others do meanwhile.\<close>

primrec safe :: "prog \<Rightarrow> mutex set \<Rightarrow> memdb \<Rightarrow> bool" where
  "safe (Ret r) H db = (H = {})"
| "safe (Lock m p) H db = (m \<notin> H \<and> (\<forall>db'. rely H db db' \<longrightarrow> safe p (insert m H) db'))"
| "safe (Unlock m p) H db = (m \<in> H \<and> (\<forall>db'. rely H db db' \<longrightarrow> safe p (H - {m}) db'))"
| "safe (Do upd k) H db = (\<forall>db'. rely H db db' \<longrightarrow> mem_inv db' \<longrightarrow>
     mem_inv (upd db') \<and> guar H db' (upd db') \<and> safe (k db') H (upd db'))"

lemma safe_rely: "safe p H db \<Longrightarrow> rely H db db' \<Longrightarrow> safe p H db'"
  by (cases p) (auto intro: rely_trans)

lemma safe_leave [simp]: "safe (leave r) {Gmutex} db"
  by (simp add: leave_def)

lemma safe_user_check:
  assumes "\<And>db'. rely {Gmutex} db db' \<Longrightarrow> map_find (mdb_users db') u \<noteq> None \<Longrightarrow> safe p {Gmutex} db'"
  shows "safe (user_check u e p) {Gmutex} db"
proof -
  have step: "safe (if map_find (mdb_users db2) u = None then Unlock Umutex (leave (Inl e)) else Unlock Umutex p)
      {Umutex, Gmutex} db2" if "rely {Gmutex} db db2" for db2
  proof -
    have "safe p {Gmutex} db3" if "rely {Umutex, Gmutex} db2 db3" "map_find (mdb_users db2) u \<noteq> None" for db3
      using assms [of db3] that rely_trans [OF \<open>rely {Gmutex} db db2\<close>, of db3] by (auto simp: rely_def)
    then show ?thesis by (simp add: insert_Diff_if)
  qed
  have "rely {Gmutex} db1 db2" if "rely {Umutex, Gmutex} db1 db2" for db1 db2
    using that by (simp add: rely_def)
  then show ?thesis
    using step rely_trans unfolding user_check_def by (auto simp: insert_commute)
qed

text \<open>The effect of a whole call, where its checks succeed, keeps the invariant.\<close>

lemma add_inv:
  assumes "mem_inv db" and "map_find (mdb_groups db) g \<noteq> None" and "map_find (mdb_users db) u \<noteq> None"
  shows "mem_inv (db\<lparr>mdb_groups := map_assign (mdb_groups db) g (fst (set_insert (map_index [] (mdb_groups db) g) u))\<rparr>)"
  using mem.apply_inv [OF assms(1), of "Add_User_To_Group g u"] assms(2,3)
  by (simp add: mem_ops_def mem_add_user_to_group_def case_prod_beta Let_def split: if_splits)

lemma create_group_inv:
  assumes "mem_inv db" and "map_find (mdb_groups db) g = None" and "map_find (mdb_users db) u \<noteq> None"
  shows "mem_inv (db\<lparr>mdb_groups := map_assign (mdb_groups db) g (fst (set_insert (map_index [] (mdb_groups db) g) u))\<rparr>)"
  using mem.apply_inv [OF assms(1), of "Create_Group g u"] assms(2,3)
  by (simp add: mem_ops_def mem_create_group_def)

lemma remove_inv:
  assumes "mem_inv db" and "map_find (mdb_groups db) g \<noteq> None" and "map_find (mdb_users db) u \<noteq> None"
    and "set_find (map_index [] (mdb_groups db) g) u"
  shows "mem_inv (db\<lparr>mdb_groups := map_assign (mdb_groups db) g (fst (set_erase (map_index [] (mdb_groups db) g) u))\<rparr>)"
  using mem.apply_inv [OF assms(1), of "Remove_User_From_Group g u"] assms(2-4)
  by (auto simp: mem_ops_def mem_remove_user_from_group_def case_prod_beta Let_def split: if_splits)

lemma create_user_inv:
  assumes "mem_inv db" and "length key = KEY_SIZE" and "map_find (mdb_users db) u = None"
  shows "mem_inv (db\<lparr>mdb_users := map_assign (mdb_users db) u key\<rparr>)"
  using mem.apply_inv [OF assms(1), of "Create_User u key"] assms(2,3)
  by (simp add: mem_ops_def mem_create_user_def)

lemma delete_inv:
  assumes "mem_inv db"
  shows "mem_inv (snd (mem_delete_user u db))" "mem_inv (snd (mem_delete_all_data db))"
  using mem.apply_inv [OF assms, of "Delete_User u"] mem.apply_inv [OF assms, of Delete_All_Data]
  by (simp_all add: mem_ops_def)

fun call_key_ok :: "mem_call \<Rightarrow> bool" where
  "call_key_ok (Call_Create_User u k) = (length k = KEY_SIZE)"
| "call_key_ok c = True"

text \<open>The methods that take a mutex. \<open>is_user_part_of_group\<close> takes none, so its accesses are
  data races, to which the language gives no meaning: it is left out of the claims on
  interleavings.\<close>

fun locked :: "mem_call \<Rightarrow> bool" where
  "locked (Call_Part_Of u g) = False"
| "locked c = True"

lemma safe_keys: "safe (keys_prog us ret) {Gmutex} db"
  by (induction us arbitrary: ret db) (simp_all add: insert_Diff_if)

lemma rely_empty [simp]: "rely {} db db'"
  by (simp add: rely_def)

lemma safe_access:
  assumes "\<And>db'. rely H db db' \<Longrightarrow> mem_inv db' \<Longrightarrow> mem_inv (upd db') \<and> guar H db' (upd db') \<and> safe (k db') H (upd db')"
  shows "safe (Do upd k) H db"
  using assms by simp

lemma rely_groupsD:
  assumes "rely {Gmutex} db db'"
  shows "mdb_groups db' = mdb_groups db"
    and "map_find (mdb_users db) u \<noteq> None \<Longrightarrow> map_find (mdb_users db') u \<noteq> None"
  using assms growsD [of db db' u] by (simp_all add: rely_def)

lemma guar_groups [simp]: "guar {Gmutex} db (db\<lparr>mdb_groups := gs\<rparr>)"
  by (simp add: guar_def)

text \<open>The changes to a group, made under the groups' mutex after the user was found.\<close>

lemma safe_insert:
  assumes "map_find (mdb_users db) u \<noteq> None" and "\<And>db'. safe (k db') {Gmutex} (f db')"
    and "f = (\<lambda>db. db\<lparr>mdb_groups := map_assign (mdb_groups db) g (fst (set_insert (map_index [] (mdb_groups db) g) u))\<rparr>)"
  shows "safe (Do f k) {Gmutex} db"
proof (rule safe_access)
  fix db' assume "rely {Gmutex} db db'" and inv: "mem_inv db'"
  then have "map_find (mdb_users db') u \<noteq> None"
    using rely_groupsD(2) assms(1) by blast
  then have "mem_inv (f db')"
    using add_inv [OF inv] create_group_inv [OF inv] unfolding assms(3) by blast
  then show "mem_inv (f db') \<and> guar {Gmutex} db' (f db') \<and> safe (k db') {Gmutex} (f db')"
    using assms(2) by (simp add: assms(3))
qed

lemma safe_if: "(c \<Longrightarrow> safe p H db) \<Longrightarrow> (\<not> c \<Longrightarrow> safe q H db) \<Longrightarrow> safe (if c then p else q) H db"
  by simp

lemma safe_look:
  assumes "\<And>db'. rely H db db' \<Longrightarrow> safe (k db') H db'"
  shows "safe (Do id k) H db"
  using assms by simp

lemma safe_lock:
  assumes "m \<notin> H" and "\<And>db'. rely H db db' \<Longrightarrow> safe p (insert m H) db'"
  shows "safe (Lock m p) H db"
  using assms by simp

lemma safe_add: "safe (add_user_prog g u) {} db"
  unfolding add_user_prog_def
  by (intro safe_lock safe_look safe_if safe_user_check safe_insert [OF _ _ refl] safe_leave) simp_all

lemma safe_create_group: "safe (create_group_prog g u) {} db"
  unfolding create_group_prog_def
  by (intro safe_lock safe_look safe_if safe_user_check safe_insert [OF _ _ refl] safe_leave) simp_all

lemma safe_erase:
  assumes "map_find (mdb_groups db) g \<noteq> None" and "map_find (mdb_users db) u \<noteq> None"
    and "\<And>db'. safe (k db') {Gmutex} (f db')"
    and "f = (\<lambda>db. if \<not> set_find (map_index [] (mdb_groups db) g) u then db
      else db\<lparr>mdb_groups := map_assign (mdb_groups db) g (fst (set_erase (map_index [] (mdb_groups db) g) u))\<rparr>)"
  shows "safe (Do f k) {Gmutex} db"
proof (rule safe_access)
  fix db' assume r: "rely {Gmutex} db db'" and inv: "mem_inv db'"
  have found: "map_find (mdb_groups db') g \<noteq> None" "map_find (mdb_users db') u \<noteq> None"
    using rely_groupsD [OF r] assms(1,2) by auto
  then have "mem_inv (f db')"
    using remove_inv [OF inv] inv unfolding assms(4) by simp
  then show "mem_inv (f db') \<and> guar {Gmutex} db' (f db') \<and> safe (k db') {Gmutex} (f db')"
    using assms(3) by (simp add: assms(4))
qed

lemma safe_remove: "safe (remove_user_prog g u) {} db"
  unfolding remove_user_prog_def
  by (intro safe_lock safe_look safe_if safe_user_check safe_erase [OF _ _ _ refl] safe_leave)
    (simp_all add: rely_def)

lemma safe_create_user:
  assumes "length key = KEY_SIZE"
  shows "safe (create_user_prog u key) {} db"
  using create_user_inv [OF _ assms] unfolding create_user_prog_def
  by (auto intro!: safe_lock safe_access simp: guar_def grows_def map_le_def)

lemma safe_delete: "safe (delete_user_prog u) {} db" "safe delete_all_prog {} db"
  unfolding delete_user_prog_def delete_all_prog_def
  by (auto intro!: safe_lock safe_access delete_inv simp: guar_def insert_Diff_if)

lemma safe_reads: "safe (part_of_group_prog u g) {} db" "safe (get_keys_prog g) {} db"
  unfolding part_of_group_prog_def get_keys_prog_def
  by (auto intro!: safe_lock safe_look safe_keys)

text \<open>Every method keeps the discipline of the mutexes, alone or among others.\<close>

lemma safe_call: "call_key_ok c \<Longrightarrow> safe (call_prog c) {} db"
  by (cases c) (simp_all add: safe_add safe_create_group safe_create_user safe_delete safe_reads safe_remove)

section \<open>Every interleaving keeps the invariant\<close>

definition conc_ok :: "conc \<Rightarrow> bool" where
  "conc_ok s \<longleftrightarrow> mem_inv (cs_db s) \<and>
     (\<forall>i < length (cs_threads s). safe (cs_threads s ! i) (held s i) (cs_db s)) \<and>
     (\<forall>m i. cs_owner s m = Some i \<longrightarrow> i < length (cs_threads s))"

lemma conc_okD:
  assumes "conc_ok s"
  shows "mem_inv (cs_db s)" and "i < length (cs_threads s) \<Longrightarrow> safe (cs_threads s ! i) (held s i) (cs_db s)"
    and "m \<in> held s i \<Longrightarrow> i < length (cs_threads s)"
  using assms by (auto simp: conc_ok_def held_def)

lemma held_disjoint: "i \<noteq> j \<Longrightarrow> held s i \<inter> held s j = {}"
  by (auto simp: held_def)

lemma held_update [simp]:
  "held (s\<lparr>cs_threads := ts\<rparr>) j = held s j" "held (s\<lparr>cs_db := db\<rparr>) j = held s j"
  "cs_owner s m = None \<Longrightarrow> held (s\<lparr>cs_owner := (cs_owner s)(m \<mapsto> i)\<rparr>) j = (if j = i then insert m (held s i) else held s j)"
  "m \<in> held s i \<Longrightarrow> held (s\<lparr>cs_owner := (cs_owner s)(m := None)\<rparr>) j = (if j = i then held s i - {m} else held s j)"
  by (auto simp: held_def)

lemma conc_step_ok:
  assumes "conc_step s s'" and "conc_ok s"
  shows "conc_ok s'"
  using assms(1)
proof cases
  case (acquire i m p)
  then show ?thesis
    using assms(2) conc_okD(2) [OF assms(2), of i] by (auto simp: conc_ok_def nth_list_update)
next
  case (release i m p)
  then have "m \<in> held s i" "safe p (held s i - {m}) (cs_db s)"
    using conc_okD(2) [OF assms(2), of i] by auto
  with release show ?thesis
    using assms(2) by (auto simp: conc_ok_def nth_list_update split: if_splits)
next
  case (access i upd k)
  have eff: "mem_inv (upd (cs_db s))" "guar (held s i) (cs_db s) (upd (cs_db s))"
    "safe (k (cs_db s)) (held s i) (upd (cs_db s))"
    using conc_okD(2) [OF assms(2), of i] conc_okD(1) [OF assms(2)] access(2,3) by auto
  have "safe (cs_threads s ! j) (held s j) (upd (cs_db s))" if "j < length (cs_threads s)" "j \<noteq> i" for j
    using safe_rely [OF conc_okD(2) [OF assms(2) that(1)] guar_rely [OF eff(2)]] held_disjoint that(2) by simp
  with eff access assms(2) show ?thesis
    by (simp add: conc_ok_def nth_list_update)
qed

lemma conc_start_ok: "mem_inv db \<Longrightarrow> list_all (\<lambda>c. locked c \<and> call_key_ok c) cs \<Longrightarrow> conc_ok (conc_start db cs)"
  by (auto simp: conc_ok_def conc_start_def held_def list_all_length safe_call)

lemma conc_reachable_ok:
  assumes "conc_step\<^sup>*\<^sup>* s s'" and "conc_ok s"
  shows "conc_ok s'"
  using assms by induction (auto intro: conc_step_ok)

section \<open>Every schedule ends\<close>

text \<open>The rest of a program after one of its steps.\<close>

inductive next_prog :: "prog \<Rightarrow> prog \<Rightarrow> bool" where
  "next_prog p (Lock m p)"
| "next_prog p (Unlock m p)"
| "next_prog (k db) (Do upd k)"

inductive_simps next_prog_simps [simp]:
  "next_prog p (Ret r)" "next_prog p (Lock m q)" "next_prog p (Unlock m q)" "next_prog p (Do upd k)"

lemma next_prog_wf: "wf {(p, q). next_prog p q}"
proof (rule wfUNIVI)
  fix P :: "prog \<Rightarrow> bool" and p
  assume step: "\<forall>q. (\<forall>p. (p, q) \<in> {(p, q). next_prog p q} \<longrightarrow> P p) \<longrightarrow> P q"
  show "P p"
  proof (induction p)
    case (Do upd k)
    then have "\<forall>p. next_prog p (Do upd k) \<longrightarrow> P p" by auto
    with step show ?case by blast
  qed (use step in auto)
qed

lemma conc_step_next:
  assumes "conc_step s s'"
  obtains i p where "i < length (cs_threads s)" and "next_prog p (cs_threads s ! i)"
    and "cs_threads s' = (cs_threads s)[i := p]"
  using assms by cases (auto intro!: that)

lemma conc_step_mult:
  assumes "conc_step s s'"
  shows "(mset (cs_threads s'), mset (cs_threads s)) \<in> mult {(p, q). next_prog p q}"
proof -
  obtain i p where i: "i < length (cs_threads s)" "next_prog p (cs_threads s ! i)"
    "cs_threads s' = (cs_threads s)[i := p]"
    using conc_step_next [OF assms] .
  let ?M = "mset (cs_threads s) - {#cs_threads s ! i#}"
  have "mset (cs_threads s) = ?M + {#cs_threads s ! i#}"
    using i(1) by simp
  moreover have "mset (cs_threads s') = ?M + {#p#}"
    using i by (simp add: mset_update)
  ultimately show ?thesis
    using one_step_implies_mult [of "{#cs_threads s ! i#}" "{#p#}" "{(p, q). next_prog p q}" ?M] i(2) by simp
qed

lemma conc_step_wf: "wf {(s', s). conc_step s s'}"
  by (rule wf_subset [OF wf_inv_image [OF wf_mult [OF next_prog_wf], of "\<lambda>s. mset (cs_threads s)"]])
    (auto simp: inv_image_def conc_step_mult)

definition finished :: "conc \<Rightarrow> bool" where
  "finished s \<longleftrightarrow> (\<forall>p \<in> set (cs_threads s). \<exists>r. p = Ret r)"

definition stuck :: "conc \<Rightarrow> bool" where
  "stuck s \<longleftrightarrow> \<not> finished s \<and> (\<forall>s'. \<not> conc_step s s')"

lemma runs_to_rest: "\<exists>s'. conc_step\<^sup>*\<^sup>* s s' \<and> (finished s' \<or> stuck s')"
proof (induction s rule: wf_induct_rule [OF conc_step_wf])
  case (1 s)
  show ?case
  proof (cases "\<exists>s'. conc_step s s'")
    case True
    then show ?thesis using 1 by (metis (no_types, lifting) case_prodI mem_Collect_eq converse_rtranclp_into_rtranclp)
  qed (auto simp: stuck_def)
qed

section \<open>The order of the mutexes\<close>

text \<open>A program that never asks for the groups' mutex while it holds the users'.\<close>

primrec ordered :: "prog \<Rightarrow> mutex set \<Rightarrow> bool" where
  "ordered (Ret r) H = True"
| "ordered (Lock m p) H = ((m = Gmutex \<longrightarrow> Umutex \<notin> H) \<and> ordered p (insert m H))"
| "ordered (Unlock m p) H = ordered p (H - {m})"
| "ordered (Do upd k) H = (\<forall>db. ordered (k db) H)"

fun deletes :: "mem_call \<Rightarrow> bool" where
  "deletes (Call_Delete_User u) = True"
| "deletes Call_Delete_All = True"
| "deletes c = False"

lemma ordered_keys: "ordered (keys_prog us ret) {Gmutex}"
  by (induction us arbitrary: ret) (simp_all add: insert_Diff_if)

lemma ordered_call: "\<not> deletes c \<Longrightarrow> ordered (call_prog c) {}"
  by (cases c) (simp_all add: prog_defs leave_def user_check_def ordered_keys insert_Diff_if)

definition conc_ordered :: "conc \<Rightarrow> bool" where
  "conc_ordered s \<longleftrightarrow> (\<forall>i < length (cs_threads s). ordered (cs_threads s ! i) (held s i))"

lemma conc_step_ordered:
  assumes "conc_step s s'" and "conc_ok s" and "conc_ordered s"
  shows "conc_ordered s'"
  using assms(1)
proof cases
  case (release i m p)
  then have "m \<in> held s i"
    using conc_okD(2) [OF assms(2), of i] by auto
  with release assms(3) show ?thesis
    by (force simp: conc_ordered_def nth_list_update)
qed (use assms(3) in \<open>force simp: conc_ordered_def nth_list_update\<close>)+

lemma conc_start_ordered: "list_all (\<lambda>c. \<not> deletes c) cs \<Longrightarrow> conc_ordered (conc_start db cs)"
  by (auto simp: conc_ordered_def conc_start_def held_def list_all_length ordered_call)

lemma conc_reachable_ordered:
  assumes "conc_step\<^sup>*\<^sup>* s s'" and "conc_ok s" and "conc_ordered s"
  shows "conc_ok s' \<and> conc_ordered s'"
  using assms by induction (auto intro: conc_step_ok conc_step_ordered)

lemma owner_runs:
  assumes "conc_ok s" and "m \<in> held s i" and "\<forall>s'. \<not> conc_step s s'"
  obtains m' p j where "cs_threads s ! i = Lock m' p" and "m' \<notin> held s i" and "m' \<in> held s j"
proof -
  have i: "i < length (cs_threads s)" and safe: "safe (cs_threads s ! i) (held s i) (cs_db s)"
    using conc_okD [OF assms(1)] assms(2) by auto
  show thesis
  proof (cases "cs_threads s ! i")
    case (Lock m' p)
    then obtain j where "cs_owner s m' = Some j"
      using acquire [OF i Lock] assms(3) by fastforce
    with Lock safe show thesis using that [OF Lock] by (auto simp: held_def)
  qed (use safe assms(2,3) release [OF i] access [OF i] in auto)
qed

lemma ordered_not_stuck:
  assumes "conc_ok s" and "conc_ordered s"
  shows "\<not> stuck s"
proof
  assume "stuck s"
  then have none: "\<forall>s'. \<not> conc_step s s'" and "\<not> finished s" by (auto simp: stuck_def)
  have users_free: "Umutex \<notin> held s i" for i
  proof
    assume U: "Umutex \<in> held s i"
    then obtain m p where "cs_threads s ! i = Lock m p" "m \<notin> held s i"
      using owner_runs [OF assms(1) U none] by metis
    then show False
      using assms(2) U conc_okD(3) [OF assms(1) U] by (cases m) (auto simp: conc_ordered_def)
  qed
  have groups_free: "Gmutex \<notin> held s i" for i
    using owner_runs [OF assms(1) _ none, of Gmutex i] users_free by (metis mutex.exhaust)
  from \<open>\<not> finished s\<close> obtain i where i: "i < length (cs_threads s)" "\<nexists>r. cs_threads s ! i = Ret r"
    unfolding finished_def by (metis in_set_conv_nth)
  have "cs_owner s m = None" for m
    using users_free groups_free by (cases m) (auto simp: held_def)
  then show False
    using i none acquire [OF i(1)] release [OF i(1)] access [OF i(1)] by (cases "cs_threads s ! i") auto
qed

text \<open>C18: Calls that do not delete never block one another for good: from every state that any
  interleaving of them reaches, all of them can be run to their end, and no interleaving of
  calls goes on for ever.\<close>

theorem calls_complete:
  assumes "mem_inv db" and "list_all (\<lambda>c. locked c \<and> call_key_ok c) cs" and "list_all (\<lambda>c. \<not> deletes c) cs"
    and "conc_step\<^sup>*\<^sup>* (conc_start db cs) s"
  shows "wf {(s', s). conc_step s s'} \<and> \<not> stuck s \<and> (\<exists>s'. conc_step\<^sup>*\<^sup>* s s' \<and> finished s')"
proof -
  have ok: "conc_ok s' \<and> conc_ordered s'" if "conc_step\<^sup>*\<^sup>* s s'" for s'
    using conc_reachable_ordered [OF rtranclp_trans [OF assms(4) that]]
      conc_start_ok [OF assms(1,2)] conc_start_ordered [OF assms(3)] by blast
  then show ?thesis
    using runs_to_rest [of s] ordered_not_stuck conc_step_wf by blast
qed

text \<open>C37: \<open>delete_user\<close> takes the users' mutex before the groups', every other method the groups'
  first: while \<open>add_user_to_group\<close> on an existing group is between its two guards,
  \<open>delete_user\<close> can take the users' mutex, and then neither call ever goes on.\<close>

theorem add_and_delete_deadlock:
  assumes "map_find (mdb_groups db) g \<noteq> None"
  shows "\<exists>s. conc_step\<^sup>*\<^sup>* (conc_start db [Call_Add g u, Call_Delete_User v]) s \<and> stuck s \<and>
    cs_owner s Gmutex = Some 0 \<and> cs_owner s Umutex = Some 1"
proof -
  define s0 where "s0 = conc_start db [Call_Add g u, Call_Delete_User v]"
  obtain k where add: "call_prog (Call_Add g u) = Lock Gmutex (Do id k)" and "\<exists>p. k db = Lock Umutex p"
    using assms by (simp add: add_user_prog_def user_check_def)
  then obtain p where p: "k db = Lock Umutex p" by blast
  obtain q where del: "call_prog (Call_Delete_User v) = Lock Umutex (Lock Gmutex q)"
    by (simp add: delete_user_prog_def)
  define s1 where "s1 = s0\<lparr>cs_owner := (cs_owner s0)(Gmutex \<mapsto> 0), cs_threads := (cs_threads s0)[0 := Do id k]\<rparr>"
  define s2 where "s2 = s1\<lparr>cs_db := id (cs_db s1), cs_threads := (cs_threads s1)[0 := k (cs_db s1)]\<rparr>"
  define s3 where "s3 = s2\<lparr>cs_owner := (cs_owner s2)(Umutex \<mapsto> 1), cs_threads := (cs_threads s2)[1 := Lock Gmutex q]\<rparr>"
  have start: "cs_threads s0 = [Lock Gmutex (Do id k), Lock Umutex (Lock Gmutex q)]" "cs_owner s0 = (\<lambda>_. None)"
    "cs_db s0 = db"
    using add del by (simp_all add: s0_def conc_start_def)
  have "conc_step s0 s1" unfolding s1_def by (rule acquire) (simp_all add: start)
  moreover have "conc_step s1 s2" unfolding s2_def by (rule access) (simp_all add: s1_def start id_def)
  moreover have "conc_step s2 s3" unfolding s3_def by (rule acquire) (simp_all add: s2_def s1_def start)
  ultimately have reach: "conc_step\<^sup>*\<^sup>* s0 s3" by (auto intro: rtranclp.rtrancl_into_rtrancl)
  have ts: "cs_threads s3 = [Lock Umutex p, Lock Gmutex q]" "cs_owner s3 Gmutex = Some 0" "cs_owner s3 Umutex = Some 1"
    by (simp_all add: s3_def s2_def s1_def start p)
  have "stuck s3"
    unfolding stuck_def finished_def using ts by (auto simp: less_Suc_eq elim!: conc_stepE)
  with reach ts show ?thesis unfolding s0_def by blast
qed

section \<open>Serial order\<close>

text \<open>A program that carries out the call \<open>c\<close>: one of its accesses has the whole effect of \<open>c\<close>
  on the database it finds there and fixes the result (\<open>st\<close> is the result once that access
  is made), the other accesses change nothing, and \<open>st\<close> is what it returns, whatever the
  others do meanwhile within what its mutexes allow.\<close>

primrec serial :: "prog \<Rightarrow> mem_call \<Rightarrow> call_result option \<Rightarrow> mutex set \<Rightarrow> memdb \<Rightarrow> bool" where
  "serial (Ret r) c st H db = (st = Some r)"
| "serial (Lock m p) c st H db = (\<forall>db'. rely H db db' \<longrightarrow> serial p c st (insert m H) db')"
| "serial (Unlock m p) c st H db = (\<forall>db'. rely H db db' \<longrightarrow> serial p c st (H - {m}) db')"
| "serial (Do upd k) c st H db = (\<forall>db'. rely H db db' \<longrightarrow> mem_inv db' \<longrightarrow>
     upd db' = db' \<and> serial (k db') c st H db' \<or>
     st = None \<and> upd db' = snd (call_alone c db') \<and> serial (k db') c (Some (fst (call_alone c db'))) H (upd db'))"

lemma serial_rely: "serial p c st H db \<Longrightarrow> rely H db db' \<Longrightarrow> serial p c st H db'"
  by (cases p) (auto intro: rely_trans)

lemma serial_leave [simp]: "serial (leave r) c (Some (R_Unit r)) {Gmutex} db"
  by (simp add: leave_def)

lemma serial_lock: "(\<And>db'. rely H db db' \<Longrightarrow> serial p c st (insert m H) db') \<Longrightarrow> serial (Lock m p) c st H db"
  by simp

lemma serial_look:
  assumes "\<And>db'. rely H db db' \<Longrightarrow> mem_inv db' \<Longrightarrow>
    serial (k db') c st H db' \<or> st = None \<and> call_alone c db' = (r db', db') \<and> serial (k db') c (Some (r db')) H db'"
  shows "serial (Do id k) c st H db"
  using assms by fastforce

lemma serial_effect:
  assumes "\<And>db'. rely H db db' \<Longrightarrow> mem_inv db' \<Longrightarrow>
    \<exists>r. call_alone c db' = (r, upd db') \<and> serial (k db') c (Some r) H (upd db')"
  shows "serial (Do upd k) c None H db"
  using assms by fastforce

lemma rely_weaken: "rely {Umutex, Gmutex} db db' \<Longrightarrow> rely {Gmutex} db db'"
  by (simp add: rely_def)

text \<open>The look-up of a user, under both mutexes: a missing user decides the call.\<close>

lemma serial_user_check:
  assumes "\<And>db'. rely {Gmutex} db db' \<Longrightarrow> map_find (mdb_users db') u \<noteq> None \<Longrightarrow> serial p c None {Gmutex} db'"
    and "\<And>db'. rely {Gmutex} db db' \<Longrightarrow> map_find (mdb_users db') u = None \<Longrightarrow>
      call_alone c db' = (R_Unit (Inl e), db')"
  shows "serial (user_check u e p) c None {Gmutex} db"
  unfolding user_check_def
proof (intro serial_lock serial_look [where r = "\<lambda>_. R_Unit (Inl e)"], goal_cases)
  case (1 db1 db2)
  then have r: "rely {Gmutex} db db2" using rely_trans rely_weaken by blast
  have both: "rely {Gmutex} db db3" if "rely {Umutex, Gmutex} db2 db3" for db3
    using rely_trans [OF r rely_weaken [OF that]] .
  show ?case
  proof (cases "map_find (mdb_users db2) u = None")
    case True
    with assms(2) [OF r] show ?thesis by (simp add: insert_Diff_if)
  next
    case False
    then have "serial p c None {Gmutex} db3" if "rely {Umutex, Gmutex} db2 db3" for db3
      using assms(1) [OF both [OF that]] that by (simp add: rely_def)
    with False show ?thesis by (auto simp: insert_Diff_if)
  qed
qed

lemma serial_add: "serial (add_user_prog g u) (Call_Add g u) None {} db"
  unfolding add_user_prog_def
proof (intro serial_lock serial_look [where r = "\<lambda>db. fst (call_alone (Call_Add g u) db)"], goal_cases)
  case (1 db1 db2)
  show ?case
  proof (cases "map_find (mdb_groups db2) g = None")
    case False
    then show ?thesis
      by (intro disjI1) (auto intro!: serial_user_check serial_effect simp: rely_def mem_add_user_to_group_def
        case_prod_beta Let_def growsD)
  qed (simp add: mem_add_user_to_group_def)
qed

lemma serial_create_group: "serial (create_group_prog g u) (Call_Create_Group g u) None {} db"
  unfolding create_group_prog_def
proof (intro serial_lock serial_look [where r = "\<lambda>db. fst (call_alone (Call_Create_Group g u) db)"], goal_cases)
  case (1 db1 db2)
  show ?case
  proof (cases "map_find (mdb_groups db2) g = None")
    case True
    then show ?thesis
      by (intro disjI1) (auto intro!: serial_user_check serial_effect simp: rely_def mem_create_group_def growsD)
  qed (auto simp: mem_create_group_def)
qed

lemma serial_remove: "serial (remove_user_prog g u) (Call_Remove g u) None {} db"
  unfolding remove_user_prog_def
proof (intro serial_lock serial_look [where r = "\<lambda>db. fst (call_alone (Call_Remove g u) db)"], goal_cases)
  case (1 db1 db2)
  show ?case
  proof (cases "map_find (mdb_groups db2) g = None")
    case False
    then show ?thesis
      by (intro disjI1) (auto intro!: serial_user_check serial_effect simp: rely_def mem_remove_user_from_group_def
        case_prod_beta Let_def growsD)
  qed (auto simp: mem_remove_user_from_group_def)
qed

lemma serial_create_user: "serial (create_user_prog u key) (Call_Create_User u key) None {} db"
  unfolding create_user_prog_def
  by (intro serial_lock serial_effect) (auto simp: mem_create_user_def)

lemma serial_delete:
  "serial (delete_user_prog u) (Call_Delete_User u) None {} db"
  "serial delete_all_prog Call_Delete_All None {} db"
  unfolding delete_user_prog_def delete_all_prog_def
  by (intro serial_lock serial_effect; simp add: mem_delete_user_def mem_delete_all_data_def)+

lemma serial_part_of: "serial (part_of_group_prog u g) (Call_Part_Of u g) None {} db"
  unfolding part_of_group_prog_def
  by (intro serial_effect) (auto simp: mem_is_user_part_of_group_def)

text \<open>The keys of the members are decided when the group is read: its members are users, and
  their keys stay while the groups' mutex is held.\<close>

lemma collect_keys_le:
  assumes "map_find us \<subseteq>\<^sub>m map_find us'" and "set uids \<subseteq> dom (map_find us)"
  shows "collect_keys us' uids = collect_keys us uids"
  using assms(2)
proof (induction uids)
  case (Cons u uids)
  then obtain k where "map_find us u = Some k" by auto
  moreover then have "map_find us' u = Some k"
    using assms(1) by (metis domI map_le_def)
  ultimately show ?case using Cons by simp
qed simp

lemma serial_keys:
  assumes "r = R_Keys (Inr (ret @ collect_keys (mdb_users db) us))"
    and "set us \<subseteq> dom (map_find (mdb_users db))"
  shows "serial (keys_prog us ret) c (Some r) {Gmutex} db"
  using assms
proof (induction us arbitrary: ret db)
  case (Cons u us)
  have *: "serial (keys_prog us (case map_find (mdb_users db2) u of None \<Rightarrow> ret | Some k \<Rightarrow> ret @ [copy_key k]))
      c (Some r) {Gmutex} db3" if rs: "rely {Gmutex} db db2" "rely {Gmutex} db2 db3" for db2 db3
  proof -
    have le: "map_find (mdb_users db) \<subseteq>\<^sub>m map_find (mdb_users db2)" "map_find (mdb_users db2) \<subseteq>\<^sub>m map_find (mdb_users db3)"
      using rs by (simp_all add: rely_def grows_def)
    then have le3: "map_find (mdb_users db) \<subseteq>\<^sub>m map_find (mdb_users db3)" by (rule map_le_trans)
    obtain k where k: "map_find (mdb_users db) u = Some k" using Cons.prems(2) by auto
    with le(1) have "map_find (mdb_users db2) u = Some k" by (metis domI map_le_def)
    moreover have "set us \<subseteq> dom (map_find (mdb_users db3))"
      using Cons.prems(2) map_le_implies_dom_le [OF le3] by (meson order_trans set_subset_Cons)
    moreover have "r = R_Keys (Inr ((ret @ [copy_key k]) @ collect_keys (mdb_users db3) us))"
      using Cons.prems k collect_keys_le [OF le3, of us] by simp
    ultimately show ?thesis using Cons.IH [of "ret @ [copy_key k]" db3] by simp
  qed
  have "rely {Gmutex} db db2" if "rely {Gmutex} db db1" "rely {Umutex, Gmutex} db1 db2" for db1 db2
    using rely_trans [OF that(1) rely_weaken [OF that(2)]] .
  then show ?case
    using * rely_weaken by (simp add: insert_Diff_if)
qed simp

lemma serial_get_keys: "serial (get_keys_prog g) (Call_Get_Keys g) None {} db"
  unfolding get_keys_prog_def
proof (intro serial_lock serial_look [where r = "\<lambda>db. fst (call_alone (Call_Get_Keys g) db)"] disjI2, goal_cases)
  case (1 db1 db2)
  then have "set M \<subseteq> dom (map_find (mdb_users db2))" if "map_find (mdb_groups db2) g = Some M" for M
    using mem_invD(4) [OF _ that] by blast
  then show ?case
    by (cases "map_find (mdb_groups db2) g") (auto simp: mem_get_keys_of_group_def intro: serial_keys)
qed

lemma serial_call: "serial (call_prog c) c None {} db"
  by (cases c) (simp_all add: serial_add serial_create_group serial_remove serial_create_user serial_delete
    serial_part_of serial_get_keys)

text \<open>The calls carried out one after the other, in a given order of their threads.\<close>

fun run_order :: "mem_call list \<Rightarrow> nat list \<Rightarrow> memdb \<Rightarrow> (nat \<times> call_result) list \<times> memdb" where
  "run_order cs [] db = ([], db)"
| "run_order cs (i # is) db =
     (let (r, db') = call_alone (cs ! i) db; (rs, db'') = run_order cs is db' in ((i, r) # rs, db''))"

lemma run_order_snoc:
  "run_order cs (is @ [i]) db = (let (rs, db') = run_order cs is db; (r, db'') = call_alone (cs ! i) db' in
     (rs @ [(i, r)], db''))"
  by (induction "is" arbitrary: db) (simp_all add: case_prod_beta Let_def)

lemma run_order_threads: "run_order cs is db = (rs, db') \<Longrightarrow> map fst rs = is"
  by (induction "is" arbitrary: db rs db') (auto simp: Let_def split: prod.splits)

text \<open>A state of an interleaving and the order in which calls have had their effect so far.\<close>

definition serialized :: "memdb \<Rightarrow> mem_call list \<Rightarrow> conc \<Rightarrow> nat list \<Rightarrow> bool" where
  "serialized db cs s is \<longleftrightarrow> distinct is \<and> set is \<subseteq> {..<length cs} \<and> length (cs_threads s) = length cs \<and>
     snd (run_order cs is db) = cs_db s \<and>
     (\<forall>i < length cs. serial (cs_threads s ! i) (cs ! i) (map_of (fst (run_order cs is db)) i) (held s i) (cs_db s))"

lemma serialized_start: "serialized db cs (conc_start db cs) []"
  by (simp add: serialized_def conc_start_def held_def serial_call)

lemma serializedD:
  assumes "serialized db cs s is" and "i < length cs"
  shows "serial (cs_threads s ! i) (cs ! i) (map_of (fst (run_order cs is db)) i) (held s i) (cs_db s)"
  using assms by (simp add: serialized_def)

lemma order_lookup:
  "map_of (fst (run_order cs is db)) i = None \<longleftrightarrow> i \<notin> set is"
  using run_order_threads [of cs "is" db] by (metis map_of_eq_None_iff set_map prod.collapse)

text \<open>The access that carries out a call appends its thread to the order.\<close>

lemma serialized_access:
  assumes ser: "serialized db cs s is" and ok: "conc_ok s" and i: "i < length (cs_threads s)"
    and at: "cs_threads s ! i = Do upd k"
  shows "\<exists>is'. serialized db cs (s\<lparr>cs_db := upd (cs_db s), cs_threads := (cs_threads s)[i := k (cs_db s)]\<rparr>) is'"
proof -
  let ?rs = "fst (run_order cs is db)"
  have n: "i < length cs" "length (cs_threads s) = length cs" using ser i by (auto simp: serialized_def)
  have guar: "guar (held s i) (cs_db s) (upd (cs_db s))"
    using conc_okD(1,2) [OF ok] i at by fastforce
  have others: "serial (cs_threads s ! j) (cs ! j) (map_of ?rs j) (held s j) (upd (cs_db s))"
    if "j < length cs" "j \<noteq> i" for j
    using serial_rely [OF serializedD [OF ser that(1)] guar_rely [OF guar held_disjoint]] that(2) by blast
  consider (same) "upd (cs_db s) = cs_db s" "serial (k (cs_db s)) (cs ! i) (map_of ?rs i) (held s i) (cs_db s)"
    | (effect) "map_of ?rs i = None" "upd (cs_db s) = snd (call_alone (cs ! i) (cs_db s))"
      "serial (k (cs_db s)) (cs ! i) (Some (fst (call_alone (cs ! i) (cs_db s)))) (held s i) (upd (cs_db s))"
    using serializedD [OF ser n(1), unfolded at serial.simps, rule_format, OF rely_refl conc_okD(1) [OF ok]] by metis
  then show ?thesis
  proof cases
    case same
    have "serialized db cs (s\<lparr>cs_db := cs_db s, cs_threads := (cs_threads s)[i := k (cs_db s)]\<rparr>) is"
      using ser n same(2) by (simp add: serialized_def nth_list_update)
    then show ?thesis using same(1) by auto
  next
    case effect
    have snoc: "run_order cs (is @ [i]) db = (?rs @ [(i, fst (call_alone (cs ! i) (cs_db s)))], upd (cs_db s))"
      using ser effect(2) by (simp add: run_order_snoc serialized_def case_prod_beta Let_def)
    have look: "map_of (?rs @ [(i, r)]) j = (if j = i then Some r else map_of ?rs j)" for j r
      using effect(1) by (simp add: map_add_def split: option.split)
    have "serialized db cs (s\<lparr>cs_db := upd (cs_db s), cs_threads := (cs_threads s)[i := k (cs_db s)]\<rparr>) (is @ [i])"
      unfolding serialized_def snoc using ser n others effect(1,3)
      by (auto simp: serialized_def nth_list_update order_lookup look simp del: map_of_append)
    then show ?thesis by blast
  qed
qed

lemma serialized_step:
  assumes "conc_step s s'" and "serialized db cs s is" and "conc_ok s"
  shows "\<exists>is'. serialized db cs s' is'"
  using assms(1)
proof cases
  case (acquire i m p)
  then have "i < length cs" using assms(2) by (simp add: serialized_def)
  with acquire serializedD [OF assms(2) this] assms(2) show ?thesis
    by (intro exI [of _ "is"]) (auto simp: serialized_def nth_list_update)
next
  case (release i m p)
  then have "m \<in> held s i" "i < length cs"
    using conc_okD(2) [OF assms(3), of i] assms(2) by (auto simp: serialized_def)
  with release serializedD [OF assms(2), of i] assms(2) show ?thesis
    by (intro exI [of _ "is"]) (auto simp: serialized_def nth_list_update)
next
  case (access i upd k)
  then show ?thesis using serialized_access [OF assms(2,3)] by simp
qed

lemma serialized_reachable:
  assumes "conc_step\<^sup>*\<^sup>* s s'" and "conc_ok s" and "\<exists>is. serialized db cs s is"
  shows "\<exists>is. serialized db cs s' is"
  using assms by induction (use conc_reachable_ok serialized_step in blast)+

text \<open>C5: Calls on the database from any number of threads are atomic: whatever the interleaving,
  once all have returned, the database and the result of every call (exceptions and their
  messages included) are those of carrying the calls out one after the other in some order,
  and both mutexes are free.\<close>

theorem interleaved_calls_serialize:
  assumes "mem_inv db" and "list_all (\<lambda>c. locked c \<and> call_key_ok c) cs"
    and "conc_step\<^sup>*\<^sup>* (conc_start db cs) s" and "finished s"
  shows "\<exists>order rs. distinct order \<and> set order = {..<length cs} \<and>
    run_order cs order db = (rs, cs_db s) \<and> (\<forall>(i, r) \<in> set rs. cs_threads s ! i = Ret r) \<and>
    (\<forall>m. cs_owner s m = None)"
proof -
  have start: "conc_ok (conc_start db cs)"
    by (rule conc_start_ok [OF assms(1,2)])
  note ok = conc_reachable_ok [OF assms(3) start]
  obtain order where order: "serialized db cs s order"
    using serialized_reachable [OF assms(3) start] serialized_start by blast
  obtain rs where rs: "run_order cs order db = (rs, cs_db s)"
    using order by (metis serialized_def prod.collapse)
  have ret: "\<exists>r. cs_threads s ! i = Ret r \<and> map_of rs i = Some r" if i: "i < length cs" for i
  proof -
    have "cs_threads s ! i \<in> set (cs_threads s)" using order i by (simp add: serialized_def)
    then obtain r where "cs_threads s ! i = Ret r" using assms(4) by (auto simp: finished_def)
    then show ?thesis using serializedD [OF order i] rs by simp
  qed
  have "set order = {..<length cs}"
  proof
    show "set order \<subseteq> {..<length cs}" using order by (simp add: serialized_def)
    show "{..<length cs} \<subseteq> set order"
      using ret order_lookup [of cs order db] rs by (metis fst_conv lessThan_iff option.distinct(1) subsetI)
  qed
  moreover have "cs_threads s ! i = Ret r" if "(i, r) \<in> set rs" for i r
  proof -
    have "distinct (map fst rs)" "i \<in> set order"
      using run_order_threads [OF rs] order that by (force simp: serialized_def)+
    then have "map_of rs i = Some r" "i < length cs"
      using that order by (auto simp: serialized_def)
    then show ?thesis using ret by fastforce
  qed
  moreover have "m \<notin> held s i" for m i
    using conc_okD(2) [OF ok, of i] conc_okD(3) [OF ok, of m i] assms(4) by (metis empty_iff finished_def nth_mem safe.simps(1))
  then have "cs_owner s m = None" for m
    by (cases "cs_owner s m") (auto simp: held_def)
  ultimately show ?thesis using rs order unfolding serialized_def by blast
qed

text \<open>In every state that an interleaving of calls reaches, finished or not, the database
  satisfies its invariant, and so members of groups are users even between the steps of
  a call.\<close>

lemma interleavings_keep_invariant:
  assumes "mem_inv db" and "list_all (\<lambda>c. locked c \<and> call_key_ok c) cs"
    and "conc_step\<^sup>*\<^sup>* (conc_start db cs) s"
  shows "mem_inv (cs_db s) \<and> (\<forall>g M u. map_find (mdb_groups (cs_db s)) g = Some M \<longrightarrow> u \<in> set M \<longrightarrow>
    map_find (mdb_users (cs_db s)) u \<noteq> None)"
proof -
  have "mem_inv (cs_db s)"
    by (rule conc_okD(1) [OF conc_reachable_ok [OF assms(3) conc_start_ok [OF assms(1,2)]]])
  then show ?thesis using mem_invD(4) by fastforce
qed

section \<open>Samples\<close>

definition locks_db :: memdb where
  "locks_db = \<lparr>mdb_groups = [(''team'', [''ann''])], mdb_users = [(''ann'', replicate 32 CHR ''a''), (''bob'', replicate 32 CHR ''b'')]\<rparr>"

lemma locks_db_inv: "mem_inv locks_db"
proof -
  have "locks_db = snd (mem_create_group ''team'' ''ann'' (snd (mem_create_user ''bob'' (replicate 32 CHR ''b'')
      (snd (mem_create_user ''ann'' (replicate 32 CHR ''a'') memdb_empty)))))"
    by code_simp
  then show ?thesis
    using mem.apply_inv [of _ "Create_Group ''team'' ''ann''"] mem.apply_inv [of _ "Create_User ''bob'' (replicate 32 CHR ''b'')"]
      mem.apply_inv [of _ "Create_User ''ann'' (replicate 32 CHR ''a'')"] memdb_empty_inv
    by (simp add: mem_ops_def KEY_SIZE_def) metis
qed

definition locks_calls :: "mem_call list" where
  "locks_calls = [Call_Add ''team'' ''bob'', Call_Get_Keys ''team'', Call_Create_User ''eve'' (replicate 32 CHR ''e'')]"

lemma locks_calls_ok:
  "list_all (\<lambda>c. locked c \<and> call_key_ok c) locks_calls" "list_all (\<lambda>c. \<not> deletes c) locks_calls"
  by (simp_all add: locks_calls_def KEY_SIZE_def)

lemma locks_calls_finish: "\<exists>s. conc_step\<^sup>*\<^sup>* (conc_start locks_db locks_calls) s \<and> finished s"
  using runs_to_rest [of "conc_start locks_db locks_calls"] ordered_not_stuck conc_reachable_ordered
    conc_start_ok [OF locks_db_inv locks_calls_ok(1)] conc_start_ordered [OF locks_calls_ok(2), of locks_db] by blast

theorem calls_complete_witness:
  "\<exists>s. conc_step\<^sup>*\<^sup>* (conc_start locks_db locks_calls) s \<and> finished s"
  using calls_complete [OF locks_db_inv locks_calls_ok rtranclp.rtrancl_refl] by blast

theorem add_and_delete_deadlock_witness:
  "\<exists>s. conc_step\<^sup>*\<^sup>* (conc_start locks_db [Call_Add ''team'' ''bob'', Call_Delete_User ''ann'']) s \<and> stuck s"
  using add_and_delete_deadlock [of locks_db "''team''" "''bob''" "''ann''"] by (auto simp: locks_db_def)

theorem interleaved_calls_serialize_witness:
  "\<exists>s order rs. conc_step\<^sup>*\<^sup>* (conc_start locks_db locks_calls) s \<and> distinct order \<and> set order = {..<3} \<and>
    run_order locks_calls order locks_db = (rs, cs_db s)"
proof -
  obtain s where s: "conc_step\<^sup>*\<^sup>* (conc_start locks_db locks_calls) s" "finished s"
    using locks_calls_finish by blast
  have "length locks_calls = 3" by (simp add: locks_calls_def)
  then show ?thesis
    using interleaved_calls_serialize [OF locks_db_inv locks_calls_ok(1) s] s(1) by metis
qed

end
