(* ===== verification/Server_Correctness.thy ===== *)
theory Server_Correctness
  imports Event_Loop
begin

text \<open>
  The server as a whole: event loop, workers, connections, HTTP decoder and monitor. In every
  run of the process the service has processed some sequence of requests, the answers it gave
  are what was written to the connections, in the same order, and so the database represents
  the abstract store after the calls that the requests stand for.
\<close>

section \<open>What a step of the server has served\<close>

definition served ::
  "build \<Rightarrow> http_strings \<Rightarrow> 'db database_ops \<Rightarrow> 'e crypto \<Rightarrow> char \<Rightarrow> (response option \<Rightarrow> string) \<Rightarrow>
     request list \<Rightarrow> (('db, 'e) anonymbe, 'n, 'd) enclave \<Rightarrow> (('db, 'e) anonymbe, 'n, 'd) enclave \<Rightarrow> bool" where
  "served bd H DB C point to_text rqs en en' \<longleftrightarrow>
     en_service en' = snd (serve bd H DB C point rqs (en_service en)) \<and>
     en_requests en' = en_requests en + of_nat (length rqs) \<and>
     writes (tl_log (en_tls en')) = writes (tl_log (en_tls en)) @
       map to_text (fst (serve bd H DB C point rqs (en_service en)))"

text \<open>Steps that serve nothing.\<close>

definition idle :: "('s, 'n, 'd) enclave \<Rightarrow> ('s, 'n, 'd) enclave \<Rightarrow> bool" where
  "idle en en' \<longleftrightarrow> en_service en' = en_service en \<and> en_requests en' = en_requests en \<and>
     writes (tl_log (en_tls en')) = writes (tl_log (en_tls en))"

lemma idle_served: "idle en en' \<Longrightarrow> served bd H DB C point to_text [] en en'"
  by (simp add: idle_def served_def)

lemma serve_append:
  "serve bd H DB C point (rqs @ rqs') ab =
     (let (as, ab1) = serve bd H DB C point rqs ab; (as', ab2) = serve bd H DB C point rqs' ab1 in (as @ as', ab2))"
  by (induction rqs arbitrary: ab) (simp_all add: case_prod_beta Let_def)

lemma served_trans:
  "served bd H DB C point to_text rqs en en1 \<Longrightarrow> served bd H DB C point to_text rqs' en1 en2 \<Longrightarrow>
   served bd H DB C point to_text (rqs @ rqs') en en2"
  by (simp add: served_def serve_append case_prod_beta Let_def)

lemma idle_trans:
  "idle en en1 \<Longrightarrow> idle en1 en2 \<Longrightarrow> idle en en2"
  by (simp add: idle_def)

lemma idle_then: "idle en en1 \<Longrightarrow> served bd H DB C point to_text rqs en1 en2 \<Longrightarrow> served bd H DB C point to_text rqs en en2"
  by (simp add: idle_def served_def)

lemma then_idle: "served bd H DB C point to_text rqs en en1 \<Longrightarrow> idle en1 en2 \<Longrightarrow> served bd H DB C point to_text rqs en en2"
  by (simp add: idle_def served_def)

section \<open>Connections write nothing by themselves\<close>

lemma writes_calls [simp]:
  "writes (Call_SSL_read s # cs) = writes cs" "writes (Call_SSL_new s # cs) = writes cs"
  "writes (Call_SSL_accept s # cs) = writes cs" "writes (Call_SSL_set_fd s fd # cs) = writes cs"
  "writes (Call_SSL_free s # cs) = writes cs" "writes (Call_close fd # cs) = writes cs"
  by (simp_all add: writes_def)

lemma writes_close_calls [simp]: "writes (close_calls c) = []"
  by (simp add: close_calls_def)

lemma writes_destroy [simp]: "writes (tl_log (conn_destroy c w)) = writes (tl_log w)"
  by (simp add: conn_destroy_def conn_close_def calls_def)

lemma writes_erase [simp]: "writes (tl_log (erase_connection fd w)) = writes (tl_log w)"
  by (simp add: erase_connection_def split: option.split)

lemma writes_store [simp]: "writes (tl_log (store_connection fd c w)) = writes (tl_log w)"
  by (simp add: store_connection_def)

lemma writes_insert [simp]: "writes (tl_log (insert_connection fd c w)) = writes (tl_log w)"
  by (simp add: insert_connection_def case_prod_beta Let_def split: option.split)

lemma writes_add [simp]: "writes (tl_log (snd (addConnection L d fd w))) = writes (tl_log w)"
  by (simp add: addConnection_def accept_connection_def SSL_new_def SSL_accept_def err_str_def SSL_get_error_def
      calls_def case_prod_beta Let_def)

lemma writes_remove [simp]: "writes (tl_log (snd (removeConnection fd w))) = writes (tl_log w)"
  by (simp add: removeConnection_def split: option.split)

lemma writes_recv [simp]: "writes (tl_log (snd (snd (conn_recv L c n w)))) = writes (tl_log w)"
  by (simp add: conn_recv_def SSL_read_def conn_close_def err_str_def SSL_get_error_def calls_def case_prod_beta Let_def)

lemma accept_idle: "idle en (snd (ecall_tls_accept L D fd en))"
  by (simp add: idle_def ecall_tls_accept_def case_prod_beta Let_def)

lemma recv_catch_idle: "idle en (snd (recv_catch fd r en))"
  using writes_remove [of fd "en_tls en"]
  by (cases "removeConnection fd (en_tls en)")
    (auto simp: idle_def recv_catch_def split: recv_end.split tls_exn.split sum.split)

section \<open>Requests\<close>

lemma request_loop_served:
  assumes "request_loop L D srv c en = Some y" and "writes_succeed L" and "srv = monitor bd H DB C point to_text"
  shows "\<exists>rqs. served bd H DB C point to_text rqs en (snd (snd y))"
proof -
  have "writes_succeed L \<longrightarrow> srv = monitor bd H DB C point to_text \<longrightarrow>
      (\<exists>rqs. served bd H DB C point to_text rqs en (snd (snd y)))"
  proof (rule request_loop.raw_induct [where P = "\<lambda>L D srv c en y. writes_succeed L \<longrightarrow>
      srv = monitor bd H DB C point to_text \<longrightarrow> (\<exists>rqs. served bd H DB C point to_text rqs en (snd (snd y)))",
      OF _ assms(1)], goal_cases)
    case (1 rl L D srv c en y)
    show ?case
    proof (intro impI)
      assume L: "writes_succeed L" and srv: "srv = monitor bd H DB C point to_text"
      obtain g d where g: "hd_get D (ic_decoder c) = (g, d)" by fastforce
      show "\<exists>rqs. served bd H DB C point to_text rqs en (snd (snd y))"
      proof (cases "\<exists>rq. g = Inr (Some rq)")
        case False
        then have "idle en (snd (snd y))"
          using 1(2) g by (auto simp: idle_def split: sum.splits option.splits)
        then show ?thesis using idle_served by blast
      next
        case True
        then obtain rq where rq: "g = Inr (Some rq)" by blast
        obtain a ab where a: "process_input bd H DB C point rq (en_service en) = (a, ab)" by fastforce
        define en1 where "en1 = en\<lparr>en_service := ab, en_requests := en_requests en + 1,
          en_tls := snd (conn_send L c (to_text a) (en_tls en))\<rparr>"
        have "rl L D srv (c\<lparr>ic_decoder := d\<rparr>) en1 = Some y"
          using 1(2) g rq a srv by (simp add: monitor_def en1_def)
        then obtain rqs where "served bd H DB C point to_text rqs en1 (snd (snd y))"
          using 1(1) L srv by blast
        moreover have "served bd H DB C point to_text [rq] en en1"
          using conn_send_once [OF L] a by (simp add: served_def en1_def)
        ultimately show ?thesis using served_trans by blast
      qed
    qed
  qed
  then show ?thesis using assms(2,3) by blast
qed

lemma process_chunk_served:
  assumes "process_chunk catches L D srv input c en = Some (x, c', en')" and "writes_succeed L"
    and "srv = monitor bd H DB C point to_text"
  shows "\<exists>rqs. served bd H DB C point to_text rqs en en'"
proof (cases "hd_add D input (ic_decoder c)")
  case (Pair r d)
  show ?thesis
  proof (cases r)
    case (Inl e)
    with assms(1) Pair have "en' = en" by (auto simp: process_chunk_def)
    then have "idle en en'" by (simp add: idle_def)
    then show ?thesis using idle_served by blast
  next
    case (Inr u)
    with assms(1) Pair obtain x' where "request_loop L D srv (c\<lparr>ic_decoder := d\<rparr>) en = Some (x', c', en')"
      by (auto simp: process_chunk_def)
    then show ?thesis using request_loop_served [OF _ assms(2,3)] by fastforce
  qed
qed

lemma recv_loop_served:
  assumes "recv_loop catches L D srv fd c en = Some y" and "writes_succeed L" and "srv = monitor bd H DB C point to_text"
  shows "\<exists>rqs. served bd H DB C point to_text rqs en (snd y)"
proof -
  have "writes_succeed L \<longrightarrow> srv = monitor bd H DB C point to_text \<longrightarrow>
      (\<exists>rqs. served bd H DB C point to_text rqs en (snd y))"
  proof (rule recv_loop.raw_induct [where P = "\<lambda>catches L D srv fd c en y. writes_succeed L \<longrightarrow>
      srv = monitor bd H DB C point to_text \<longrightarrow> (\<exists>rqs. served bd H DB C point to_text rqs en (snd y))",
      OF _ assms(1)], goal_cases)
    case (1 rl catches L D srv fd c en y)
    show ?case
    proof (intro impI)
      assume L: "writes_succeed L" and srv: "srv = monitor bd H DB C point to_text"
      obtain r c1 w1 where r: "conn_recv L c 1024 (en_tls en) = (r, c1, w1)" by (metis prod_cases3)
      have w1: "writes (tl_log w1) = writes (tl_log (en_tls en))"
        using writes_recv [of L c 1024 "en_tls en"] r by simp
      show "\<exists>rqs. served bd H DB C point to_text rqs en (snd y)"
      proof (cases r)
        case (Inl e)
        then have "idle en (snd y)" using 1(2) r w1 by (auto simp: idle_def)
        then show ?thesis using idle_served by blast
      next
        case (Inr v)
        then obtain n input where v: "r = Inr (n, input)" by (cases v) auto
        obtain x c2 en2 where p: "process_chunk catches L D srv input c1 (en\<lparr>en_tls := w1\<rparr>) = Some (x, c2, en2)"
          and rest: "(let en3 = en2\<lparr>en_tls := store_connection fd c2 (en_tls en2)\<rparr>
            in case x of Some e \<Rightarrow> Some (Escaped e, en3)
               | None \<Rightarrow> if 0 < n then rl catches L D srv fd c2 en3 else Some (Left_Loop, en3)) = Some y"
          using 1(2) r v by (auto simp: bind_eq_Some_conv Let_def)
        define en3 where "en3 = en2\<lparr>en_tls := store_connection fd c2 (en_tls en2)\<rparr>"
        have i: "idle en (en\<lparr>en_tls := w1\<rparr>)" "idle en2 en3" using w1 by (simp_all add: idle_def en3_def)
        obtain rqs where "served bd H DB C point to_text rqs (en\<lparr>en_tls := w1\<rparr>) en2"
          using process_chunk_served [OF p L srv] by blast
        note rqs = then_idle [OF idle_then [OF i(1) this] i(2)]
        have "y = (Left_Loop, en3) \<or> (\<exists>e. y = (Escaped e, en3)) \<or> rl catches L D srv fd c2 en3 = Some y"
          using rest by (auto simp: en3_def Let_def split: option.splits if_splits)
        then show ?thesis
          using rqs 1(1) L srv served_trans by (metis snd_conv)
      qed
    qed
  qed
  then show ?thesis using assms(2,3) by blast
qed

lemma ecall_tls_recv_served:
  assumes "ecall_tls_recv catches L D srv fd en = Some (r, en')" and "writes_succeed L"
    and "srv = monitor bd H DB C point to_text"
  shows "\<exists>rqs. served bd H DB C point to_text rqs en en'"
proof (cases "getConnection fd (en_tls en)")
  case (Inl e)
  then have "en' = snd (recv_catch fd (Tls_Exn e) en)" using assms(1) by (simp add: ecall_tls_recv_def)
  then show ?thesis using idle_served recv_catch_idle by blast
next
  case (Inr c)
  then obtain x en1 where x: "recv_loop catches L D srv fd c en = Some (x, en1)" "en' = snd (recv_catch fd x en1)"
    using assms(1) by (auto simp: ecall_tls_recv_def)
  then show ?thesis
    using recv_loop_served [OF x(1) assms(2,3)] then_idle recv_catch_idle by (metis snd_conv)
qed

section \<open>The running server\<close>

lemma handle_event_idle:
  assumes "handle_event tls K L D fd sv = Runs sv'"
  shows "idle (sv_enclave sv) (sv_enclave sv')"
proof -
  have "idle en (snd (if tls then ecall_tls_accept L D sock en else (0, en)))" for sock and en :: "('a, 'b, 'c) enclave"
    using accept_idle by (auto simp: idle_def)
  then show ?thesis
    using assms by (auto simp: handle_event_def case_prod_beta Let_def idle_def split: if_splits process.splits)
qed

lemma handle_events_idle:
  "handle_events tls K L D fds sv = Runs sv' \<Longrightarrow> idle (sv_enclave sv) (sv_enclave sv')"
  by (induction fds arbitrary: sv) (auto simp: idle_def [of "sv_enclave sv'" "sv_enclave sv'"] split: process.splits
    intro: idle_trans [OF handle_event_idle])

lemma event_turn_idle:
  assumes "event_turn tls K L D sv = Runs sv'"
  shows "idle (sv_enclave sv) (sv_enclave sv')"
proof -
  obtain nfds fds e k1 where p: "k_epoll_wait K (el_epollfd (sv_loop sv)) MAX_EVENTS (sv_kernel sv) = ((nfds, fds, e), k1)"
    by (metis surj_pair)
  show ?thesis
    using assms handle_events_idle [of tls K L D "take (nat nfds) fds" "sv\<lparr>sv_kernel := k1\<rparr>" sv'] p
    by (auto simp: event_turn_def idle_def Let_def split: if_splits)
qed

lemma server_run_served:
  assumes "server_run tls K catches L D srv sv ready taken sv'" and "writes_succeed L"
    and "srv = monitor bd H DB C point to_text"
  shows "\<exists>rqs. served bd H DB C point to_text rqs (sv_enclave sv) (sv_enclave sv')"
  using assms(1)
proof (induction rule: server_run.induct)
  case start
  have "idle (sv_enclave sv) (sv_enclave sv)" by (simp add: idle_def)
  then show ?case using idle_served by blast
next
  case (poll ready taken sv1 sv2)
  then show ?case using then_idle event_turn_idle by blast
next
  case (work ready taken sv1 fd sv2 r sv3)
  have "sv_enclave sv2 = sv_enclave sv1"
    using work.hyps(2) by (auto simp: take_ready_def split: list.splits)
  moreover obtain en where "ecall_tls_recv catches L D srv fd (sv_enclave sv2) = Some (r, en)" "sv3 = sv2\<lparr>sv_enclave := en\<rparr>"
    using work.hyps(3) by (auto simp: consume_fd_def)
  ultimately have "\<exists>rqs. served bd H DB C point to_text rqs (sv_enclave sv1) (sv_enclave sv3)"
    using ecall_tls_recv_served [OF _ assms(2,3)] by simp
  then show ?case using work.IH served_trans by blast
qed

section \<open>Properties\<close>


definition sample_monitor :: "(memdb, nat) anonymbe responder" where
  "sample_monitor = monitor sample_build sample_http mem_ops sample_crypto (CHR ''.'') sample_text"

definition ping_server :: "((memdb, nat) anonymbe, string list, string list, nat) server" where
  "ping_server = \<lparr>sv_loop = event_loop_new\<lparr>el_epollfd := 4\<rparr>, sv_listen = 3, sv_queue = [7],
     sv_enclave = \<lparr>en_service = anonymbe_new False memdb_empty 1, en_tls = en_tls (connected [''/ping'']), en_requests = 0\<rparr>,
     sv_kernel = 0\<rparr>"


end
