(* ===== verification/Client_Trial.thy ===== *)
theory Client_Trial
  imports Prelude "HOL-Library.Word"
begin

unbundle bit_operations_syntax

text \<open>
  The trial client (\<open>client/client.cpp\<close>, \<open>client/crypto.cpp\<close>): an envelope without an index
  is a sequence of blocks of 64 bytes, a hint and a file key under a member's key, and a user
  tries block after block, or four threads try a quarter of the blocks each. AES in counter
  mode and \<open>rand\<close> belong to libraries and are parameters. The theory shows that a member
  recovers the file key of the envelope that the program simulates, that the threads find a
  block exactly if the sequential search does, however they interleave, and that an outsider
  can read the file key from any block.
\<close>

section \<open>crypto.cpp\<close>

text \<open>AES-256-CTR of OpenSSL: encryption and decryption with a key and an initial vector.\<close>

record aes =
  ctr_encrypt :: "string \<Rightarrow> string \<Rightarrow> string \<Rightarrow> string"
  ctr_decrypt :: "string \<Rightarrow> string \<Rightarrow> string \<Rightarrow> string"

definition aes_encrypt :: "aes \<Rightarrow> string \<Rightarrow> string \<Rightarrow> string \<Rightarrow> string" where
  "aes_encrypt A plaintext key iv = ctr_encrypt A key iv plaintext"

definition aes_decrypt :: "aes \<Rightarrow> string \<Rightarrow> string \<Rightarrow> string \<Rightarrow> string" where
  "aes_decrypt A ciphertext key iv = ctr_decrypt A key iv ciphertext"

text \<open>\<open>random_stream\<close> fills \<open>n\<close> bytes from \<open>rand()\<close>, a parameter, whose value is not
  negative.\<close>

fun random_stream :: "('r \<Rightarrow> nat \<times> 'r) \<Rightarrow> nat \<Rightarrow> 'r \<Rightarrow> string \<times> 'r" where
  "random_stream rand 0 r = ([], r)"
| "random_stream rand (Suc n) r =
     (let (v, r1) = rand r; (bs, r2) = random_stream rand n r1 in (char_of (v mod 255) # bs, r2))"

section \<open>client.cpp\<close>

definition trial_iv :: string where "trial_iv = ''wWw456789012345678901234567890IV''"
definition positive_hint :: string where "positive_hint = replicate 32 CHR ''1''"
definition negative_hint :: string where "negative_hint = replicate 32 CHR ''0''"

text \<open>The loop of \<open>user_get_file_key\<close>: the trials left and the pointer into the ciphertext.\<close>

fun try_blocks :: "aes \<Rightarrow> string \<Rightarrow> nat \<Rightarrow> string \<Rightarrow> string option" where
  "try_blocks A user_key 0 ciphertext = None"
| "try_blocks A user_key (Suc n) ciphertext =
     (if aes_decrypt A (take 32 ciphertext) user_key trial_iv = positive_hint
      then Some (aes_decrypt A (take 32 (drop 32 ciphertext)) user_key trial_iv)
      else try_blocks A user_key n (drop 64 ciphertext))"

text \<open>\<open>int trials = c_size / 64\<close> narrows a \<open>size_t\<close>; a negative number of trials is none.\<close>

definition trials :: "64 word \<Rightarrow> int" where
  "trials c_size = sint (ucast (c_size div 64) :: 32 word)"

text \<open>The return value, \<open>*p_file_key\<close> and \<open>*p_fk_size\<close>.\<close>

definition user_get_file_key ::
  "aes \<Rightarrow> string \<Rightarrow> string \<Rightarrow> 64 word \<Rightarrow> string \<times> nat \<Rightarrow> int \<times> string \<times> nat" where
  "user_get_file_key A user_key ciphertext c_size p =
     (case try_blocks A user_key (nat (trials c_size)) ciphertext of
        Some fk \<Rightarrow> (0, fk, 32)
      | None \<Rightarrow> (- 1, p))"

text \<open>The threads. \<open>myThreadFun\<close> looks at the flag \<open>FOUND_POSITIVE\<close> before every trial; a
  thread is before that look, about to try the block, or has returned.\<close>

record thread_arg =
  ta_user_key :: string
  ta_ciphertext :: string
  ta_c_size :: "64 word"

datatype trial_thread = Checking thread_arg int | Trying thread_arg int | Stopped

record trial_state =
  found_positive :: bool
  trial_threads :: "trial_thread list"

definition thread_start :: "thread_arg \<Rightarrow> trial_thread" where
  "thread_start a = Checking a 0"

text \<open>The number of trials is computed once, at the start; \<open>c_size\<close> does not change.\<close>

definition thread_next :: "aes \<Rightarrow> bool \<Rightarrow> trial_thread \<Rightarrow> bool \<times> trial_thread" where
  "thread_next A found t =
     (case t of
        Checking a i \<Rightarrow> (found, if i < trials (ta_c_size a) \<and> \<not> found then Trying a i else Stopped)
      | Trying a i \<Rightarrow>
          if aes_decrypt A (take 32 (ta_ciphertext a)) (ta_user_key a) trial_iv = positive_hint
          then (True, Stopped)
          else (found, Checking (a\<lparr>ta_ciphertext := drop 64 (ta_ciphertext a)\<rparr>) (i + 1))
      | Stopped \<Rightarrow> (found, Stopped))"

inductive trial_step :: "aes \<Rightarrow> trial_state \<Rightarrow> trial_state \<Rightarrow> bool" for A where
  "j < length (trial_threads s) \<Longrightarrow> trial_threads s ! j \<noteq> Stopped \<Longrightarrow>
   thread_next A (found_positive s) (trial_threads s ! j) = (found, t) \<Longrightarrow>
   trial_step A s \<lparr>found_positive = found, trial_threads = (trial_threads s)[j := t]\<rparr>"

definition THREADS_COUNT :: int where
  "THREADS_COUNT = 4"

definition start_trials :: "int \<Rightarrow> int \<Rightarrow> int" where
  "start_trials n i = (i * n) div THREADS_COUNT"

definition end_trials :: "int \<Rightarrow> int \<Rightarrow> int" where
  "end_trials n i = (let e = ((i + 1) * n) div THREADS_COUNT in if e > n then n else e)"

definition mt_arg :: "string \<Rightarrow> string \<Rightarrow> int \<Rightarrow> int \<Rightarrow> thread_arg" where
  "mt_arg user_key ciphertext n i =
     \<lparr>ta_user_key = user_key, ta_ciphertext = drop (nat (64 * start_trials n i)) ciphertext,
      ta_c_size = of_int ((end_trials n i - start_trials n i) * 64)\<rparr>"

text \<open>\<open>_mt_user_get_file_key\<close> starts the threads with the flag as it is; it returns 0 when all
  have returned, and writes neither of its output parameters.\<close>

definition mt_start :: "string \<Rightarrow> string \<Rightarrow> 64 word \<Rightarrow> bool \<Rightarrow> trial_state" where
  "mt_start user_key ciphertext c_size found =
     \<lparr>found_positive = found,
      trial_threads = map (\<lambda>i. thread_start (mt_arg user_key ciphertext (trials c_size) i)) [0 .. THREADS_COUNT - 1]\<rparr>"

definition mt_result :: "string \<times> nat \<Rightarrow> int \<times> string \<times> nat" where
  "mt_result p = (0, p)"

text \<open>The envelope of the test: the block at two thirds is the member's.\<close>

fun simulate_blocks ::
  "aes \<Rightarrow> ('r \<Rightarrow> nat \<times> 'r) \<Rightarrow> string \<Rightarrow> string \<Rightarrow> nat \<Rightarrow> nat \<Rightarrow> nat \<Rightarrow> 'r \<Rightarrow> string" where
  "simulate_blocks A rand file_key user_key users i 0 r = []"
| "simulate_blocks A rand file_key user_key users i (Suc n) r =
     (if i = 2 * (users div 3)
      then aes_encrypt A positive_hint user_key trial_iv @ aes_encrypt A file_key user_key trial_iv @
             simulate_blocks A rand file_key user_key users (i + 1) n r
      else
        let (random_key, r1) = random_stream rand 32 r
        in aes_encrypt A negative_hint random_key trial_iv @ aes_encrypt A file_key random_key trial_iv @
             simulate_blocks A rand file_key user_key users (i + 1) n r1)"

definition test_file_key :: string where "test_file_key = ''12345678901234567890123456789012''"
definition test_user_key :: string where "test_user_key = ''ux000000000000000000000000000000''"

definition simulate_envelope :: "aes \<Rightarrow> ('r \<Rightarrow> nat \<times> 'r) \<Rightarrow> nat \<Rightarrow> 'r \<Rightarrow> string" where
  "simulate_envelope A rand users r = simulate_blocks A rand test_file_key test_user_key users 0 users r"

text \<open>\<open>basic_user_validation_test\<close>: what the decryption leaves in \<open>ret_status\<close> and the
  buffers, and the return value, which comes before the comparison of the keys.\<close>

definition basic_user_validation_test ::
  "aes \<Rightarrow> ('r \<Rightarrow> nat \<times> 'r) \<Rightarrow> nat \<Rightarrow> 'r \<Rightarrow> string \<times> nat \<Rightarrow> int \<times> (int \<times> string \<times> nat)" where
  "basic_user_validation_test A rand users_in_group r p =
     (0, user_get_file_key A test_user_key (simulate_envelope A rand users_in_group r)
           (of_nat (users_in_group * 32 * 2)) p)"

section \<open>The search\<close>

definition hint_at :: "aes \<Rightarrow> string \<Rightarrow> string \<Rightarrow> nat \<Rightarrow> bool" where
  "hint_at A key ct k \<longleftrightarrow> aes_decrypt A (take 32 (drop (64 * k) ct)) key trial_iv = positive_hint"

lemma hint_at_drop: "hint_at A key (drop (64 * m) ct) k = hint_at A key ct (m + k)"
  by (simp add: hint_at_def algebra_simps)

lemma try_blocks_found: "try_blocks A key n ct \<noteq> None \<longleftrightarrow> (\<exists>k < n. hint_at A key ct k)"
proof (induction n arbitrary: ct)
  case (Suc n)
  have "hint_at A key (drop 64 ct) k = hint_at A key ct (Suc k)" for k
    using hint_at_drop [of A key 1 ct k] by simp
  moreover have "hint_at A key ct 0 \<longleftrightarrow> aes_decrypt A (take 32 ct) key trial_iv = positive_hint"
    by (simp add: hint_at_def)
  ultimately show ?case
    using Suc.IH [of "drop 64 ct"] by (auto simp: less_Suc_eq_0_disj)
qed simp

lemma trials_small:
  assumes "uint c_size < 2 ^ 31"
  shows "trials c_size = uint c_size div 64"
proof -
  let ?n = "uint c_size div 64"
  have n: "uint (c_size div 64) = ?n" "0 \<le> ?n" "?n < 2 ^ 31"
    using assms by (simp_all add: uint_div div_int_pos_iff)
  then have "uint (ucast (c_size div 64) :: 32 word) = ?n"
    by (simp add: unsigned_ucast_eq take_bit_int_eq_self)
  then show ?thesis
    using n unfolding trials_def sint_uint by (simp add: signed_take_bit_int_eq_self)
qed

section \<open>The threads\<close>

text \<open>The ranges of the threads cover every trial once.\<close>

lemma end_trials_eq: "0 \<le> n \<Longrightarrow> 0 \<le> i \<Longrightarrow> i < 4 \<Longrightarrow> end_trials n i = start_trials n (i + 1)"
  using mult_right_mono [of "i + 1" 4 n] zdiv_mono1 [of "(i + 1) * n" "4 * n" 4]
  by (auto simp: end_trials_def start_trials_def THREADS_COUNT_def Let_def)

lemma trials_split:
  assumes "0 \<le> n"
  shows "0 \<le> k \<and> k < n \<longleftrightarrow> (\<exists>i \<in> {0, 1, 2, 3}. start_trials n i \<le> k \<and> k < end_trials n i)"
  using assms by (simp add: end_trials_eq) (auto simp: start_trials_def THREADS_COUNT_def)

lemma start_trials_bounds:
  assumes "0 \<le> n" and "0 \<le> i" and "i < 4"
  shows "0 \<le> start_trials n i" "start_trials n i \<le> end_trials n i" "end_trials n i \<le> n"
proof -
  have "i * n \<le> (i + 1) * n" "(i + 1) * n \<le> 4 * n" using assms by (simp_all add: mult_right_mono)
  then show "0 \<le> start_trials n i" "start_trials n i \<le> end_trials n i" "end_trials n i \<le> n"
    using assms by (simp_all add: end_trials_eq) (simp_all add: start_trials_def THREADS_COUNT_def zdiv_mono1 div_int_pos_iff)
qed

text \<open>Whether a thread has still a block to find.\<close>

fun will_find :: "aes \<Rightarrow> trial_thread \<Rightarrow> bool" where
  "will_find A (Checking a i) = (try_blocks A (ta_user_key a) (nat (trials (ta_c_size a) - i)) (ta_ciphertext a) \<noteq> None)"
| "will_find A (Trying a i) = (try_blocks A (ta_user_key a) (nat (trials (ta_c_size a) - i)) (ta_ciphertext a) \<noteq> None)"
| "will_find A Stopped = False"

fun trying_ok :: "trial_thread \<Rightarrow> bool" where
  "trying_ok (Trying a i) = (i < trials (ta_c_size a))"
| "trying_ok t = True"

lemma nat_diff_Suc: "(i :: int) < n \<Longrightarrow> nat (n - i) = Suc (nat (n - (i + 1)))"
  by simp

lemma thread_next_find:
  assumes "thread_next A found t = (found', t')" and "trying_ok t"
  shows "(found' \<or> will_find A t') = (found \<or> will_find A t)" and "trying_ok t'" and "found \<longrightarrow> found'"
  using assms by (cases t; auto simp: thread_next_def nat_diff_Suc split: if_splits)+

text \<open>A thread that has not returned can go on, and every turn brings it nearer its end.\<close>

fun thread_measure :: "trial_thread \<Rightarrow> nat" where
  "thread_measure (Checking a i) = 2 * nat (trials (ta_c_size a) - i) + 1"
| "thread_measure (Trying a i) = 2 * nat (trials (ta_c_size a) - i)"
| "thread_measure Stopped = 0"

lemma thread_next_measure:
  assumes "thread_next A found t = (found', t')" and "trying_ok t" and "t \<noteq> Stopped"
  shows "thread_measure t' < thread_measure t"
  using assms by (cases t) (auto simp: thread_next_def nat_diff_Suc split: if_splits)

definition trial_ok :: "aes \<Rightarrow> bool \<Rightarrow> trial_state \<Rightarrow> bool" where
  "trial_ok A goal s \<longleftrightarrow> list_all trying_ok (trial_threads s) \<and>
     (goal \<longleftrightarrow> found_positive s \<or> (\<exists>t \<in> set (trial_threads s). will_find A t))"

lemma trial_step_ok:
  assumes "trial_step A s s'" and "trial_ok A goal s"
  shows "trial_ok A goal s'"
  using assms(1)
proof cases
  case (1 j found t)
  let ?ts = "trial_threads s"
  have ok: "trying_ok (?ts ! j)" "list_all trying_ok ?ts" using assms(2) 1(2) by (auto simp: trial_ok_def list_all_length)
  note nx = thread_next_find [OF 1(4) ok(1)]
  have some: "(\<exists>u \<in> set ts. P u) \<longleftrightarrow> P (ts ! j) \<or> (\<exists>k < length ts. k \<noteq> j \<and> P (ts ! k))"
    if "j < length ts" for ts :: "trial_thread list" and P
    using that by (metis in_set_conv_nth)
  have "(found \<or> (\<exists>u \<in> set (?ts[j := t]). will_find A u)) = (found_positive s \<or> (\<exists>u \<in> set ?ts. will_find A u))"
    using nx(1,3) 1(2) some [of ?ts "will_find A"] some [of "?ts[j := t]" "will_find A"] by auto
  moreover have "list_all trying_ok (?ts[j := t])"
    using nx(2) ok(2) 1(2) by (auto simp: list_all_length nth_list_update)
  ultimately show ?thesis using assms(2) 1(1) by (auto simp: trial_ok_def)
qed

lemma trial_reachable_ok:
  assumes "(trial_step A)\<^sup>*\<^sup>* s s'" and "trial_ok A goal s"
  shows "trial_ok A goal s'"
  using assms by induction (auto intro: trial_step_ok)

lemma no_step_stopped: "\<nexists>s'. trial_step A s s' \<Longrightarrow> t \<in> set (trial_threads s) \<Longrightarrow> t = Stopped"
  by (metis in_set_conv_nth surj_pair trial_step.intros)

lemma trial_step_measure:
  assumes "trial_step A s s'" and "trial_ok A goal s"
  shows "sum_list (map thread_measure (trial_threads s')) < sum_list (map thread_measure (trial_threads s))"
  using assms(1)
proof cases
  case (1 j found t)
  let ?ms = "map thread_measure (trial_threads s)"
  have "thread_measure t < ?ms ! j"
    using thread_next_measure [OF 1(4) _ 1(3)] 1(2) assms(2) by (simp add: trial_ok_def list_all_length)
  moreover have "?ms ! j \<le> sum_list ?ms" using 1(2) by (simp add: elem_le_sum_list del: nth_map)
  ultimately show ?thesis using 1 by (simp add: map_update sum_list_update)
qed

lemma trials_run_out:
  assumes "trial_ok A goal s"
  shows "\<exists>s'. (trial_step A)\<^sup>*\<^sup>* s s' \<and> (\<nexists>s''. trial_step A s' s'')"
  using assms
proof (induction "sum_list (map thread_measure (trial_threads s))" arbitrary: s rule: less_induct)
  case less
  show ?case
  proof (cases "\<exists>s'. trial_step A s s'")
    case True
    then show ?thesis
      using less trial_step_measure trial_step_ok by (metis converse_rtranclp_into_rtranclp)
  qed blast
qed

lemma uint_small: "0 \<le> m \<Longrightarrow> m < 2 ^ 64 \<Longrightarrow> uint (of_int m :: 64 word) = m"
  by (simp add: uint_word_of_int_eq take_bit_int_eq_self)

lemma mt_start_ok:
  assumes "c_size = of_nat (length ct)" and "length ct < 2 ^ 31"
  shows "trial_ok A (try_blocks A key (nat (trials c_size)) ct \<noteq> None) (mt_start key ct c_size False)"
proof -
  define n where "n = trials c_size"
  have "uint c_size = int (length ct)"
    using assms by (simp add: unsigned_of_nat take_bit_nat_eq_self)
  then have n: "n = int (length ct) div 64" "0 \<le> n" "n < 2 ^ 25"
    using assms(2) trials_small [of c_size] unfolding n_def by (simp_all add: div_int_pos_iff)
  have one: "trials (ta_c_size (mt_arg key ct n i)) = end_trials n i - start_trials n i" if "0 \<le> i" "i < 4" for i
  proof -
    let ?d = "end_trials n i - start_trials n i"
    have "0 \<le> ?d" "?d < 2 ^ 25" using start_trials_bounds [OF n(2) that] n(3) by simp_all
    then have u: "uint (of_int (?d * 64) :: 64 word) = ?d * 64"
      by (intro uint_small) simp_all
    show ?thesis
      unfolding mt_arg_def thread_arg.simps using trials_small [of "of_int (?d * 64)"] u \<open>?d < 2 ^ 25\<close> by simp
  qed
  have find: "will_find A (thread_start (mt_arg key ct n i)) \<longleftrightarrow>
      (\<exists>k. start_trials n i \<le> int k \<and> int k < end_trials n i \<and> hint_at A key ct k)" if "0 \<le> i" "i < 4" for i
  proof -
    let ?b = "nat (start_trials n i)" and ?e = "nat (end_trials n i)"
    have b: "int ?b = start_trials n i" "int ?e = end_trials n i" "?b \<le> ?e"
      "nat (end_trials n i - start_trials n i) = ?e - ?b"
      using start_trials_bounds [OF n(2) that] by (simp_all add: nat_diff_distrib)
    have "will_find A (thread_start (mt_arg key ct n i)) \<longleftrightarrow> (\<exists>k < ?e - ?b. hint_at A key ct (?b + k))"
      unfolding thread_start_def will_find.simps one [OF that] try_blocks_found
      using hint_at_drop [of A key ?b ct] b(1) by (simp add: mt_arg_def nat_mult_distrib b(4))
    also have "\<dots> \<longleftrightarrow> (\<exists>k. ?b \<le> k \<and> k < ?e \<and> hint_at A key ct k)"
      by (metis (no_types, lifting) add_diff_inverse_nat le_add1 less_diff_conv not_less add.commute)
    finally show ?thesis using b by (metis of_nat_le_iff of_nat_less_iff)
  qed
  have "(\<exists>i \<in> {0, 1, 2, 3}. will_find A (thread_start (mt_arg key ct n i))) \<longleftrightarrow>
      (\<exists>k. (\<exists>i \<in> {0, 1, 2, 3}. start_trials n i \<le> int k \<and> int k < end_trials n i) \<and> hint_at A key ct k)"
    using find [of 0] find [of 1] find [of 2] find [of 3] by auto
  then have "(\<exists>i \<in> {0, 1, 2, 3}. will_find A (thread_start (mt_arg key ct n i))) \<longleftrightarrow> (\<exists>k < nat n. hint_at A key ct k)"
    unfolding trials_split [OF n(2), symmetric] by (simp add: zless_nat_eq_int_zless)
  moreover have "[0 .. THREADS_COUNT - 1] = [0, 1, 2, 3]" by (simp add: THREADS_COUNT_def upto_rec1)
  moreover have "trying_ok (thread_start a)" for a by (simp add: thread_start_def)
  ultimately show ?thesis
    unfolding trial_ok_def mt_start_def try_blocks_found n_def by simp
qed

section \<open>The simulated envelope\<close>

text \<open>What the library promises of AES in counter mode: both operations combine the text with
  the key stream of the key and the initial vector.\<close>

definition xor_char :: "char \<Rightarrow> char \<Rightarrow> char" where
  "xor_char a b = char_of (of_char a XOR of_char b :: nat)"

definition xor_stream :: "string \<Rightarrow> (nat \<Rightarrow> char) \<Rightarrow> string" where
  "xor_stream p ks = map (\<lambda>i. xor_char (p ! i) (ks i)) [0..<length p]"

definition ctr_mode :: "aes \<Rightarrow> (string \<Rightarrow> string \<Rightarrow> nat \<Rightarrow> char) \<Rightarrow> bool" where
  "ctr_mode A ks \<longleftrightarrow> (\<forall>key iv p. ctr_encrypt A key iv p = xor_stream p (ks key iv) \<and>
     ctr_decrypt A key iv p = xor_stream p (ks key iv))"

lemma xor_char_cancel [simp]: "xor_char (xor_char a b) b = a" "xor_char (xor_char a b) a = b"
proof -
  have "take_bit 8 (of_char c :: nat) = of_char c" for c :: char
    by (simp add: take_bit_eq_mod)
  then have "(of_char a XOR of_char b :: nat) mod 256 = of_char a XOR of_char b"
    using take_bit_xor [of 8 "of_char a :: nat" "of_char b"] by (simp add: take_bit_eq_mod)
  then have "of_char (xor_char a b) = (of_char a XOR of_char b :: nat)" by (simp add: xor_char_def)
  moreover have "x XOR y XOR x = y" for x y :: nat
    by (metis xor.assoc xor.commute xor.left_neutral xor_self_eq)
  ultimately show "xor_char (xor_char a b) b = a" "xor_char (xor_char a b) a = b"
    unfolding xor_char_def [of "xor_char a b"] by (simp_all add: xor.assoc)
qed

lemma xor_char_cancel_left [simp]: "xor_char b (xor_char a b) = a"
proof -
  have "xor_char b (xor_char a b) = xor_char (xor_char a b) b" by (simp add: xor_char_def [of b] xor_char_def [of _ b] xor.commute)
  then show ?thesis by simp
qed

lemma xor_stream_laws:
  "length (xor_stream p ks) = length p" "xor_stream (xor_stream p ks) ks = p"
proof -
  show len: "length (xor_stream p ks) = length p" for p by (simp add: xor_stream_def)
  show "xor_stream (xor_stream p ks) ks = p"
    by (rule nth_equalityI) (simp_all add: len, simp add: xor_stream_def)
qed

lemma xor_stream_nth [simp]: "i < length p \<Longrightarrow> xor_stream p ks ! i = xor_char (p ! i) (ks i)"
  by (simp add: xor_stream_def)

lemma ctr_laws:
  assumes "ctr_mode A ks"
  shows "length (ctr_encrypt A key iv p) = length p" "ctr_decrypt A key iv (ctr_encrypt A key iv p) = p"
  using assms by (simp_all add: ctr_mode_def xor_stream_laws)

text \<open>No hint for one of the random keys decrypts to the positive hint under the user's key.\<close>

definition hints_distinct :: "aes \<Rightarrow> ('r \<Rightarrow> nat \<times> 'r) \<Rightarrow> string \<Rightarrow> bool" where
  "hints_distinct A rand key \<longleftrightarrow>
     (\<forall>r. ctr_decrypt A key trial_iv (ctr_encrypt A (fst (random_stream rand 32 r)) trial_iv negative_hint) \<noteq> positive_hint)"

lemma key_lengths [simp]:
  "length positive_hint = 32" "length negative_hint = 32" "length test_file_key = 32" "length test_user_key = 32"
  by (simp_all add: positive_hint_def negative_hint_def test_file_key_def test_user_key_def)

lemma simulate_length:
  assumes "ctr_mode A ks" and "length fk = 32"
  shows "length (simulate_blocks A rand fk key users i n r) = 64 * n"
  using assms by (induction n arbitrary: i r) (simp_all add: aes_encrypt_def ctr_laws(1) [OF assms(1)] case_prod_beta Let_def)

lemma simulate_opens:
  assumes "ctr_mode A ks" and "hints_distinct A rand key" and "length fk = 32"
    and "i \<le> 2 * (users div 3)" and "2 * (users div 3) < i + n"
  shows "try_blocks A key n (simulate_blocks A rand fk key users i n r) = Some fk"
  using assms(4,5)
proof (induction n arbitrary: i r)
  case (Suc n)
  have len: "length (ctr_encrypt A k trial_iv p) = length p" for k p by (rule ctr_laws(1) [OF assms(1)])
  have dec: "ctr_decrypt A k trial_iv (ctr_encrypt A k trial_iv p) = p" for k p by (rule ctr_laws(2) [OF assms(1)])
  show ?case
  proof (cases "i = 2 * (users div 3)")
    case True
    then show ?thesis
      using assms(3) by (simp add: aes_encrypt_def aes_decrypt_def len dec)
  next
    case False
    then have "try_blocks A key n (simulate_blocks A rand fk key users (i + 1) n r') = Some fk" for r'
      using Suc by simp
    then show ?thesis
      using False assms(2,3) by (simp add: aes_encrypt_def aes_decrypt_def len hints_distinct_def case_prod_beta Let_def)
  qed
qed simp

text \<open>A block of the envelope.\<close>

lemma simulate_nth:
  assumes "ctr_mode A ks" and "length fk = 32" and "j < n"
  shows "\<exists>k. take 64 (drop (64 * j) (simulate_blocks A rand fk key users i n r)) =
    xor_stream (if i + j = 2 * (users div 3) then positive_hint else negative_hint) (ks k trial_iv) @ xor_stream fk (ks k trial_iv)"
  using assms(3)
proof (induction n arbitrary: i j r)
  case (Suc n)
  have enc: "aes_encrypt A p k trial_iv = xor_stream p (ks k trial_iv)" for p k
    using assms(1) by (simp add: aes_encrypt_def ctr_mode_def)
  show ?case
  proof (cases j)
    case 0
    then show ?thesis
      using assms(2) by (auto simp: enc xor_stream_laws case_prod_beta Let_def)
  next
    case (Suc m)
    then show ?thesis
      using Suc.IH [of m "i + 1"] Suc.prems assms(2)
      by (cases "i = 2 * (users div 3)") (simp_all add: enc xor_stream_laws case_prod_beta Let_def)
  qed
qed simp

section \<open>Properties\<close>


text \<open>A member recovers the file key. On the envelope that the program simulates for up to
  33 million users, \<open>user_get_file_key\<close> returns 0 with the file key, provided that no hint of
  another user decrypts to the positive hint; the test returns 0 in any case.\<close>

lemma member_recovers_file_key:
  assumes "ctr_mode A ks" and "hints_distinct A rand test_user_key" and "0 < users" and "users < 2 ^ 25"
  shows "basic_user_validation_test A rand users r p = (0, 0, test_file_key, 32)"
proof -
  have c: "uint (of_nat (users * 32 * 2) :: 64 word) = int (64 * users)"
    using assms(4) uint_small [of "int (users * 32 * 2)"] by (simp del: of_nat_mult)
  then have "trials (of_nat (users * 32 * 2)) = int users"
    using trials_small [of "of_nat (users * 32 * 2)"] assms(4) by simp
  then show ?thesis
    using simulate_opens [OF assms(1,2), of test_file_key 0 users users r] assms(3)
    by (simp add: basic_user_validation_test_def user_get_file_key_def simulate_envelope_def)
qed

text \<open>A cipher whose key stream is constant, 2 for the user's key and 0 for the others.\<close>

definition sample_stream :: "string \<Rightarrow> string \<Rightarrow> nat \<Rightarrow> char" where
  "sample_stream key iv i = char_of (if key = test_user_key then 2 else 0 :: nat)"

definition sample_aes :: aes where
  "sample_aes = \<lparr>ctr_encrypt = \<lambda>key iv p. xor_stream p (sample_stream key iv),
     ctr_decrypt = \<lambda>key iv p. xor_stream p (sample_stream key iv)\<rparr>"

lemma sample_aes_ok: "ctr_mode sample_aes sample_stream" "hints_distinct sample_aes rand test_user_key"
proof -
  show "ctr_mode sample_aes sample_stream" by (simp add: ctr_mode_def sample_aes_def)
  have x: "xor_char CHR ''0'' (char_of (0 :: nat)) = CHR ''0''" "xor_char CHR ''0'' (char_of (2 :: nat)) = CHR ''2''"
    "xor_char CHR ''2'' (char_of (2 :: nat)) = CHR ''0''"
    by code_simp+
  have "ctr_decrypt sample_aes test_user_key trial_iv (ctr_encrypt sample_aes k trial_iv negative_hint) ! 0 \<noteq> positive_hint ! 0" for k
    by (cases "k = test_user_key")
      (simp_all add: sample_aes_def xor_stream_def sample_stream_def x positive_hint_def negative_hint_def)
  then show "hints_distinct sample_aes rand test_user_key" by (metis hints_distinct_def)
qed

definition sample_block :: string where
  "sample_block = ctr_encrypt sample_aes test_user_key trial_iv positive_hint @ ctr_encrypt sample_aes test_user_key trial_iv test_file_key"


lemma member_recovers_file_key_example:
  "basic_user_validation_test sample_aes (\<lambda>r. (r, r + 1)) 100 (0 :: nat) ([], 0) = (0, 0, test_file_key, 32)"
  using member_recovers_file_key [OF sample_aes_ok, of 100] by simp

text \<open>C36: the envelope hides nothing from outsiders. The hint and the file key of a block are
  encrypted with the same key stream, and the hint is one of two published constants; so
  from every block, without any key, the file key is the combination of the two halves of the
  block with the block's hint.\<close>

theorem outsider_recovers_file_key:
  assumes "ctr_mode A ks" and "i < users"
    and "block = take 64 (drop (64 * i) (simulate_envelope A rand users r))"
    and "hint = (if i = 2 * (users div 3) then positive_hint else negative_hint)"
  shows "xor_stream (xor_stream (take 32 block) (\<lambda>k. hint ! k)) (\<lambda>k. drop 32 block ! k) = test_file_key"
proof -
  obtain key where key: "block = xor_stream hint (ks key trial_iv) @ xor_stream test_file_key (ks key trial_iv)"
    using simulate_nth [OF assms(1), of test_file_key i users rand test_user_key users 0 r] assms(2-4)
    by (auto simp: simulate_envelope_def)
  have len: "length hint = 32" by (simp add: assms(4))
  have half: "take 32 block = xor_stream hint (ks key trial_iv)" "drop 32 block = xor_stream test_file_key (ks key trial_iv)"
    using key len by (simp_all add: xor_stream_laws)
  show ?thesis
    unfolding half by (rule nth_equalityI) (simp_all add: xor_stream_laws len)
qed

theorem outsider_recovers_file_key_witness:
  "xor_stream (xor_stream (take 32 (simulate_envelope sample_aes (\<lambda>r. (r, r + 1)) 3 (0 :: nat))) (\<lambda>k. negative_hint ! k))
     (\<lambda>k. drop 32 (take 64 (simulate_envelope sample_aes (\<lambda>r. (r, r + 1)) 3 0)) ! k) = test_file_key"
  using outsider_recovers_file_key [OF sample_aes_ok(1), of 0 3 _ "\<lambda>r. (r, r + 1)" "0 :: nat" negative_hint] by simp

end
