(* ===== verification/File_Sharing.thy ===== *)
theory File_Sharing
  imports Sample_Crypto
begin

text \<open>
  The client library (\<open>Client.kt\<close>, \<open>Encryption.kt\<close>, the result checks of \<open>Types.kt\<close>) and
  the properties that join it to the monitor: an envelope request over HTTP and JSON, and the
  whole way of a shared file from one client through monitor and storage to another. The
  cipher, the random source, Base64, the JSON adapters and the storage back end belong to the
  platform and are parameters.
\<close>

section \<open>Client.kt\<close>

text \<open>The platform of the client: AES-GCM with associated data, which may be absent, random
  bytes, Base64, and the JSON adapters of the requests and results (Moshi).\<close>

record 'r platform =
  pf_encrypt :: "string \<Rightarrow> string \<Rightarrow> string option \<Rightarrow> string \<Rightarrow> string"
  pf_decrypt :: "string \<Rightarrow> string \<Rightarrow> string option \<Rightarrow> string \<Rightarrow> string option"
  pf_nextBytes :: "nat \<Rightarrow> 'r \<Rightarrow> string \<times> 'r"
  pf_b64_encode :: "string \<Rightarrow> string"
  pf_b64_decode :: "string \<Rightarrow> string option"
  pf_bucket_json :: "string \<Rightarrow> string \<Rightarrow> string \<Rightarrow> string"
  pf_envelope_result :: "string \<Rightarrow> (string \<times> string) option"
  pf_sha224 :: "string \<Rightarrow> string"

text \<open>\<open>StorageApi\<close>; an exception of a back end is \<open>None\<close>.\<close>

record 's storage =
  so_createBucketIfNotExists :: "string \<Rightarrow> 's \<Rightarrow> 's option"
  so_storeObject :: "string \<Rightarrow> string \<Rightarrow> string \<Rightarrow> 's \<Rightarrow> 's option"
  so_getObject :: "string \<Rightarrow> string \<Rightarrow> 's \<Rightarrow> string option"
  so_deleteObject :: "string \<Rightarrow> string \<Rightarrow> 's \<Rightarrow> 's option"

datatype client_error =
    No_Response | Unsuccessful_Call nat | Json_Data_Exception | Illegal_Base64 | Storage_Exception
  | EOF_Exception | Illegal_Argument | Cannot_Open open_error

text \<open>\<open>Encryption.encryptAes\<close> and \<open>decryptAes\<close> with associated data.\<close>

definition encryptAes :: "'r platform \<Rightarrow> string \<Rightarrow> string \<Rightarrow> string option \<Rightarrow> 'r \<Rightarrow> string \<times> 'r" where
  "encryptAes P data key aad r =
     (let (iv, r1) = pf_nextBytes P CIPHER_IV_BYTES r in (iv @ pf_encrypt P key iv aad data, r1))"

definition decryptAesAad :: "'r platform \<Rightarrow> string \<Rightarrow> string \<Rightarrow> string option \<Rightarrow> (open_error, string) sum" where
  "decryptAesAad P data key aad = decryptAes (\<lambda>k iv d. pf_decrypt P k iv aad d) data key"

definition generateKey :: "'r platform \<Rightarrow> 'r \<Rightarrow> string \<times> 'r" where
  "generateKey P r = pf_nextBytes P CIPHER_KEY_BYTES r"

text \<open>\<open>envelopeProvider\<close> is the constructor of one of the two formats; \<open>open\<close> of the
  envelope it makes.\<close>

definition openEnvelope :: "'r platform \<Rightarrow> bool \<Rightarrow> string \<Rightarrow> string \<Rightarrow> (open_error, string) sum" where
  "openEnvelope P indexed envelope userKey =
     (if indexed then indexed_open (\<lambda>k iv d. pf_decrypt P k iv None d) (pf_sha224 P) envelope userKey
      else envelope_open (\<lambda>k iv d. pf_decrypt P k iv None d) envelope userKey)"

text \<open>\<open>throwExceptionIfNotReallySuccessful\<close> on the response to an envelope request and the
  result in its body, which is absent for the codes 204 and 205.\<close>

definition envelope_result :: "'r platform \<Rightarrow> response \<Rightarrow> (client_error, string) sum" where
  "envelope_result P resp =
     (if rs_code resp < 200 \<or> 300 \<le> rs_code resp \<or> rs_code resp = 204 \<or> rs_code resp = 205
      then Inl (Unsuccessful_Call (rs_code resp))
      else case pf_envelope_result P (rs_body resp) of
             None \<Rightarrow> Inl Json_Data_Exception
           | Some (result, ciphertext) \<Rightarrow>
               if result = ''ok'' then Inr ciphertext else Inl (Unsuccessful_Call (rs_code resp)))"

text \<open>\<open>generateSymmetricKeyAndGetEnvelope\<close>; \<open>call\<close> is the request to the monitor.\<close>

definition generateSymmetricKeyAndGetEnvelope ::
  "'r platform \<Rightarrow> (request \<Rightarrow> 'a \<Rightarrow> response option \<times> 'a) \<Rightarrow> string \<Rightarrow> string \<Rightarrow> 'r \<Rightarrow> 'a \<Rightarrow>
     (client_error, string \<times> string) sum \<times> 'r \<times> 'a" where
  "generateSymmetricKeyAndGetEnvelope P call userId groupId r a =
     (let (key, r1) = generateKey P r;
          (resp, a1) = call \<lparr>rq_method = ''POST'', rq_path = ''/verifier/envelope'',
            rq_body = pf_bucket_json P userId groupId (pf_b64_encode P key)\<rparr> a
      in (case resp of
            None \<Rightarrow> Inl No_Response
          | Some resp1 \<Rightarrow>
              (case envelope_result P resp1 of
                 Inl e \<Rightarrow> Inl e
               | Inr ciphertext \<Rightarrow>
                   (case pf_b64_decode P ciphertext of
                      None \<Rightarrow> Inl Illegal_Base64
                    | Some envelope \<Rightarrow> Inr (key, envelope))),
          r1, a1))"

text \<open>\<open>DataOutputStream.writeInt\<close> and \<open>DataInputStream.readInt\<close>: four bytes, the most
  significant first.\<close>

definition writeInt :: "int \<Rightarrow> string" where
  "writeInt n = map (\<lambda>s. char_of (nat ((n div 2 ^ s) mod 256))) [24, 16, 8, 0]"

fun readInt :: "string \<Rightarrow> (int \<times> string) option" where
  "readInt (a # b # c # d # rest) =
     Some (sint (of_nat (of_char a * 2 ^ 24 + of_char b * 2 ^ 16 + of_char c * 2 ^ 8 + of_char d) :: 32 word), rest)"
| "readInt _ = None"

definition encodeEnvelopeAndData :: "string \<Rightarrow> string \<Rightarrow> string" where
  "encodeEnvelopeAndData envelope data = writeInt (int (length envelope)) @ envelope @ data"

definition encryptAndEncodeFile :: "'r platform \<Rightarrow> string \<Rightarrow> string \<Rightarrow> string \<Rightarrow> 'r \<Rightarrow> string \<times> 'r" where
  "encryptAndEncodeFile P data envelope key r =
     (let (encryptedData, r1) = encryptAes P data key (Some envelope) r
      in (encodeEnvelopeAndData envelope encryptedData, r1))"

definition uploadToCloud ::
  "'r platform \<Rightarrow> 's storage \<Rightarrow> string \<Rightarrow> string \<Rightarrow> string \<Rightarrow> string \<Rightarrow> string \<Rightarrow> 'r \<Rightarrow> 's \<Rightarrow> (client_error, 's) sum \<times> 'r" where
  "uploadToCloud P S data envelope key groupName objectName r st =
     (case so_createBucketIfNotExists S groupName st of
        None \<Rightarrow> (Inl Storage_Exception, r)
      | Some st1 \<Rightarrow>
          (let (dataToStore, r1) = encryptAndEncodeFile P data envelope key r
           in (case so_storeObject S groupName objectName dataToStore st1 of
                 None \<Rightarrow> Inl Storage_Exception
               | Some st2 \<Rightarrow> Inr st2, r1)))"

definition tryDecrypt :: "'r platform \<Rightarrow> bool \<Rightarrow> string \<Rightarrow> string \<Rightarrow> string \<Rightarrow> (client_error, string) sum" where
  "tryDecrypt P indexed userKey encryptedData envelope =
     (case openEnvelope P indexed envelope userKey of
        Inl e \<Rightarrow> Inl (Cannot_Open e)
      | Inr decryptedKey \<Rightarrow>
          (case decryptAesAad P encryptedData decryptedKey (Some envelope) of
             Inl e \<Rightarrow> Inl (Cannot_Open e)
           | Inr data \<Rightarrow> Inr data))"

text \<open>\<open>readNBytes\<close> refuses a negative length and returns less at the end of the stream.\<close>

definition retrieveFromCloud ::
  "'r platform \<Rightarrow> 's storage \<Rightarrow> bool \<Rightarrow> string \<Rightarrow> string \<Rightarrow> string \<Rightarrow> 's \<Rightarrow> (client_error, string) sum" where
  "retrieveFromCloud P S indexed userKey groupId filename st =
     (case so_getObject S groupId filename st of
        None \<Rightarrow> Inl Storage_Exception
      | Some inputStream \<Rightarrow>
          (case readInt inputStream of
             None \<Rightarrow> Inl EOF_Exception
           | Some (envelopeLength, rest) \<Rightarrow>
               if envelopeLength < 0 then Inl Illegal_Argument
               else tryDecrypt P indexed userKey (drop (nat envelopeLength) rest) (take (nat envelopeLength) rest)))"

definition deleteFromCloud :: "'s storage \<Rightarrow> string \<Rightarrow> string \<Rightarrow> 's \<Rightarrow> (client_error, 's) sum" where
  "deleteFromCloud S groupId filename st =
     (case so_deleteObject S groupId filename st of None \<Rightarrow> Inl Storage_Exception | Some st1 \<Rightarrow> Inr st1)"

definition verifyEnvelope :: "'r platform \<Rightarrow> bool \<Rightarrow> string \<Rightarrow> string \<Rightarrow> string \<Rightarrow> (client_error, bool) sum" where
  "verifyEnvelope P indexed userKey envelope expectedContent =
     (case openEnvelope P indexed envelope userKey of
        Inl e \<Rightarrow> Inl (Cannot_Open e)
      | Inr content \<Rightarrow> Inr (expectedContent = content))"

section \<open>The file format\<close>

lemma readInt_writeInt:
  assumes "0 \<le> n" and "n < 2 ^ 31"
  shows "readInt (writeInt n @ rest) = Some (n, rest)"
proof -
  let ?m = "nat n"
  have byte: "of_char (char_of (nat ((n div 2 ^ s) mod 256)) :: char) = (?m div 2 ^ s) mod 256" for s
  proof -
    have "nat ((n div 2 ^ s) mod 256) = (?m div 2 ^ s) mod 256"
      using assms(1) by (simp add: nat_mod_distrib nat_div_distrib nat_power_eq div_int_pos_iff)
    then show ?thesis by simp
  qed
  have m: "?m < 2 ^ 31" using assms by simp
  have sum: "(?m div 2 ^ 24) mod 256 * 2 ^ 24 + (?m div 2 ^ 16) mod 256 * 2 ^ 16 + (?m div 2 ^ 8) mod 256 * 2 ^ 8 +
      (?m div 2 ^ 0) mod 256 = ?m"
  proof -
    define a b c where "a = ?m div 256" and "b = a div 256" and "c = b div 256"
    have parts: "?m = 256 * a + ?m mod 256" "a = 256 * b + a mod 256" "b = 256 * c + b mod 256"
      by (simp_all add: a_def b_def c_def)
    have divs: "?m div 2 ^ 8 = a" "?m div 2 ^ 16 = b" "?m div 2 ^ 24 = c"
      by (simp_all add: a_def b_def c_def div_mult2_eq [symmetric])
    have "c < 256" using m unfolding divs(3) [symmetric] by (simp add: less_mult_imp_div_less)
    then have "c mod 256 = c" by simp
    then show ?thesis unfolding divs using parts by simp
  qed
  have "sint (of_nat ?m :: 32 word) = n"
    using assms by (simp add: sint_uint uint_word_of_int_eq take_bit_int_eq_self signed_take_bit_int_eq_self)
  then show ?thesis
    unfolding writeInt_def by (simp only: list.map append.simps readInt.simps byte sum)
qed

lemma tryDecrypt_encrypted:
  assumes "openEnvelope P indexed envelope userKey = Inr key"
    and "\<And>k iv a d. pf_decrypt P k iv (Some a) (pf_encrypt P k iv (Some a) d) = Some d" and "\<And>n r. length (fst (pf_nextBytes P n r)) = n"
  shows "tryDecrypt P indexed userKey (fst (encryptAes P data key (Some envelope) r)) envelope = Inr data"
  using assms(1,2) assms(3) [of CIPHER_IV_BYTES r]
  by (simp add: tryDecrypt_def encryptAes_def decryptAesAad_def decryptAes_def case_prod_beta Let_def)

section \<open>Samples\<close>

text \<open>A service and requests to evaluate the properties on.\<close>

definition sample_service :: "bool \<Rightarrow> (memdb, nat) anonymbe" where
  "sample_service indexed = anonymbe_new indexed sample_db 7"

definition sample_request :: "string \<Rightarrow> string \<Rightarrow> (string \<times> json) list \<Rightarrow> request" where
  "sample_request verb path flds = \<lparr>rq_method = verb, rq_path = path,
     rq_body = json_text None 0 (Json_Object flds)\<rparr>"

lemma sample_request_sel [simp]:
  "rq_method (sample_request verb path flds) = verb" "rq_path (sample_request verb path flds) = path"
  by (simp_all add: sample_request_def)

lemma sample_request_parse:
  "rt_plain (Json_Object flds) \<Longrightarrow> json_parse point (rq_body (sample_request verb path flds)) = Inr (Json_Object flds)"
  unfolding sample_request_def request.simps by (rule json_parse_text)

lemma sample_service_sel [simp]:
  "ab_database (sample_service i) = sample_db" "ab_entropy (sample_service i) = 7" "ab_indexed (sample_service i) = i"
  "ab_init (sample_service i) = False"
  by (simp_all add: sample_service_def anonymbe_new_def)

lemma sample_build_sel [simp]: "bd_memdatabase sample_build" "\<not> bd_native sample_build"
  by (simp_all add: sample_build_def)

lemma envelope_answer:
  assumes "mem_inv (ab_database ab)" and "ab_init ab \<or> bd_memdatabase bd"
    and "rq_method rq = ''POST''" and "rq_path rq = ''/verifier/envelope''"
    and "json_parse point (rq_body rq) = Inr j"
    and "json_str j ''bucket_key'' = Inr (cr_b64_encode C bk)" and "length bk = 32"
    and "json_str j ''group_id'' = Inr g"
    and "st_groups (mem_abs (ab_database ab)) g = Some M" and "M \<noteq> {}"
    and "\<And>x. cr_b64_decode C (cr_b64_encode C x) = Inr x" and "crypto_text C" and "digest_ok C"
    and "aead_ok C dec bk (insert k (group_keys (mem_abs (ab_database ab)) g))" and "length k = KEY_SIZE"
    and "no_collision C (fst (cr_get_rand C 12 (ab_entropy ab))) (insert k (group_keys (mem_abs (ab_database ab)) g))"
  shows "\<exists>r m c env. fst (process_input bd H mem_ops C point rq ab) = Some r \<and> rs_code r = 200 \<and>
     json_parse point (rs_body r) = Inr (Json_Object m) \<and> map_find m ''result'' = Some (Json_String ''ok'') \<and>
     map_find m ''ciphertext'' = Some (Json_String c) \<and>
     cr_b64_decode C c = Inr env \<and>
     client_open dec C (ab_indexed ab) env k =
       (if k \<in> group_keys (mem_abs (ab_database ab)) g then Inr bk else Inl Key_Not_In_Envelope)"
proof -
  let ?db = "ab_database ab"
  obtain ks where ks: "fst (db_get_keys_of_group mem_ops g ?db) = Inr ks" "set ks = group_keys (mem_abs ?db) g" "ks \<noteq> []"
    using mem.keys_done [OF assms(1,9,10)] by blast
  have state: "snd (db_get_keys_of_group mem_ops g ?db) = ?db" using mem.keys_state [OF assms(1)] .
  let ?env = "fst (envelope_text C (ab_indexed ab) bk ks (ab_entropy ab))"
  let ?h = "dispatch bd mem_ops C point rq [] (ab\<lparr>ab_init := True\<rparr>)"
  have "fst ?h = Inr ASKY_NOERROR \<and> fst (snd ?h) = [(''ciphertext'', cr_b64_encode C ?env)]"
    using assms(3-8) assms(11) ks(1,3)
    by (simp add: dispatch_def process_post_def generate_envelope_def Let_def case_prod_beta split: prod.splits)
  then have res: "resolve bd rq ?h = (ASKY_NOERROR, [], [(''ciphertext'', cr_b64_encode C ?env)])"
    by (simp add: resolve_def extra_text_def)
  have "strings_valid [(''ciphertext'', cr_b64_encode C ?env)]"
    using assms(12) by (simp add: crypto_text_def utf8_texts)
  then obtain r where r: "positive_response H [(''ciphertext'', cr_b64_encode C ?env)] = Inr r"
    using positive_response_total by blast
  have "fst (process_input bd H mem_ops C point rq ab) = Some r"
    unfolding process_input_answer [OF assms(2)] res by (simp add: answer_def r)
  moreover have "client_open dec C (ab_indexed ab) ?env k = (if k \<in> set ks then Inr bk else Inl Key_Not_In_Envelope)"
    by (rule envelope_correct) (use assms(13-16) ks(2) mem.keys_length [OF assms(1) ks(1)] in \<open>auto simp: list_all_iff\<close>)
  ultimately show ?thesis
    using positive_response_parse(1) [OF r, of point] positive_response_parse(2) [OF r] ks(2) assms(11) by auto
qed

text \<open>C2: end to end. A request for an envelope of a group that has members is answered with
  status 200 and a JSON object whose ciphertext decodes to an envelope; the client that holds
  the key of a member recovers from it the bucket key of the request, and a client whose key
  is not the key of a member is told so, in the plain and in the indexed format.\<close>

theorem envelope_end_to_end:
  assumes "mem_inv (ab_database ab)" and "ab_init ab \<or> bd_memdatabase bd"
    and "rq_method rq = ''POST''" and "rq_path rq = ''/verifier/envelope''"
    and "json_parse point (rq_body rq) = Inr j"
    and "json_str j ''bucket_key'' = Inr (cr_b64_encode C bk)" and "length bk = 32"
    and "json_str j ''group_id'' = Inr g"
    and "st_groups (mem_abs (ab_database ab)) g = Some M" and "M \<noteq> {}"
    and "\<And>x. cr_b64_decode C (cr_b64_encode C x) = Inr x" and "crypto_text C" and "digest_ok C"
    and "aead_ok C dec bk (insert k (group_keys (mem_abs (ab_database ab)) g))" and "length k = KEY_SIZE"
    and "no_collision C (fst (cr_get_rand C 12 (ab_entropy ab))) (insert k (group_keys (mem_abs (ab_database ab)) g))"
  shows "\<exists>r m c env. fst (process_input bd H mem_ops C point rq ab) = Some r \<and> rs_code r = 200 \<and>
     json_parse point (rs_body r) = Inr (Json_Object m) \<and> map_find m ''ciphertext'' = Some (Json_String c) \<and>
     cr_b64_decode C c = Inr env \<and>
     client_open dec C (ab_indexed ab) env k =
       (if k \<in> group_keys (mem_abs (ab_database ab)) g then Inr bk else Inl Key_Not_In_Envelope)"
  using envelope_answer [OF assms] by blast

definition envelope_fields :: "(string \<times> json) list" where
  "envelope_fields = [(''bucket_key'', Json_String (hex_text sample_bucket_key)), (''group_id'', Json_String ''g'')]"

lemma envelope_fields_ok: "rt_plain (Json_Object envelope_fields)"
  by (simp add: envelope_fields_def map_ok_def hex_text_valid utf8_texts)

lemma sample_group_keys: "group_keys (mem_abs sample_db) ''g'' = {sample_key 0, sample_key 1}"
proof -
  have "map_find (mdb_groups sample_db) ''g'' = Some [''ann'', ''bob'']" by (simp add: sample_db_def)
  from mem_keys_set [OF sample_db_inv this] show ?thesis by (simp add: sample_db_def)
qed

theorem envelope_end_to_end_witness:
  "\<exists>r m c env. fst (process_input sample_build sample_http mem_ops sample_crypto (CHR ''.'')
       (sample_request ''POST'' ''/verifier/envelope'' envelope_fields) (sample_service True)) = Some r \<and> rs_code r = 200 \<and>
     json_parse (CHR ''.'') (rs_body r) = Inr (Json_Object m) \<and> map_find m ''ciphertext'' = Some (Json_String c) \<and>
     cr_b64_decode sample_crypto c = Inr env \<and>
     client_open sample_cipher sample_crypto True env (sample_key 1) = Inr sample_bucket_key"
proof -
  let ?ab = "sample_service True"
  let ?K = "insert (sample_key 1) (group_keys (mem_abs (ab_database ?ab)) ''g'')"
  have sub: "?K \<subseteq> sample_key ` {0, 1, 2}" by (auto simp: sample_group_keys)
  have ae: "aead_ok sample_crypto sample_cipher sample_bucket_key ?K"
    by (rule sample_aead [OF sample_key_sizes(2) _ sample_no_collision(1) [OF sub]])
      (use subsetD [OF sub] sample_key_sizes(1) in blast)
  have nc: "no_collision sample_crypto (fst (cr_get_rand sample_crypto 12 (ab_entropy ?ab))) ?K"
    using sample_no_collision(2) [OF sub] by (simp add: sample_crypto_def)
  have fields: "json_str (Json_Object envelope_fields) ''bucket_key'' = Inr (cr_b64_encode sample_crypto sample_bucket_key)"
    "json_str (Json_Object envelope_fields) ''group_id'' = Inr ''g''"
    by (simp_all add: json_str_eq envelope_fields_def sample_crypto_def)
  have inv: "mem_inv (ab_database ?ab)" using sample_db_inv by simp
  have ready: "ab_init ?ab \<or> bd_memdatabase sample_build" by simp
  have group: "st_groups (mem_abs (ab_database ?ab)) ''g'' = Some {''ann'', ''bob''}" "{''ann'', ''bob''} \<noteq> {}"
    by (simp_all add: sample_db_def)
  have member: "sample_key 1 \<in> group_keys (mem_abs (ab_database ?ab)) ''g''" by (simp add: sample_group_keys)
  show ?thesis
    using envelope_end_to_end [OF inv ready sample_request_sel(1) sample_request_sel(2)
        sample_request_parse [OF envelope_fields_ok] fields(1) sample_key_sizes(2) fields(2) group
        sample_crypto_laws(4,1,3) ae sample_key_length nc, of sample_http "CHR ''.''"]
      member unfolding sample_service_sel(3) by simp
qed

section \<open>Sharing a file\<close>

text \<open>What the platform of the client promises: its cipher with associated data
  inverts its encryption, its random source fills the array, its Base64 is the one of the monitor's library, and its JSON adapters
  write the fields of a request and read the two fields of a result.\<close>

definition platform_ok :: "'r platform \<Rightarrow> 'e crypto \<Rightarrow> char \<Rightarrow> bool" where
  "platform_ok P C point \<longleftrightarrow>
     (\<forall>k iv a d. pf_decrypt P k iv (Some a) (pf_encrypt P k iv (Some a) d) = Some d) \<and>
     (\<forall>n r. length (fst (pf_nextBytes P n r)) = n) \<and>
     (\<forall>x. pf_b64_encode P x = cr_b64_encode C x) \<and>
     (\<forall>x y. cr_b64_decode C x = Inr y \<longrightarrow> pf_b64_decode P x = Some y) \<and>
     pf_sha224 P = cr_sha224 C \<and>
     (\<forall>u g b. utf8_valid u \<and> utf8_valid g \<and> utf8_valid b \<longrightarrow>
        json_parse point (pf_bucket_json P u g b) =
          Inr (Json_Object [(''bucket_key'', Json_String b), (''group_id'', Json_String g), (''user_id'', Json_String u)])) \<and>
     (\<forall>body m res c. json_parse point body = Inr (Json_Object m) \<and> map_find m ''result'' = Some (Json_String res) \<and>
        map_find m ''ciphertext'' = Some (Json_String c) \<longrightarrow> pf_envelope_result P body = Some (res, c))"

lemma platform_okD:
  assumes "platform_ok P C point"
  shows "pf_decrypt P k iv (Some a) (pf_encrypt P k iv (Some a) d) = Some d" and "length (fst (pf_nextBytes P n r)) = n"
    and "pf_b64_encode P x = cr_b64_encode C x" and "cr_b64_decode C x = Inr y \<Longrightarrow> pf_b64_decode P x = Some y"
    and "pf_sha224 P = cr_sha224 C"
    and "utf8_valid u \<Longrightarrow> utf8_valid g \<Longrightarrow> utf8_valid b \<Longrightarrow> json_parse point (pf_bucket_json P u g b) =
      Inr (Json_Object [(''bucket_key'', Json_String b), (''group_id'', Json_String g), (''user_id'', Json_String u)])"
    and "json_parse point body = Inr (Json_Object m) \<Longrightarrow> map_find m ''result'' = Some (Json_String res) \<Longrightarrow>
      map_find m ''ciphertext'' = Some (Json_String c) \<Longrightarrow> pf_envelope_result P body = Some (res, c)"
  using assms unfolding platform_ok_def by blast+

text \<open>A back end that returns the object stored last under its name.\<close>

definition storage_ok :: "'s storage \<Rightarrow> bool" where
  "storage_ok S \<longleftrightarrow> (\<forall>b st. so_createBucketIfNotExists S b st \<noteq> None) \<and>
     (\<forall>b obj d st. \<exists>st'. so_storeObject S b obj d st = Some st' \<and> so_getObject S b obj st' = Some d)"

lemma retrieve_uploaded:
  assumes "platform_ok P C point" and "storage_ok S" and "length envelope < 2 ^ 31"
    and "openEnvelope P indexed envelope userKey = (if member then Inr key else Inl Key_Not_In_Envelope)"
  shows "\<exists>st'. fst (uploadToCloud P S data envelope key g name r st) = Inr st' \<and>
    retrieveFromCloud P S indexed userKey g name st' = (if member then Inr data else Inl (Cannot_Open Key_Not_In_Envelope))"
proof -
  obtain st1 where st1: "so_createBucketIfNotExists S g st = Some st1" using assms(2) unfolding storage_ok_def by blast
  obtain st2 where st2: "so_storeObject S g name (fst (encryptAndEncodeFile P data envelope key r)) st1 = Some st2"
    "so_getObject S g name st2 = Some (fst (encryptAndEncodeFile P data envelope key r))"
    using assms(2) unfolding storage_ok_def by blast
  let ?data = "fst (encryptAes P data key (Some envelope) r)"
  have stored: "fst (encryptAndEncodeFile P data envelope key r) = writeInt (int (length envelope)) @ envelope @ ?data"
    by (simp add: encryptAndEncodeFile_def encodeEnvelopeAndData_def case_prod_beta Let_def)
  have "retrieveFromCloud P S indexed userKey g name st2 = tryDecrypt P indexed userKey ?data envelope"
    using st2(2) readInt_writeInt [of "int (length envelope)" "envelope @ ?data"] assms(3)
    by (simp add: retrieveFromCloud_def stored)
  moreover have "tryDecrypt P indexed userKey ?data envelope = (if member then Inr data else Inl (Cannot_Open Key_Not_In_Envelope))"
    using tryDecrypt_encrypted [OF _ platform_okD(1,2) [OF assms(1)], of indexed envelope userKey key data r] assms(4)
    by (cases member) (simp_all add: tryDecrypt_def)
  ultimately show ?thesis
    using st1 st2(1) by (auto simp: uploadToCloud_def case_prod_beta Let_def)
qed


text \<open>A platform with the cipher of \<open>sample_crypto\<close>, a storage that is an association list.\<close>

definition sample_platform :: "nat platform" where
  "sample_platform = \<lparr>
     pf_encrypt = \<lambda>k iv aad d. case aad of None \<Rightarrow> d | Some a \<Rightarrow> d,
     pf_decrypt = \<lambda>k iv aad d. case aad of None \<Rightarrow> sample_cipher k iv d | Some a \<Rightarrow> Some d,
     pf_nextBytes = \<lambda>n r. (replicate n (char_of r), r + 1),
     pf_b64_encode = cr_b64_encode sample_crypto,
     pf_b64_decode = \<lambda>x. Some (unhex x),
     pf_bucket_json = \<lambda>u g b. json_text None 0
       (Json_Object [(''bucket_key'', Json_String b), (''group_id'', Json_String g), (''user_id'', Json_String u)]),
     pf_envelope_result = \<lambda>body. case json_parse (CHR ''.'') body of Inr (Json_Object m) \<Rightarrow>
       (case (map_find m ''result'', map_find m ''ciphertext'') of
          (Some (Json_String res), Some (Json_String c)) \<Rightarrow> Some (res, c) | _ \<Rightarrow> None) | _ \<Rightarrow> None,
     pf_sha224 = cr_sha224 sample_crypto\<rparr>"

lemma sample_platform_sel:
  "pf_bucket_json sample_platform u g b = json_text None 0
     (Json_Object [(''bucket_key'', Json_String b), (''group_id'', Json_String g), (''user_id'', Json_String u)])"
  "pf_decrypt sample_platform k iv (Some a) (pf_encrypt sample_platform k iv (Some a) d) = Some d"
  "length (fst (pf_nextBytes sample_platform n r)) = n" "pf_b64_encode sample_platform x = cr_b64_encode sample_crypto x"
  "cr_b64_decode sample_crypto x = Inr y \<Longrightarrow> pf_b64_decode sample_platform x = Some y"
  "pf_sha224 sample_platform = cr_sha224 sample_crypto"
  "json_parse (CHR ''.'') body = Inr (Json_Object m) \<Longrightarrow> map_find m ''result'' = Some (Json_String res) \<Longrightarrow>
     map_find m ''ciphertext'' = Some (Json_String c) \<Longrightarrow> pf_envelope_result sample_platform body = Some (res, c)"
  by (simp_all add: sample_platform_def) (simp add: sample_crypto_def)

lemma sample_platform_ok: "platform_ok sample_platform sample_crypto (CHR ''.'')"
proof -
  have rt: "rt_plain (Json_Object [(''bucket_key'', Json_String b), (''group_id'', Json_String g), (''user_id'', Json_String u)])"
    if "utf8_valid u \<and> utf8_valid g \<and> utf8_valid b" for u g b
    using that by (simp add: map_ok_def utf8_texts)
  show ?thesis
    unfolding platform_ok_def sample_platform_sel(1)
    by (intro conjI allI impI json_parse_text rt) (auto intro: sample_platform_sel(2-7))
qed

definition list_storage :: "((string \<times> string) \<times> string) list storage" where
  "list_storage = \<lparr>so_createBucketIfNotExists = \<lambda>b st. Some st, so_storeObject = \<lambda>b obj d st. Some (((b, obj), d) # st),
     so_getObject = \<lambda>b obj st. map_of st (b, obj), so_deleteObject = \<lambda>b obj st. Some (filter (\<lambda>e. fst e \<noteq> (b, obj)) st)\<rparr>"

lemma list_storage_ok: "storage_ok list_storage"
  by (simp add: storage_ok_def list_storage_def)


end
