(* ===== verification/Spec2Isabelle.thy ===== *)
theory Spec2Isabelle
  imports Json_Soundness Profile Database_Locks Server_Correctness Client_Trial File_Sharing
begin

text \<open>
  Verification of the \<^bold>\<open>anonymous file sharing\<close> system of this repository: the trusted
  access monitor (\<open>src/anonymBE\<close>), which keeps users, groups and keys inside an enclave
  and makes the key envelopes of the anonymous broadcast encryption, the JSON library through
  which it talks, and the part of the clients that opens envelopes.

  \<^bold>\<open>Parts and theories.\<close>

  \<^item> \<open>Prelude\<close>: exceptions as values, C strings, decimal printing.
    \<open>Std_Containers\<close>: \<open>std::map\<close> and \<open>std::set\<close> as ordered lists.
  \<^item> \<open>Database_Spec\<close>: the interface \<open>database.h\<close> as a record of operations, the
    abstract store (a partial map of keys and one of member sets), and the locale
    \<open>user_store\<close> with the laws that the monitor relies on. \<open>Memory_Database\<close>: every
    method of \<open>memory_database.cpp\<close>; the interpretation \<open>mem\<close> discharges the laws, and
    any sequence of calls refines the abstract store. \<open>Database_Locks\<close>: the same methods
    as sequences of lock, unlock and access steps that interleave; whatever the schedule,
    calls amount to some order of them, and which calls can block each other.
  \<^item> The JSON library \<open>json/json.hpp\<close>, as far as the program uses it. \<open>Json_Value\<close>:
    values, exceptions, element access, decimal to binary conversion. \<open>Json_Lexer\<close>: the
    lexer, function by function. \<open>Json_Parser\<close>: \<open>sax_parse_internal\<close> with the DOM
    handler, whose pointers into the growing value are paths. \<open>Json_Serializer\<close>:
    \<open>dump\<close> with the UTF-8 automaton and the fixed buffers. \<open>Json_Utf8\<close>: the automaton
    accepts exactly well formed UTF-8. \<open>Json_Text\<close>: closed form of what \<open>dump\<close>
    writes, and the bounds of its buffers. \<open>Json_Wellformed\<close>: every parsed value is well
    formed. \<open>Grisu2\<close>: the printing of doubles (\<open>dtoa_impl\<close>) on 64-bit words;
    \<open>Grisu2_Scaling\<close> bounds the errors of the scaling by a cached power, \<open>Grisu2_Digits\<close>
    shows that the digits lie between the boundaries of the double, \<open>Grisu2_Text\<close> that the
    text is converted back to it.
  \<^item> What the JSON parser accepts. \<open>Json_Grammar\<close>: the texts of RFC 8259 and their values,
    independent of the code. \<open>Json_Reading\<close> (lexer) and \<open>Json_Accepting\<close> (parser): every
    document of the grammar is read with its value. \<open>Json_Tokens\<close> (lexer) and
    \<open>Json_Soundness\<close> (parser): whatever is read is such a document, up to a NUL byte, where
    the lexer takes the input to end. \<open>Json_Roundtrip\<close>: what is printed is in the grammar,
    so that it is read back.
  \<^item> \<open>Http\<close>: the request and response values that the HTTP classes (a submodule) carry.
    \<open>Anonymbe_Service\<close>: \<open>anonymbe_service.h\<close> and \<open>anonymbe_service.hpp\<close>, the
    constructor, \<open>init\<close>, the four verbs, \<open>process_input\<close> with all its \<open>catch\<close>
    clauses. \<open>Service_Correctness\<close>: inside the locale \<open>user_store\<close>, which request
    stands for which call of the store. \<open>Service_Answers\<close>: which answer it gets.
  \<^item> \<open>Envelope_Client\<close>: \<open>Envelope.kt\<close>, the reader of both envelope formats.
    \<open>Sample_Crypto\<close>: a concrete instance of the cryptographic parameters.
    \<open>File_Sharing\<close>: the client library \<open>Client.kt\<close>, and the way of a shared file through
    client, monitor and storage.
  \<^item> \<open>Tls_Connections\<close>: the connection class and its table (\<open>tls_config.h\<close>,
    \<open>tls_config.cpp\<close>) with a log of the calls into OpenSSL and the kernel, from which it
    follows which objects exist. \<open>Ecalls\<close>: the entry points of the monitor's enclave
    (\<open>ecalls_anonymbe.cpp\<close> and \<open>ecall_tls_recv\<close>), from bytes to answered requests.
    \<open>Event_Loop\<close>: the untrusted process (\<open>event_loop.cpp\<close>,
    \<open>sgxserver_bootstrap.cpp\<close>), its queue of ready descriptors and its workers.
    \<open>Cmd_Args\<close>: the argument structs of both programs as byte arrays
    (\<open>anonymbe.cpp\<close>, \<open>writeproxy.cpp\<close>). \<open>Writer_Proxy\<close>: the writer proxy
    (\<open>writerproxy_service.cpp\<close>, \<open>ecalls_writeproxy.cpp\<close>), which runs on the same
    connections and loop. \<open>Server_Correctness\<close>: event loop, workers, connections and
    monitor together refine the abstract store.
  \<^item> \<open>Client_Trial\<close>: the trial client (\<open>client.cpp\<close>, \<open>crypto.cpp\<close>), its sequential
    search and its four threads. \<open>Profile\<close>: the profiling program (\<open>profile.cpp\<close>), whose
    requests go through the HTTP texts, the JSON parser and the monitor into the database.
  \<^item> This theory: the properties that span the parts.

  \<^bold>\<open>How the parts interact.\<close> The event loop accepts a socket, hands it to
  \<open>ecall_tls_accept\<close>, and queues the descriptors that become readable; a worker takes one
  and calls \<open>ecall_tls_recv\<close>, which reads from the connection, feeds the HTTP decoder and
  answers every complete request: in the monitor by \<open>process_input\<close> (\<open>dispatch\<close> to the
  four verbs, which call the database and answer in JSON), in the writer proxy by
  \<open>treat_request\<close>. A client opens the envelope it got with \<open>envelope_open\<close> or
  \<open>indexed_open\<close>.

  \<^bold>\<open>Parameters.\<close> The cryptographic library, the HTTP classes, the random sources and the
  MongoDB driver are submodules or external packages; they are the records \<open>crypto\<close>,
  \<open>request\<close>, \<open>response\<close>, \<open>http_strings\<close> and the table of database operations. What a
  theorem needs of them is a named hypothesis: \<open>aead_ok\<close>, \<open>digest_ok\<close>,
  \<open>no_collision\<close>, \<open>crypto_text\<close>, \<open>rand_fills\<close>. OpenSSL is the record
  \<open>openssl\<close>, the kernel \<open>kernel\<close>, the HTTP decoder \<open>http_decoder\<close>, and what the writer
  proxy calls \<open>proxy_env\<close>; the conditions on them are \<open>reads_decrease\<close>,
  \<open>decoder_drains\<close>, \<open>writes_succeed\<close>, and \<open>texts_decode\<close> for the texts of requests. The preprocessor symbols of the
  build and the evaluation order of arguments are the record \<open>build\<close>.

  \<^bold>\<open>Loops.\<close> The loops that end on every input are total functions with a termination
  proof: the lexer on the bytes left, the parser on \<open>parse_measure\<close>, \<open>dump\<close> on the size
  of the value, the loops of Grisu2 on bounds of their words, \<open>send\<close> on the tries left of its
  million. The loops that depend on a peer
  (\<open>request_loop\<close>, \<open>ready_loop\<close>, \<open>recv_loop\<close>, \<open>consume_loop\<close>, \<open>forward\<close>, \<open>reply_loop\<close>) are
  partial functions whose value \<open>None\<close> stands for not returning; \<open>recv_returns\<close> shows when
  those of the monitor return, \<open>profile_registers_users\<close> that the profiling program does, \<open>forward_never_returns\<close> and \<open>reply_loop_never_returns\<close> when the last
  two do not. No fuel is used.

  \<^bold>\<open>Concurrency.\<close> The calls on the database interleave at the level of mutexes and accesses
  in \<open>Database_Locks\<close>; the event loop and the workers interleave by whole turns in
  \<open>server_run\<close>. An access without a mutex is a data race, to which the language gives no
  meaning: the claims on interleavings leave out the one method that makes such an access.

  \<^bold>\<open>Not modelled.\<close> The interfaces of \<open>json.hpp\<close> that the program does not call
  (iterators, comparison, binary formats, JSON pointer and patch, callbacks of the parser), the MongoDB
  database (a submodule), making the key and certificate at start-up (a sequence of OpenSSL
  calls), the system calls passed through by \<open>anonymbe_ocalls.cpp\<close>, the two
  functions of the monitor for SGX error messages, which nothing calls, the build files, the load scripts and the storage back ends of the Kotlin client.
\<close>

section \<open>The access monitor over the in-memory database\<close>

text \<open>C4: the monitor refines the abstract store. After any sequence of requests, over the
  build that initialises itself or after a successful initialisation, the database
  represents the abstract store after the calls that the requests stand for.\<close>

theorem monitor_refines_store:
  assumes "rand_fills C" and "mem_inv (ab_database ab)" and "ab_init ab \<or> bd_memdatabase bd"
  shows "mem_abs (ab_database (snd (serve bd H mem_ops C point rqs ab))) =
     snd (spec_run (served_calls bd H mem_ops C point rqs ab) (mem_abs (ab_database ab)))"
  using assms by (rule mem.serve_sim)

definition sample_requests :: "request list" where
  "sample_requests = [sample_request ''DELETE'' ''/access/usergroup''
     [(''group_name'', Json_String ''g''), (''user_id'', Json_String ''ann'')]]"

lemma sample_requests_calls:
  "served_calls sample_build sample_http mem_ops sample_crypto (CHR ''.'') sample_requests (sample_service False) =
     [Remove_User_From_Group ''g'' ''ann'']"
proof -
  have "rt_plain (Json_Object [(''group_name'', Json_String ''g''), (''user_id'', Json_String ''ann'')])"
    by (simp add: map_ok_def utf8_texts)
  note p = sample_request_parse [OF this]
  have "json_str (Json_Object [(''group_name'', Json_String ''g''), (''user_id'', Json_String ''ann'')]) ''user_id'' = Inr ''ann''"
    "json_str (Json_Object [(''group_name'', Json_String ''g''), (''user_id'', Json_String ''ann'')]) ''group_name'' = Inr ''g''"
    by (simp_all add: json_str_eq)
  then show ?thesis
    by (simp add: sample_requests_def requested_call_def p)
qed

theorem monitor_refines_store_witness:
  "st_groups (mem_abs (ab_database (snd (serve sample_build sample_http mem_ops sample_crypto (CHR ''.'')
      sample_requests (sample_service False))))) ''g'' = Some {''bob''}"
proof -
  have "mem_inv (ab_database (sample_service False))" using sample_db_inv by simp
  from monitor_refines_store [OF sample_crypto_laws(2) this, of sample_build sample_http "CHR ''.''" sample_requests]
  show ?thesis
    unfolding sample_requests_calls by (simp add: spec_defs sample_db_def)
qed

text \<open>The invariant of the database (every member of a group is a user, every key has 32
  bytes, maps and sets are ordered) survives every sequence of requests, well formed or not.\<close>

lemma monitor_keeps_invariant:
  assumes "rand_fills C" and "mem_inv (ab_database ab)"
  shows "mem_inv (ab_database (snd (serve bd H mem_ops C point rqs ab)))"
  using assms by (rule mem.serve_inv)

lemma monitor_keeps_invariant_example:
  "mem_inv (ab_database (snd (serve sample_build sample_http mem_ops sample_crypto (CHR ''.'')
      sample_requests (sample_service False))))"
  by (rule monitor_keeps_invariant [OF sample_crypto_laws(2)]) (simp add: sample_db_inv)


definition ping :: request where
  "ping = \<lparr>rq_method = ''GET'', rq_path = ''/ping'', rq_body = []\<rparr>"

definition ping_response :: response where
  "ping_response = append_body (json_text (Some 2) 0 (Json_Object [(''result'', Json_String ''ok'')])) (posrep sample_http)"

lemma ping_answer:
  "fst (process_input sample_build sample_http mem_ops sample_crypto (CHR ''.'') ping (sample_service False)) = Some ping_response"
proof -
  have "json_utf8 (Json_Object [(''result'', Json_String ''ok'')])" by (simp add: utf8_texts)
  then show ?thesis
    by (simp add: process_input_answer ping_def ping_response_def dispatch_def process_get_def resolve_def extra_text_def answer_def
        positive_response_def json_index_assign_def json_dump_text del: json_utf8.simps)
qed


text \<open>C11: the status code tells the outcome. A request that stands for a call of the store is
  answered with status 400 exactly if the abstract store refuses the call.\<close>

theorem status_tells_outcome:
  assumes "rand_fills C" and "mem_inv (ab_database ab)"
    and "requested_call bd point (fst (random_key bd C (ab_entropy ab))) rq = Some c"
    and "fst (process_input bd H mem_ops C point rq ab) = Some r"
  shows "rs_code r = (if fst (spec_apply c (mem_abs (ab_database ab))) = Refused then 400 else 200)"
  using mem.process_input_code [OF assms(2) requested_call_ok [OF random_key_length [OF assms(1)] assms(3)] assms(3,4)] .

text \<open>The second removal of the same member is refused.\<close>

definition removal :: request where
  "removal = sample_request ''DELETE'' ''/access/usergroup'' [(''group_name'', Json_String ''g''), (''user_id'', Json_String ''eve'')]"

lemma removal_call: "requested_call sample_build (CHR ''.'') key removal = Some (Remove_User_From_Group ''g'' ''eve'')"
proof -
  have "rt_plain (Json_Object [(''group_name'', Json_String ''g''), (''user_id'', Json_String ''eve'')])"
    by (simp add: map_ok_def utf8_texts)
  note p = sample_request_parse [OF this]
  have "json_str (Json_Object [(''group_name'', Json_String ''g''), (''user_id'', Json_String ''eve'')]) ''user_id'' = Inr ''eve''"
    "json_str (Json_Object [(''group_name'', Json_String ''g''), (''user_id'', Json_String ''eve'')]) ''group_name'' = Inr ''g''"
    by (simp_all add: json_str_eq)
  then show ?thesis by (simp add: removal_def requested_call_def p)
qed

lemma removal_parse: "\<exists>j. json_parse point (rq_body removal) = Inr j"
proof -
  have "rt_plain (Json_Object [(''group_name'', Json_String ''g''), (''user_id'', Json_String ''eve'')])"
    by (simp add: map_ok_def utf8_texts)
  then show ?thesis unfolding removal_def using sample_request_parse by blast
qed

lemma removal_answered:
  "\<exists>r. fst (process_input sample_build sample_http mem_ops sample_crypto (CHR ''.'') removal (sample_service False)) = Some r"
  by (rule mem_process_input_total [OF _ sample_crypto_laws(1)])
    (use removal_parse [of "CHR ''.''"] in \<open>auto simp: removal_def utf8_texts\<close>)

theorem status_tells_outcome_witness:
  "\<exists>r. fst (process_input sample_build sample_http mem_ops sample_crypto (CHR ''.'') removal (sample_service False)) = Some r \<and>
     rs_code r = 400"
proof -
  obtain r where r: "fst (process_input sample_build sample_http mem_ops sample_crypto (CHR ''.'') removal
      (sample_service False)) = Some r" using removal_answered by blast
  have "mem_inv (ab_database (sample_service False))" using sample_db_inv by simp
  moreover have "fst (spec_apply (Remove_User_From_Group ''g'' ''eve'') (mem_abs sample_db)) = Refused"
    by (simp add: spec_defs sample_db_def)
  ultimately show ?thesis
    using status_tells_outcome [OF sample_crypto_laws(2) _ removal_call r] r by simp
qed

text \<open>C19: availability. Every request whose path is valid UTF-8 and whose body, if it cannot
  be parsed, leads to a message in valid UTF-8, gets an answer.\<close>

theorem valid_requests_answered:
  assumes "ab_init ab \<or> bd_memdatabase bd" and "crypto_text C" and "utf8_valid (rq_path rq)"
    and "\<And>e. json_parse point (rq_body rq) = Inl e \<Longrightarrow> exn_text_valid e"
  shows "\<exists>r. fst (process_input bd H mem_ops C point rq ab) = Some r"
  using assms by (rule mem_process_input_total)

theorem valid_requests_answered_witness:
  "\<exists>r. fst (process_input sample_build sample_http mem_ops sample_crypto (CHR ''.'') removal (sample_service True)) = Some r"
  by (rule valid_requests_answered [OF _ sample_crypto_laws(1)])
    (use removal_parse [of "CHR ''.''"] in \<open>auto simp: removal_def utf8_texts\<close>)

section \<open>Behaviour on requests that are not well formed\<close>

text \<open>C34: a request to create a user whose id is present but is not a JSON string is answered
  with status 200 and the result "ok" although no user is created: the \<open>type_error\<close> falls
  through to the clause that only prints.\<close>

theorem type_error_answered_ok:
  assumes "ab_init ab \<or> bd_memdatabase bd" and "rq_method rq = ''POST''" and "rq_path rq = ''/access/user''"
    and "json_parse point (rq_body rq) = Inr (Json_Object m)" and "map_find m ''user_id'' = Some v"
    and "\<And>s. v \<noteq> Json_String s"
  shows "\<exists>r. fst (process_input bd H D C point rq ab) = Some r \<and> rs_code r = 200 \<and>
     ab_database (snd (process_input bd H D C point rq ab)) = ab_database ab"
proof -
  obtain e where e: "json_str (Json_Object m) ''user_id'' = Inl (Json_Type_Error 302 e)"
    using assms(5,6) by (cases v) (auto simp: json_str_def json_at_def json_get_string_def type_error_create_def)
  let ?h = "dispatch bd D C point rq [] (ab\<lparr>ab_init := True\<rparr>)"
  have h: "fst ?h = Inl (Json_Type_Error 302 e)" "fst (snd ?h) = []" "ab_database (snd (snd ?h)) = ab_database ab"
    using assms(2-4) e by (simp_all add: dispatch_def process_post_def create_user_def Let_def case_prod_beta)
  obtain r where r: "positive_response H [] = Inr r"
    using positive_response_total [of "[]"] by auto
  show ?thesis
    using r positive_response_parse(2) [OF r] h
    unfolding process_input_answer [OF assms(1)] by (simp add: resolve_def answer_def)
qed

theorem type_error_answered_ok_witness:
  "\<exists>r. fst (process_input sample_build sample_http mem_ops sample_crypto (CHR ''.'')
       (sample_request ''POST'' ''/access/user'' [(''user_id'', Json_Unsigned 5)]) (sample_service True)) = Some r \<and> rs_code r = 200"
proof -
  have "rt_plain (Json_Object [(''user_id'', Json_Unsigned 5)])" by (simp add: map_ok_def utf8_texts)
  note p = sample_request_parse [OF this]
  show ?thesis
    using type_error_answered_ok [OF _ sample_request_sel p, where ab = "sample_service True" and bd = sample_build
        and v = "Json_Unsigned 5" and H = sample_http and D = mem_ops and C = sample_crypto]
    by auto
qed

text \<open>C35: a request to delete a user whose id holds a NUL character deletes the user whose id
  ends before the NUL, and leaves the user it names in place, because the id is passed as a
  C string.\<close>

theorem delete_user_stops_at_nul:
  assumes "mem_inv (ab_database ab)" and "ab_init ab \<or> bd_memdatabase bd"
    and "rq_method rq = ''DELETE''" and "rq_path rq = ''/access/user''"
    and "json_parse point (rq_body rq) = Inr j" and "json_str j ''user_id'' = Inr uid" and "CHR 0x00 \<in> set uid"
  shows "map_find (mdb_users (ab_database (snd (process_input bd H mem_ops C point rq ab)))) (c_str uid) = None \<and>
     map_find (mdb_users (ab_database (snd (process_input bd H mem_ops C point rq ab)))) uid =
     map_find (mdb_users (ab_database ab)) uid"
proof -
  have "uid \<noteq> c_str uid" using assms(7) c_str_no_nul [of uid] by metis
  moreover have "requested_call bd point (fst (random_key bd C (ab_entropy ab))) rq = Some (Delete_User (c_str uid))"
    using assms(3-6) by (simp add: requested_call_def)
  then have "ab_database (snd (process_input bd H mem_ops C point rq ab)) =
      snd (mem_delete_user (c_str uid) (ab_database ab))"
    using mem.process_input_database [OF assms(1,2)] by (simp add: mem_ops_def)
  ultimately show ?thesis by (simp add: mem_delete_user_def)
qed

theorem delete_user_stops_at_nul_witness:
  "map_find (mdb_users (ab_database (snd (process_input sample_build sample_http mem_ops sample_crypto (CHR ''.'')
      (sample_request ''DELETE'' ''/access/user'' [(''user_id'', Json_String (''ann'' @ [CHR 0x00, CHR ''x'']))])
      (sample_service True))))) ''ann'' = None"
proof -
  let ?id = "''ann'' @ [CHR 0x00, CHR ''x'']"
  have "rt_plain (Json_Object [(''user_id'', Json_String ?id)])" by (simp add: map_ok_def utf8_texts)
  note p = sample_request_parse [OF this]
  have inv: "mem_inv (ab_database (sample_service True))" using sample_db_inv by simp
  have "json_str (Json_Object [(''user_id'', Json_String ?id)]) ''user_id'' = Inr ?id" by (simp add: json_str_eq)
  moreover have "c_str ?id = ''ann''" by code_simp
  ultimately show ?thesis
    using delete_user_stops_at_nul [OF inv _ sample_request_sel p, where bd = sample_build and H = sample_http
        and C = sample_crypto and uid = ?id] by simp
qed

text \<open>A request for an unknown command whose path is not valid UTF-8 gets the default
  response and no answer: the serializer refuses the error text, which quotes the path.\<close>

lemma invalid_path_not_answered:
  assumes "ab_init ab \<or> bd_memdatabase bd" and "rq_method rq = ''GET''" and "\<not> utf8_valid (rq_path rq)"
  shows "fst (process_input bd H D C point rq ab) = None"
proof -
  have "rq_path rq \<noteq> ''/ping''" using assms(3) by (auto simp: utf8_texts)
  then have res: "resolve bd rq (dispatch bd D C point rq [] (ab\<lparr>ab_init := True\<rparr>)) =
      (ASKY_BAD_REQUEST, ''Unknown command '' @ sq @ rq_path rq @ sq, [])"
    using assms(2) by (simp add: dispatch_def process_get_def resolve_def extra_text_def Let_def)
  have "\<not> utf8_valid (''Unknown command '' @ sq @ rq_path rq @ sq)"
  proof
    assume "utf8_valid (''Unknown command '' @ sq @ rq_path rq @ sq)"
    then have "utf8_valid (rq_path rq @ sq)" by (simp add: utf8_texts)
    then show False using assms(3) utf8_valid_snoc by blast
  qed
  then have "\<not> json_utf8 (Json_Object (error_members (''Unknown command '' @ sq @ rq_path rq @ sq)))"
    by (simp add: error_members_def)
  then have "\<exists>w. json_dump 2 (Json_Object (error_members (''Unknown command '' @ sq @ rq_path rq @ sq))) = Inl (Json_Type_Error 316 w)"
    by (intro json_dump_invalid) simp_all
  then show ?thesis
    unfolding process_input_answer [OF assms(1)] res
    by (auto simp: answer_def negative_response_def assign_all_null error_members_eq simp del: assign_all.simps json_members_simps)
qed

lemma invalid_path_not_answered_example:
  "fst (process_input sample_build sample_http mem_ops sample_crypto (CHR ''.'')
      \<lparr>rq_method = ''GET'', rq_path = [CHR ''/'', CHR 0xFF], rq_body = []\<rparr> (sample_service True)) = None"
proof (rule invalid_path_not_answered)
  show "\<not> utf8_valid (rq_path \<lparr>rq_method = ''GET'', rq_path = [CHR ''/'', CHR 0xFF], rq_body = []\<rparr>)" by code_simp
qed simp_all

end
